(* ===== verification/Vantage_Prelude.thy ===== *)
theory Vantage_Prelude
  imports Main "HOL-Library.Word" "HOL-Library.AList" "HOL-Library.Multiset"
    "HOL-Library.Monad_Syntax" "HOL-Library.Product_Lexorder"
begin

text \<open>
  Shared vocabulary of the development: the machine types of the Go sources, the rule
  collections that carry the component proofs, and generic lemmas on lists, association lists
  and words. A value of type \<open>'a option\<close> returned by an operation of the model is \<open>None\<close>
  exactly when the Go code panics (index out of range, nil dereference, explicit \<open>panic\<close>).
\<close>

section \<open>Machine types\<close>

text \<open>
  \<open>uint64\<close> and \<open>uint32\<close> are words and wrap around. Instants (\<open>time.Time\<close>) are nanoseconds
  since the epoch as unbounded integers; a \<open>time.Duration\<close> is an \<open>int64\<close> of nanoseconds, whose
  arithmetic is wrapped by \<open>wrap64\<close> where the code computes with it. A \<open>float64\<close> is carried as
  its bit pattern: no part of the program computes with it.
\<close>

type_synonym uint64 = "64 word"
type_synonym uint32 = "32 word"
type_synonym float64 = "64 word"
type_synonym gotime = int
type_synonym duration = int

definition wrap64 :: "int \<Rightarrow> int" where
  "wrap64 i = (i + 2 ^ 63) mod 2 ^ 64 - 2 ^ 63"

definition MaxInt64 :: int where "MaxInt64 = 2 ^ 63 - 1"

text \<open>
  \<open>make\<close> panics when the length is negative or the memory of the elements exceeds what the address space of
  a 64-bit platform allows (\<open>runtime.maxAlloc\<close>); \<open>sz\<close> is the size of an element in bytes.
\<close>

definition maxAlloc :: int where "maxAlloc = 2 ^ 48"

definition make_ok :: "int \<Rightarrow> int \<Rightarrow> bool" where
  "make_ok sz n \<longleftrightarrow> 0 \<le> n \<and> sz * n \<le> maxAlloc"

definition Millisecond :: duration where "Millisecond = 1000000"
definition Second :: duration where "Second = 1000000000"

named_theorems unit_simps \<open>durations and bounds as numerals\<close>

declare Millisecond_def [unit_simps] Second_def [unit_simps] MaxInt64_def [unit_simps]

lemma wrap64_id [simp]:
  assumes "- (2 ^ 63) \<le> i" "i < 2 ^ 63"
  shows "wrap64 i = i"
  using assms by (simp add: wrap64_def)

lemma wrap64_range: "- (2 ^ 63) \<le> wrap64 i \<and> wrap64 i < 2 ^ 63"
proof -
  have "0 \<le> (i + 2 ^ 63) mod 2 ^ 64" and "(i + 2 ^ 63) mod 2 ^ 64 < 2 ^ 64"
    by (simp_all add: pos_mod_bound)
  then show ?thesis by (simp add: wrap64_def)
qed

section \<open>Slices\<close>

text \<open>Reading a slice element: out of range is a panic.\<close>

definition index :: "'a list \<Rightarrow> nat \<Rightarrow> 'a option" where
  "index xs i = (if i < length xs then Some (xs ! i) else None)"

lemma index_Some [simp]: "i < length xs \<Longrightarrow> index xs i = Some (xs ! i)"
  by (simp add: index_def)

lemma index_eq_Some_iff: "index xs i = Some x \<longleftrightarrow> i < length xs \<and> xs ! i = x"
  by (auto simp: index_def)

lemma mset_list_swap:
  assumes "i < length xs" "j < length xs"
  shows "mset (xs[i := xs ! j, j := xs ! i]) = mset xs"
proof -
  have "mset (xs[j := xs ! i, i := xs ! j]) = mset xs"
    using assms by (rule mset_swap)
  then show ?thesis
    using assms by (cases "i = j") (simp_all add: list_update_swap)
qed

lemma in_set_tlD: "x \<in> set (tl xs) \<Longrightarrow> x \<in> set xs"
  by (cases xs) auto

section \<open>Association lists\<close>

text \<open>
  Go maps with a bounded set of keys are association lists with distinct keys: \<open>map_of\<close> looks
  a key up, \<open>AList.update\<close> stores, \<open>AList.delete\<close> deletes and \<open>length\<close> is Go's \<open>len\<close>.
\<close>

lemma map_of_delete_eq: "map_of (AList.delete k m) = (map_of m)(k := None)"
  by (rule delete_conv')

lemma keys_delete: "map fst (AList.delete k m) = removeAll k (map fst m)"
  by (induction m) (auto simp: AList.delete_eq)

lemma distinct_keys_delete:
  "distinct (map fst m) \<Longrightarrow> distinct (map fst (AList.delete k m))"
  by (rule distinct_delete)

lemma delete_set: "set (AList.delete k m) = {p \<in> set m. fst p \<noteq> k}"
  by (auto simp: AList.delete_eq)

lemma length_delete_key:
  assumes "distinct (map fst m)" "map_of m k = Some v"
  shows "Suc (length (AList.delete k m)) = length m"
  using assms
proof (induction m)
  case (Cons p m)
  show ?case
  proof (cases "fst p = k")
    case True
    with Cons.prems(1) have "k \<notin> fst ` set m" by auto
    then have "AList.delete k m = m" by (rule delete_id)
    with True show ?thesis by (cases p) (simp add: AList.delete_eq)
  next
    case False
    with Cons show ?thesis by (cases p) (auto simp: AList.delete_eq)
  qed
qed simp

lemma update_fresh:
  "k \<notin> fst ` set m \<Longrightarrow> AList.update k v m = m @ [(k, v)]"
  by (induction m) auto

lemma length_update_le: "length (AList.update k v m) \<le> Suc (length m)"
  by (induction m) auto

lemma mset_delete_key:
  assumes "distinct (map fst m)" "map_of m k = Some v"
  shows "mset m = add_mset (k, v) (mset (AList.delete k m))"
  using assms
proof (induction m)
  case (Cons p m)
  show ?case
  proof (cases "fst p = k")
    case True
    with Cons.prems(1) have "k \<notin> fst ` set m" by auto
    then have "AList.delete k m = m" by (rule delete_id)
    with True Cons.prems(2) show ?thesis by (cases p) (simp add: AList.delete_eq)
  next
    case False
    with Cons show ?thesis by (cases p) (auto simp: AList.delete_eq)
  qed
qed simp

lemma length_filter_filter_le: "length (filter P (filter Q xs)) \<le> length (filter P xs)"
  by (induction xs) auto

section \<open>Sorted identifiers\<close>

lemma sort_mset_unique:
  fixes xs ys :: "'a::linorder list"
  assumes "mset xs = mset ys"
  shows "sort xs = sort ys"
  using assms by (metis properties_for_sort mset_sort sorted_sort)

section \<open>Word counters\<close>

lemma word_succ_nonzero: "x < y \<Longrightarrow> x + 1 \<noteq> 0" for x y :: "'a::len word"
  by (metis eq_neg_iff_add_eq_0 leD word_order.extremum)

lemma unat_succ: "x + 1 \<noteq> 0 \<Longrightarrow> unat (x + 1) = Suc (unat x)" for x :: "'a::len word"
  by (metis add.commute unatSuc)

lemma unat_succ_bounded: "Suc (unat x) < 2 ^ LENGTH('a) \<Longrightarrow> unat (x + 1) = Suc (unat x)" for x :: "'a::len word"
  by (simp add: unat_word_ariths)

lemma unat_of_nat_small: "n < 2 ^ LENGTH('a) \<Longrightarrow> unat (of_nat n :: 'a::len word) = n"
  by (simp add: unsigned_of_nat take_bit_nat_eq_self)

section \<open>Decimal printing\<close>

text \<open>The \<open>%d\<close> verb of \<open>fmt.Sprintf\<close> and \<open>strconv.Itoa\<close> on non-negative values.\<close>

fun dec_digits :: "nat \<Rightarrow> string" where
  "dec_digits n =
     (if n < 10 then [char_of (48 + n)] else dec_digits (n div 10) @ [char_of (48 + n mod 10)])"

declare dec_digits.simps [simp del]

end
