(* ===== verification/Ring_Buffer.thy ===== *)
theory Ring_Buffer
  imports Vantage_Prelude
begin

text \<open>
  The two fixed-capacity rings of the broker (\<open>internal/queue/broker.go\<close>): the main lane
  \<open>deque\<close>, whose \<open>pushBack\<close> panics on a full ring, and the dead-letter lane \<open>dlqRing\<close>, whose
  \<open>push\<close> evicts the oldest item. Both Go structs have the same three fields (\<open>buf\<close>, \<open>head\<close>,
  \<open>count\<close>), so both are the record \<open>ring\<close>; an empty slot (nil pointer, zero \<open>dlqItem\<close>) is
  \<open>None\<close>. The rings are related to the list of their items by \<open>ring_content\<close>, and the
  interfaces \<open>fifo_pop\<close>, \<open>strict_fifo\<close> and \<open>evicting_fifo\<close> state what the broker relies on.
\<close>

section \<open>The rings\<close>

record 'a ring =
  rbuf :: "'a option list"
  rhead :: nat
  rcount :: nat

definition empty_ring :: "nat \<Rightarrow> 'a ring" where
  "empty_ring n = \<lparr>rbuf = replicate n None, rhead = 0, rcount = 0\<rparr>"

text \<open>A slot of the main lane is a pointer of 8 bytes.\<close>

definition newDeque :: "int \<Rightarrow> 'a ring option" where
  "newDeque capacity = (if make_ok 8 capacity then Some (empty_ring (nat capacity)) else None)"

definition deque_len :: "'a ring \<Rightarrow> nat" where
  "deque_len d = rcount d"

definition deque_pushBack :: "'a \<Rightarrow> 'a ring \<Rightarrow> 'a ring option" where
  "deque_pushBack e d =
     (if rcount d = length (rbuf d) then None
      else Some (d\<lparr>rbuf := (rbuf d)[(rhead d + rcount d) mod length (rbuf d) := Some e],
                   rcount := rcount d + 1\<rparr>))"

definition deque_popFront :: "'a ring \<Rightarrow> ('a option \<times> bool \<times> 'a ring) option" where
  "deque_popFront d =
     (if rcount d = 0 then Some (None, False, d)
      else do {
        e \<leftarrow> index (rbuf d) (rhead d);
        Some (e, True,
          d\<lparr>rbuf := (rbuf d)[rhead d := None],
            rhead := (rhead d + 1) mod length (rbuf d),
            rcount := rcount d - 1\<rparr>)
      })"

text \<open>A \<open>dlqItem\<close> is a pointer, a string and an instant: 48 bytes.\<close>

definition newDLQRing :: "int \<Rightarrow> 'a ring option" where
  "newDLQRing capacity = (if make_ok 48 capacity then Some (empty_ring (nat capacity)) else None)"

definition dlqRing_len :: "'a ring \<Rightarrow> nat" where
  "dlqRing_len r = rcount r"

definition dlqRing_push :: "'a \<Rightarrow> 'a ring \<Rightarrow> (bool \<times> 'a ring) option" where
  "dlqRing_push item r = do {
     (evicted, r) \<leftarrow>
       (if rcount r = length (rbuf r) then do {
          _ \<leftarrow> index (rbuf r) (rhead r);
          Some (True, r\<lparr>rbuf := (rbuf r)[rhead r := None],
                        rhead := (rhead r + 1) mod length (rbuf r),
                        rcount := rcount r - 1\<rparr>)
        } else Some (False, r));
     Some (evicted, r\<lparr>rbuf := (rbuf r)[(rhead r + rcount r) mod length (rbuf r) := Some item],
                      rcount := rcount r + 1\<rparr>)
   }"

definition dlqRing_pop :: "'a ring \<Rightarrow> ('a option \<times> bool \<times> 'a ring) option" where
  "dlqRing_pop r =
     (if rcount r = 0 then Some (None, False, r)
      else do {
        item \<leftarrow> index (rbuf r) (rhead r);
        Some (item, True,
          r\<lparr>rbuf := (rbuf r)[rhead r := None],
            rhead := (rhead r + 1) mod length (rbuf r),
            rcount := rcount r - 1\<rparr>)
      })"

section \<open>Contents and well-formedness\<close>

definition ring_slot :: "'a ring \<Rightarrow> nat \<Rightarrow> 'a option" where
  "ring_slot r i = rbuf r ! ((rhead r + i) mod length (rbuf r))"

definition ring_content :: "'a ring \<Rightarrow> 'a list" where
  "ring_content r = map (\<lambda>i. the (ring_slot r i)) [0..<rcount r]"

text \<open>
  The occupied slots are exactly the \<open>count\<close> slots from \<open>head\<close> on; every other slot is empty
  (the sources clear popped slots for the garbage collector).
\<close>

definition ring_inv :: "'a ring \<Rightarrow> bool" where
  "ring_inv r \<longleftrightarrow>
     rhead r < length (rbuf r) \<and> rcount r \<le> length (rbuf r) \<and>
     (\<forall>i < length (rbuf r). ring_slot r i \<noteq> None \<longleftrightarrow> i < rcount r)"

definition ring_cap :: "'a ring \<Rightarrow> nat" where
  "ring_cap r = length (rbuf r)"

lemma ring_idx_cases:
  "h < n \<Longrightarrow> i \<le> n \<Longrightarrow> (h + i) mod n = (if h + i < n then h + i else h + i - n)"
  for h i n :: nat
  by (auto simp: le_mod_geq)

lemma ring_idx_inj:
  "h < n \<Longrightarrow> i < n \<Longrightarrow> j < n \<Longrightarrow> (h + i) mod n = (h + j) mod n \<longleftrightarrow> i = j"
  for h i j n :: nat
  by (auto simp: ring_idx_cases split: if_splits)

lemma ring_idx_less: "h < n \<Longrightarrow> (h + i) mod n < n" for h i n :: nat
  by simp

lemma length_ring_content [simp]: "length (ring_content r) = rcount r"
  by (simp add: ring_content_def)

lemma ring_content_nth: "i < rcount r \<Longrightarrow> ring_content r ! i = the (ring_slot r i)"
  by (simp add: ring_content_def)

lemma ring_content_empty_iff [simp]: "ring_content r = [] \<longleftrightarrow> rcount r = 0"
  by (simp add: ring_content_def)

lemma ring_inv_new [simp]: "0 < n \<Longrightarrow> ring_inv \<lparr>rbuf = replicate n None, rhead = 0, rcount = 0\<rparr>"
  by (simp add: ring_inv_def ring_slot_def)

lemma ring_content_new [simp]: "ring_content \<lparr>rbuf = b, rhead = h, rcount = 0\<rparr> = []"
  by simp

text \<open>Writing slot \<open>count\<close> and removing slot \<open>0\<close>, the two moves both rings are made of.\<close>

definition ring_snoc :: "'a \<Rightarrow> 'a ring \<Rightarrow> 'a ring" where
  "ring_snoc e d =
     d\<lparr>rbuf := (rbuf d)[(rhead d + rcount d) mod length (rbuf d) := Some e],
       rcount := rcount d + 1\<rparr>"

definition ring_tail :: "'a ring \<Rightarrow> 'a ring" where
  "ring_tail d =
     d\<lparr>rbuf := (rbuf d)[rhead d := None],
       rhead := (rhead d + 1) mod length (rbuf d),
       rcount := rcount d - 1\<rparr>"

lemma ring_cap_snoc [simp]: "ring_cap (ring_snoc e d) = ring_cap d"
  by (simp add: ring_cap_def ring_snoc_def)

lemma ring_cap_tail [simp]: "ring_cap (ring_tail d) = ring_cap d"
  by (simp add: ring_cap_def ring_tail_def)

lemma ring_slot_snoc:
  assumes "ring_inv d" "rcount d < ring_cap d" "i < ring_cap d"
  shows "ring_slot (ring_snoc e d) i = (if i = rcount d then Some e else ring_slot d i)"
proof -
  let ?n = "length (rbuf d)"
  have h: "rhead d < ?n" and i: "i < ?n" and c: "rcount d < ?n"
    using assms by (auto simp: ring_inv_def ring_cap_def)
  have "(rhead d + i) mod ?n < ?n" "(rhead d + rcount d) mod ?n < ?n"
    using h by (simp_all add: ring_idx_less)
  then show ?thesis
    using ring_idx_inj [OF h i c]
    by (simp add: ring_slot_def ring_snoc_def nth_list_update eq_commute)
qed

lemma ring_slot_tail:
  assumes "ring_inv d" "0 < rcount d" "i < ring_cap d"
  shows "ring_slot (ring_tail d) i =
           (if Suc i = ring_cap d then None else ring_slot d (Suc i))"
proof -
  let ?n = "length (rbuf d)"
  have h: "rhead d < ?n" and i: "i < ?n"
    using assms by (auto simp: ring_inv_def ring_cap_def)
  have idx: "((rhead d + 1) mod ?n + i) mod ?n = (rhead d + Suc i) mod ?n"
    by (simp add: mod_add_left_eq)
  show ?thesis
  proof (cases "Suc i = ?n")
    case True
    then have "(rhead d + Suc i) mod ?n = rhead d"
      using h by simp
    with idx True h show ?thesis
      by (simp add: ring_slot_def ring_tail_def ring_cap_def)
  next
    case False
    with i have "Suc i < ?n" by simp
    then have "(rhead d + Suc i) mod ?n \<noteq> rhead d"
      using ring_idx_inj [of "rhead d" ?n "Suc i" 0] h by fastforce
    with idx False show ?thesis
      by (simp add: ring_slot_def ring_tail_def ring_cap_def)
  qed
qed

lemma ring_inv_snoc:
  assumes "ring_inv d" "rcount d < ring_cap d"
  shows "ring_inv (ring_snoc e d)"
proof -
  have "\<forall>i < ring_cap d. ring_slot (ring_snoc e d) i \<noteq> None \<longleftrightarrow> i < Suc (rcount d)"
    using assms by (auto simp: ring_slot_snoc ring_inv_def ring_cap_def)
  then show ?thesis
    using assms by (simp add: ring_inv_def ring_cap_def ring_snoc_def)
qed

lemma ring_inv_tail:
  assumes "ring_inv d" "0 < rcount d"
  shows "ring_inv (ring_tail d)"
proof -
  have "\<forall>i < ring_cap d. ring_slot (ring_tail d) i \<noteq> None \<longleftrightarrow> i < rcount d - 1"
    using assms by (auto simp: ring_slot_tail ring_inv_def ring_cap_def)
  moreover have "Suc (rhead d) mod length (rbuf d) < length (rbuf d)"
    using assms by (intro mod_less_divisor) (auto simp: ring_inv_def)
  moreover have "rcount d - 1 \<le> length (rbuf d)"
    using assms by (auto simp: ring_inv_def)
  ultimately show ?thesis
    by (simp add: ring_inv_def ring_cap_def ring_tail_def)
qed

lemma ring_content_snoc:
  assumes "ring_inv d" "rcount d < ring_cap d"
  shows "ring_content (ring_snoc e d) = ring_content d @ [e]"
proof (rule nth_equalityI)
  show "length (ring_content (ring_snoc e d)) = length (ring_content d @ [e])"
    by (simp add: ring_snoc_def)
  fix i assume "i < length (ring_content (ring_snoc e d))"
  then have "i < Suc (rcount d)" by (simp add: ring_snoc_def)
  with assms show "ring_content (ring_snoc e d) ! i = (ring_content d @ [e]) ! i"
    by (simp add: ring_content_def ring_slot_snoc nth_append ring_snoc_def [of e d, THEN arg_cong [where f = rcount]])
qed

lemma ring_content_tail:
  assumes "ring_inv d" "0 < rcount d"
  shows "ring_content (ring_tail d) = tl (ring_content d)"
proof (rule nth_equalityI)
  have c: "rcount (ring_tail d) = rcount d - 1" by (simp add: ring_tail_def)
  then show "length (ring_content (ring_tail d)) = length (tl (ring_content d))" by simp
  fix i assume "i < length (ring_content (ring_tail d))"
  with c have i: "i < rcount d - 1" by simp
  with assms have "i < ring_cap d" "Suc i \<noteq> ring_cap d"
    by (auto simp: ring_inv_def ring_cap_def)
  with assms c i show "ring_content (ring_tail d) ! i = tl (ring_content d) ! i"
    by (simp add: ring_content_nth ring_slot_tail nth_tl)
qed

lemma ring_slot_0:
  assumes "ring_inv d" "0 < rcount d"
  shows "rhead d < length (rbuf d)" "rbuf d ! rhead d = Some (hd (ring_content d))"
proof -
  have "0 < length (rbuf d)" using assms by (auto simp: ring_inv_def)
  with assms have "ring_slot d 0 \<noteq> None" unfolding ring_inv_def by blast
  then have "ring_slot d 0 = Some (hd (ring_content d))"
    using assms by (simp add: ring_content_def hd_map)
  then show "rbuf d ! rhead d = Some (hd (ring_content d))"
    using assms by (simp add: ring_slot_def ring_inv_def)
  show "rhead d < length (rbuf d)" using assms by (simp add: ring_inv_def)
qed

section \<open>What the broker relies on\<close>

text \<open>
  \<open>fifo_pop\<close> is the contract of both \<open>popFront\<close> and \<open>pop\<close>; \<open>strict_fifo\<close> adds a push that
  must not be called on a full lane, \<open>evicting_fifo\<close> one that evicts the oldest item.
\<close>

fun pop_n :: "('q \<Rightarrow> ('a option \<times> bool \<times> 'q) option) \<Rightarrow> nat \<Rightarrow> 'q \<Rightarrow> ('a option list \<times> 'q) option" where
  "pop_n pop 0 q = Some ([], q)"
| "pop_n pop (Suc n) q = do {
     (x, ok, q') \<leftarrow> pop q;
     if ok then do { (xs, q'') \<leftarrow> pop_n pop n q'; Some (x # xs, q'') } else Some ([], q')
   }"

fun push_n :: "('a \<Rightarrow> 'q \<Rightarrow> 'q option) \<Rightarrow> 'a list \<Rightarrow> 'q \<Rightarrow> 'q option" where
  "push_n push [] q = Some q"
| "push_n push (x # xs) q = do { q' \<leftarrow> push x q; push_n push xs q' }"

locale fifo_pop =
  fixes invar :: "'q \<Rightarrow> bool"
    and content :: "'q \<Rightarrow> 'a list"
    and cap :: "'q \<Rightarrow> nat"
    and pop :: "'q \<Rightarrow> ('a option \<times> bool \<times> 'q) option"
  assumes bounded: "invar q \<Longrightarrow> length (content q) \<le> cap q"
    and pop_empty: "invar q \<Longrightarrow> content q = [] \<Longrightarrow> pop q = Some (None, False, q)"
    and pop_front: "invar q \<Longrightarrow> content q = x # xs \<Longrightarrow>
      \<exists>q'. pop q = Some (Some x, True, q') \<and> invar q' \<and> content q' = xs \<and> cap q' = cap q"
begin

lemma pop_cases:
  assumes "invar q"
  obtains (empty) "content q = []" "pop q = Some (None, False, q)"
  | (front) x xs q' where "content q = x # xs" "pop q = Some (Some x, True, q')"
      "invar q'" "content q' = xs" "cap q' = cap q"
proof (cases "content q")
  case Nil
  with assms pop_empty show ?thesis by (auto intro: that)
next
  case (Cons x xs)
  with assms pop_front [OF assms Cons] show ?thesis by (auto intro: that)
qed

lemma pop_total: "invar q \<Longrightarrow> \<exists>x ok q'. pop q = Some (x, ok, q') \<and> invar q'"
  by (cases q rule: pop_cases) auto

lemma pop_n_content:
  assumes "invar q" "n \<le> length (content q)"
  shows "\<exists>q'. pop_n pop n q = Some (map Some (take n (content q)), q') \<and> invar q' \<and>
           content q' = drop n (content q) \<and> cap q' = cap q"
  using assms
proof (induction n arbitrary: q)
  case (Suc n)
  from Suc.prems obtain x xs where c: "content q = x # xs" by (cases "content q") auto
  from pop_front [OF Suc.prems(1) c] obtain q' where
    q': "pop q = Some (Some x, True, q')" "invar q'" "content q' = xs" "cap q' = cap q" by blast
  with Suc.prems c have "n \<le> length (content q')" by simp
  from Suc.IH [OF q'(2) this] q' c show ?case by auto
qed simp

end

locale strict_fifo = fifo_pop invar content cap pop
  for invar :: "'q \<Rightarrow> bool" and content :: "'q \<Rightarrow> 'a list" and cap :: "'q \<Rightarrow> nat"
    and pop :: "'q \<Rightarrow> ('a option \<times> bool \<times> 'q) option" +
  fixes push :: "'a \<Rightarrow> 'q \<Rightarrow> 'q option"
  assumes push_room: "invar q \<Longrightarrow> length (content q) < cap q \<Longrightarrow>
      \<exists>q'. push x q = Some q' \<and> invar q' \<and> content q' = content q @ [x] \<and> cap q' = cap q"
    and push_full: "invar q \<Longrightarrow> length (content q) = cap q \<Longrightarrow> push x q = None"
begin

lemma push_n_content:
  assumes "invar q" "length (content q) + length xs \<le> cap q"
  shows "\<exists>q'. push_n push xs q = Some q' \<and> invar q' \<and> content q' = content q @ xs \<and> cap q' = cap q"
  using assms
proof (induction xs arbitrary: q)
  case (Cons x xs)
  from Cons.prems push_room [of q x] obtain q' where
    q': "push x q = Some q'" "invar q'" "content q' = content q @ [x]" "cap q' = cap q" by auto
  with Cons.prems have "length (content q') + length xs \<le> cap q'" by simp
  from Cons.IH [OF q'(2) this] q' show ?case by auto
qed simp

lemma fifo_order:
  assumes "invar q" "content q = []" "length xs \<le> cap q"
  shows "\<exists>q' q''. push_n push xs q = Some q' \<and> pop_n pop (length xs) q' = Some (map Some xs, q'') \<and>
           content q'' = []"
proof -
  from assms push_n_content [of q xs] obtain q' where
    q': "push_n push xs q = Some q'" "invar q'" "content q' = xs" by auto
  from pop_n_content [of q' "length xs"] q' show ?thesis by auto
qed

end

locale evicting_fifo = fifo_pop invar content cap pop
  for invar :: "'q \<Rightarrow> bool" and content :: "'q \<Rightarrow> 'a list" and cap :: "'q \<Rightarrow> nat"
    and pop :: "'q \<Rightarrow> ('a option \<times> bool \<times> 'q) option" +
  fixes push :: "'a \<Rightarrow> 'q \<Rightarrow> (bool \<times> 'q) option"
  assumes push_evict: "invar q \<Longrightarrow>
      \<exists>q'. push x q = Some (length (content q) = cap q, q') \<and> invar q' \<and> cap q' = cap q \<and>
        content q' = (if length (content q) = cap q then tl (content q) else content q) @ [x]"
    and cap_pos: "invar q \<Longrightarrow> 0 < cap q"
begin

lemma push_total: "invar q \<Longrightarrow> \<exists>ev q'. push x q = Some (ev, q')"
  using push_evict by blast

lemma push_n_newest:
  assumes "invar q"
  shows "\<exists>q'. push_n (\<lambda>x q. map_option snd (push x q)) xs q = Some q' \<and> invar q' \<and>
           cap q' = cap q \<and>
           content q' = drop (length (content q @ xs) - cap q) (content q @ xs)"
  using assms
proof (induction xs arbitrary: q)
  case Nil
  with bounded [OF Nil.prems] show ?case by simp
next
  case (Cons x xs)
  from push_evict [OF Cons.prems, of x] obtain q' where
    q': "push x q = Some (length (content q) = cap q, q')" "invar q'" "cap q' = cap q"
      "content q' = (if length (content q) = cap q then tl (content q) else content q) @ [x]"
    by blast
  from Cons.IH [OF q'(2)] obtain q'' where
    q'': "push_n (\<lambda>x q. map_option snd (push x q)) xs q' = Some q''" "invar q''" "cap q'' = cap q'"
      "content q'' = drop (length (content q' @ xs) - cap q') (content q' @ xs)" by blast
  have "content q'' = drop (length (content q @ x # xs) - cap q) (content q @ x # xs)"
  proof (cases "length (content q) = cap q")
    case True
    with cap_pos [OF Cons.prems] obtain y ys where "content q = y # ys"
      by (cases "content q") auto
    with True q'(3,4) q''(4) show ?thesis by (simp add: Suc_diff_le)
  next
    case False
    with q'(3,4) q''(4) show ?thesis by simp
  qed
  with q' q'' show ?case by simp
qed

end

section \<open>The rings satisfy the contracts\<close>

lemma deque_pushBack_eq:
  "deque_pushBack e d = (if rcount d = ring_cap d then None else Some (ring_snoc e d))"
  by (simp add: deque_pushBack_def ring_snoc_def ring_cap_def)

lemma dlqRing_pop_eq: "dlqRing_pop = deque_popFront"
  by (simp add: fun_eq_iff dlqRing_pop_def deque_popFront_def)

lemma deque_popFront_eq:
  assumes "ring_inv d"
  shows "deque_popFront d =
     (if rcount d = 0 then Some (None, False, d)
      else Some (Some (hd (ring_content d)), True, ring_tail d))"
  using ring_slot_0 [OF assms] by (simp add: deque_popFront_def ring_tail_def)

lemma dlqRing_push_eq:
  assumes "ring_inv r"
  shows "dlqRing_push item r =
     (if rcount r = ring_cap r then Some (True, ring_snoc item (ring_tail r))
      else Some (False, ring_snoc item r))"
  using assms
  by (simp add: dlqRing_push_def ring_snoc_def ring_tail_def ring_cap_def ring_inv_def)

lemma ring_inv_cap_pos: "ring_inv r \<Longrightarrow> 0 < ring_cap r"
  by (auto simp: ring_inv_def ring_cap_def)

interpretation main_lane: strict_fifo ring_inv ring_content ring_cap deque_popFront deque_pushBack
proof unfold_locales
  fix q :: "'a ring" and x :: 'a and xs :: "'a list"
  assume inv: "ring_inv q"
  then show "length (ring_content q) \<le> ring_cap q" by (simp add: ring_inv_def ring_cap_def)
  show "deque_popFront q = Some (None, False, q)" if "ring_content q = []"
    using that inv by (simp add: deque_popFront_eq)
  show "\<exists>q'. deque_popFront q = Some (Some x, True, q') \<and> ring_inv q' \<and> ring_content q' = xs \<and>
          ring_cap q' = ring_cap q" if "ring_content q = x # xs"
  proof -
    from that have "0 < rcount q" by (metis length_ring_content length_greater_0_conv list.distinct(1))
    with inv that show ?thesis
      by (simp add: deque_popFront_eq ring_inv_tail ring_content_tail)
  qed
  show "\<exists>q'. deque_pushBack x q = Some q' \<and> ring_inv q' \<and> ring_content q' = ring_content q @ [x] \<and>
          ring_cap q' = ring_cap q" if "length (ring_content q) < ring_cap q"
    using that inv by (simp add: deque_pushBack_eq ring_inv_snoc ring_content_snoc)
  show "deque_pushBack x q = None" if "length (ring_content q) = ring_cap q"
    using that by (simp add: deque_pushBack_eq)
qed

interpretation dlq_lane: evicting_fifo ring_inv ring_content ring_cap dlqRing_pop dlqRing_push
proof unfold_locales
  fix q :: "'a ring" and x :: 'a and xs :: "'a list"
  assume inv: "ring_inv q"
  then show "length (ring_content q) \<le> ring_cap q" by (rule main_lane.bounded)
  show "dlqRing_pop q = Some (None, False, q)" if "ring_content q = []"
    unfolding dlqRing_pop_eq using inv that by (rule main_lane.pop_empty)
  show "\<exists>q'. dlqRing_pop q = Some (Some x, True, q') \<and> ring_inv q' \<and> ring_content q' = xs \<and>
          ring_cap q' = ring_cap q" if "ring_content q = x # xs"
    unfolding dlqRing_pop_eq using inv that by (rule main_lane.pop_front)
  show "0 < ring_cap q" using inv by (rule ring_inv_cap_pos)
  show "\<exists>q'. dlqRing_push x q = Some (length (ring_content q) = ring_cap q, q') \<and> ring_inv q' \<and>
          ring_cap q' = ring_cap q \<and> ring_content q' =
          (if length (ring_content q) = ring_cap q then tl (ring_content q) else ring_content q) @ [x]"
  proof (cases "rcount q = ring_cap q")
    case True
    with inv ring_inv_cap_pos [OF inv] have "0 < rcount q" by simp
    moreover have "rcount (ring_tail q) < ring_cap (ring_tail q)"
      using True ring_inv_cap_pos [OF inv] by (simp add: ring_tail_def ring_cap_def)
    ultimately show ?thesis
      using inv True
      by (simp add: dlqRing_push_eq ring_inv_snoc ring_inv_tail ring_content_snoc ring_content_tail)
  next
    case False
    with main_lane.bounded [OF inv] have "rcount q < ring_cap q" by simp
    with inv False show ?thesis
      by (simp add: dlqRing_push_eq ring_inv_snoc ring_content_snoc)
  qed
qed

section \<open>The rings of the broker\<close>

text \<open>The main lane is a strict FIFO: an empty deque takes as many entries as its capacity and gives
  them back in order; one more push panics instead of dropping an entry.\<close>

theorem deque_fifo:
  assumes "length xs \<le> n" "0 < n"
  shows "\<exists>q q'. push_n deque_pushBack xs (empty_ring n) = Some q \<and>
    pop_n deque_popFront (length xs) q = Some (map Some xs, q') \<and> deque_len q' = 0 \<and>
    (length xs = n \<longrightarrow> deque_pushBack x q = None)"
proof -
  have new: "ring_inv (empty_ring n :: 'a ring)" "ring_content (empty_ring n :: 'a ring) = []"
    "ring_cap (empty_ring n :: 'a ring) = n"
    using assms(2) by (simp_all add: empty_ring_def ring_cap_def)
  with assms(1) main_lane.push_n_content [of "empty_ring n" xs] obtain q where
    q: "push_n deque_pushBack xs (empty_ring n) = Some q" "ring_inv q" "ring_content q = xs" "ring_cap q = n"
    by auto
  from main_lane.pop_n_content [OF q(2), of "length xs"] q(3) obtain q' where
    q': "pop_n deque_popFront (length xs) q = Some (map Some xs, q')" "ring_content q' = []" by auto
  have "length xs = n \<longrightarrow> deque_pushBack x q = None" using main_lane.push_full [OF q(2)] q(3,4) by simp
  with q q' show ?thesis by (auto simp: deque_len_def)
qed

theorem deque_fifo_witness:
  "\<exists>q q'. push_n deque_pushBack [10, 20, 30::nat] (empty_ring 3) = Some q \<and>
    pop_n deque_popFront 3 q = Some ([Some 10, Some 20, Some 30], q') \<and> deque_pushBack 40 q = None"
  using deque_fifo [of "[10, 20, 30::nat]" 3 40] by (auto simp: numeral_3_eq_3)

text \<open>The dead-letter ring never refuses an item: pushing any sequence keeps exactly the newest
  \<open>capacity\<close> items, in order, and every eviction is reported.\<close>

lemma dlqRing_keeps_newest:
  assumes "0 < n"
  shows "\<exists>q. push_n (\<lambda>x q. map_option snd (dlqRing_push x q)) xs (empty_ring n) = Some q \<and>
    ring_content q = drop (length xs - n) xs \<and> dlqRing_len q = min (length xs) n \<and>
    map_option fst (dlqRing_push x q) = Some (n \<le> length xs)"
proof -
  have new: "ring_inv (empty_ring n :: 'a ring)" "ring_content (empty_ring n :: 'a ring) = []"
    "ring_cap (empty_ring n :: 'a ring) = n"
    using assms by (simp_all add: empty_ring_def ring_cap_def)
  with dlq_lane.push_n_newest [OF new(1), of xs] obtain q where
    q: "push_n (\<lambda>x q. map_option snd (dlqRing_push x q)) xs (empty_ring n) = Some q" "ring_inv q"
      "ring_cap q = n" "ring_content q = drop (length xs - n) xs" by auto
  then have len: "rcount q = min (length xs) n"
    by (metis diff_diff_cancel length_drop length_ring_content min_def nat_le_linear diff_is_0_eq diff_zero)
  from dlq_lane.push_evict [OF q(2), of x] q(3) len
  have "map_option fst (dlqRing_push x q) = Some (n \<le> length xs)" by (auto simp: min_def)
  with q len show ?thesis by (auto simp: dlqRing_len_def)
qed

end
