(* ===== verification/Go_Heap.thy ===== *)
theory Go_Heap
  imports Vantage_Prelude
begin

text \<open>
  The operations of Go's \<open>container/heap\<close> that the retry lane uses (\<open>heap.Push\<close>, \<open>heap.Pop\<close>
  and the sift loops \<open>up\<close> and \<open>down\<close> they run), on a slice ordered by a \<open>Less\<close> function. The
  contract the broker relies on is the locale \<open>priority_lane\<close>: pushing adds one item, popping
  removes an item of least key, and the heap order is kept.
\<close>

section \<open>The heap operations\<close>

definition list_swap :: "'a list \<Rightarrow> nat \<Rightarrow> nat \<Rightarrow> 'a list" where
  "list_swap h i j = h[i := h ! j, j := h ! i]"

abbreviation parent :: "nat \<Rightarrow> nat" where
  "parent j \<equiv> (j - Suc 0) div 2"

function heap_up :: "('a \<Rightarrow> 'a \<Rightarrow> bool) \<Rightarrow> 'a list \<Rightarrow> nat \<Rightarrow> 'a list" where
  "heap_up Less h j =
     (let i = parent j in
      if i = j \<or> \<not> Less (h ! j) (h ! i) then h
      else heap_up Less (list_swap h i j) i)"
  by pat_completeness auto
termination
  by (relation "measure (\<lambda>(Less, h, j). j)") (auto intro: le_neq_implies_less)

function heap_down :: "('a \<Rightarrow> 'a \<Rightarrow> bool) \<Rightarrow> 'a list \<Rightarrow> nat \<Rightarrow> nat \<Rightarrow> 'a list" where
  "heap_down Less h i n =
     (let j1 = 2 * i + 1 in
      if j1 \<ge> n then h
      else
        let j2 = j1 + 1; j = (if j2 < n \<and> Less (h ! j2) (h ! j1) then j2 else j1) in
        if \<not> Less (h ! j) (h ! i) then h
        else heap_down Less (list_swap h i j) j n)"
  by pat_completeness auto
termination
  by (relation "measure (\<lambda>(Less, h, i, n). n - i)") auto

definition heap_Push :: "('a \<Rightarrow> 'a \<Rightarrow> bool) \<Rightarrow> 'a \<Rightarrow> 'a list \<Rightarrow> 'a list" where
  "heap_Push Less x h = heap_up Less (h @ [x]) (length h)"

text \<open>\<open>heap.Pop\<close> swaps indices \<open>0\<close> and \<open>Len() - 1\<close>: on an empty heap that is a panic.\<close>

definition heap_Pop :: "('a \<Rightarrow> 'a \<Rightarrow> bool) \<Rightarrow> 'a list \<Rightarrow> ('a \<times> 'a list) option" where
  "heap_Pop Less h =
     (if h = [] then None
      else
        let n = length h - 1; h' = heap_down Less (list_swap h 0 n) 0 n in
        Some (last h', butlast h'))"

declare heap_up.simps [simp del] heap_down.simps [simp del]

section \<open>The contract\<close>

locale priority_lane =
  fixes invar :: "'q \<Rightarrow> bool"
    and items :: "'q \<Rightarrow> 'a multiset"
    and key :: "'a \<Rightarrow> 'k::linorder"
    and push :: "'a \<Rightarrow> 'q \<Rightarrow> 'q"
    and pop :: "'q \<Rightarrow> ('a \<times> 'q) option"
  assumes push_invar: "invar q \<Longrightarrow> invar (push x q)"
    and push_items: "invar q \<Longrightarrow> items (push x q) = add_mset x (items q)"
    and pop_None: "invar q \<Longrightarrow> pop q = None \<longleftrightarrow> items q = {#}"
    and pop_invar: "invar q \<Longrightarrow> pop q = Some (x, q') \<Longrightarrow> invar q'"
    and pop_items: "invar q \<Longrightarrow> pop q = Some (x, q') \<Longrightarrow> items q = add_mset x (items q')"
    and pop_least: "invar q \<Longrightarrow> pop q = Some (x, q') \<Longrightarrow> y \<in># items q \<Longrightarrow> key x \<le> key y"
begin

fun drain :: "nat \<Rightarrow> 'q \<Rightarrow> 'a list" where
  "drain 0 q = []"
| "drain (Suc n) q = (case pop q of None \<Rightarrow> [] | Some (x, q') \<Rightarrow> x # drain n q')"

lemma drain_items: "invar q \<Longrightarrow> n = size (items q) \<Longrightarrow> mset (drain n q) = items q"
proof (induction n q rule: drain.induct)
  case (2 n q)
  then obtain x q' where p: "pop q = Some (x, q')"
    using pop_None [of q] by (cases "pop q") auto
  with 2 pop_invar [OF _ p] pop_items [OF _ p] show ?case by simp
qed simp

lemma drain_sorted:
  "invar q \<Longrightarrow> n = size (items q) \<Longrightarrow> sorted_wrt (\<lambda>a b. key a \<le> key b) (drain n q)"
proof (induction n q rule: drain.induct)
  case (2 n q)
  then obtain x q' where p: "pop q = Some (x, q')"
    using pop_None [of q] by (cases "pop q") auto
  have i: "items q = add_mset x (items q')" and inv: "invar q'"
    using "2.prems" pop_items [OF _ p] pop_invar [OF _ p] by auto
  then have n: "n = size (items q')" using "2.prems"(2) by simp
  have "key x \<le> key y" if "y \<in> set (drain n q')" for y
  proof (rule pop_least [OF "2.prems"(1) p])
    have "y \<in># items q'" using drain_items [OF inv n] that by (metis set_mset_mset)
    then show "y \<in># items q" using i by simp
  qed
  with "2.IH" [OF p _ inv n] p show ?case by simp
qed simp

end

section \<open>Correctness of the sift loops\<close>

lemma length_list_swap [simp]: "length (list_swap h i j) = length h"
  by (simp add: list_swap_def)

lemma mset_swap_eq [simp]:
  "i < length h \<Longrightarrow> j < length h \<Longrightarrow> mset (list_swap h i j) = mset h"
  unfolding list_swap_def by (rule mset_list_swap)

lemma nth_list_swap:
  "i < length h \<Longrightarrow> j < length h \<Longrightarrow> k < length h \<Longrightarrow>
   list_swap h i j ! k = (if k = j then h ! i else if k = i then h ! j else h ! k)"
  by (auto simp: list_swap_def nth_list_update)

lemma parent_less: "0 < k \<Longrightarrow> parent k < k"
  by auto

lemma parent_eq_iff: "0 < k \<Longrightarrow> parent k = i \<longleftrightarrow> k = 2 * i + 1 \<or> k = 2 * i + 2"
  by auto

definition heap_inv :: "('a \<Rightarrow> 'k::linorder) \<Rightarrow> 'a list \<Rightarrow> bool" where
  "heap_inv key h \<longleftrightarrow> (\<forall>k < length h. 0 < k \<longrightarrow> key (h ! parent k) \<le> key (h ! k))"

definition up_inv :: "('a \<Rightarrow> 'k::linorder) \<Rightarrow> 'a list \<Rightarrow> nat \<Rightarrow> bool" where
  "up_inv key h j \<longleftrightarrow>
     (\<forall>k < length h. 0 < k \<and> k \<noteq> j \<longrightarrow> key (h ! parent k) \<le> key (h ! k)) \<and>
     (0 < j \<longrightarrow> (\<forall>k < length h. 0 < k \<and> parent k = j \<longrightarrow> key (h ! parent j) \<le> key (h ! k)))"

definition down_inv :: "('a \<Rightarrow> 'k::linorder) \<Rightarrow> 'a list \<Rightarrow> nat \<Rightarrow> nat \<Rightarrow> bool" where
  "down_inv key h i n \<longleftrightarrow>
     (\<forall>k < n. 0 < k \<and> parent k \<noteq> i \<longrightarrow> key (h ! parent k) \<le> key (h ! k)) \<and>
     (0 < i \<longrightarrow> (\<forall>k < n. 0 < k \<and> parent k = i \<longrightarrow> key (h ! parent i) \<le> key (h ! k)))"

lemma mset_heap_up: "j < length h \<Longrightarrow> mset (heap_up Less h j) = mset h"
proof (induction Less h j rule: heap_up.induct)
  case (1 Less h j)
  show ?case
  proof (cases "parent j = j \<or> \<not> Less (h ! j) (h ! parent j)")
    case True
    then show ?thesis by (subst heap_up.simps) (simp add: Let_def)
  next
    case False
    with 1 show ?thesis by (subst heap_up.simps) (simp add: Let_def)
  qed
qed

lemma length_heap_up: "j < length h \<Longrightarrow> length (heap_up Less h j) = length h"
  by (metis mset_heap_up size_mset)

lemma up_inv_step:
  assumes inv: "up_inv key h j" and j: "j < length h" "0 < j"
    and lt: "key (h ! j) < key (h ! parent j)"
  shows "up_inv key (list_swap h (parent j) j) (parent j)"
proof -
  let ?i = "parent j" and ?h = "list_swap h (parent j) j"
  have i: "?i < length h" "?i \<noteq> j" using j by auto
  have ord: "key (h ! parent k) \<le> key (h ! k)" if "k < length h" "0 < k" "k \<noteq> j" for k
    using inv that by (auto simp: up_inv_def)
  have kids: "key (h ! ?i) \<le> key (h ! k)" if "k < length h" "0 < k" "parent k = j" for k
    using inv that j by (auto simp: up_inv_def)
  have nth: "?h ! k = (if k = j then h ! ?i else if k = ?i then h ! j else h ! k)"
    if "k < length h" for k using nth_list_swap i(1) j(1) that by metis
  have "key (?h ! parent k) \<le> key (?h ! k)" if k: "k < length h" "0 < k" "k \<noteq> ?i" for k
  proof (cases "k = j")
    case True
    then show ?thesis using lt i j by (simp add: nth)
  next
    case False
    note o = ord [OF k(1,2) False]
    have p: "parent k < length h" using k by auto
    consider "parent k = j" | "parent k = ?i" | "parent k \<noteq> j" "parent k \<noteq> ?i" by blast
    then show ?thesis
    proof cases
      case 1
      with kids [OF k(1,2)] show ?thesis using k j False by (simp add: nth)
    next
      case 2
      with o lt have "key (h ! j) \<le> key (h ! k)" by (metis less_imp_le order_trans)
      with 2 i k False show ?thesis by (simp add: nth)
    next
      case 3
      with o k p False show ?thesis by (simp add: nth)
    qed
  qed
  moreover have "key (?h ! parent ?i) \<le> key (?h ! k)"
    if pos: "0 < ?i" and k: "k < length h" "0 < k" "parent k = ?i" for k
  proof -
    have q: "parent ?i < length h" "parent ?i \<noteq> ?i" "parent ?i \<noteq> j"
      using parent_less [OF pos] i parent_less [OF j(2)] by linarith+
    have top: "key (h ! parent ?i) \<le> key (h ! ?i)" using ord [of ?i] pos i by simp
    have ki: "k \<noteq> ?i" using k pos by auto
    show ?thesis
    proof (cases "k = j")
      case True
      then show ?thesis using top q i j by (simp add: nth)
    next
      case False
      then have "key (h ! ?i) \<le> key (h ! k)" using ord [OF k(1,2)] k(3) by simp
      with top False ki k q show ?thesis by (simp add: nth)
    qed
  qed
  ultimately show ?thesis by (simp add: up_inv_def)
qed

lemma heap_up_inv:
  assumes "\<And>a b. Less a b \<longleftrightarrow> key a < key b"
  shows "up_inv key h j \<Longrightarrow> j < length h \<Longrightarrow> heap_inv key (heap_up Less h j)"
  using assms
proof (induction Less h j rule: heap_up.induct)
  case (1 Less h j)
  let ?i = "parent j"
  show ?case
  proof (cases "?i = j \<or> \<not> Less (h ! j) (h ! ?i)")
    case True
    have "heap_inv key h"
      unfolding heap_inv_def
    proof (intro allI impI)
      fix k assume k: "k < length h" "0 < k"
      show "key (h ! parent k) \<le> key (h ! k)"
      proof (cases "k = j")
        case k_j: True
        with k True have "\<not> Less (h ! j) (h ! ?i)" by auto
        with k_j "1.prems"(3) show ?thesis by (simp add: not_less)
      next
        case False
        with k "1.prems"(1) show ?thesis by (simp add: up_inv_def)
      qed
    qed
    with True show ?thesis by (subst heap_up.simps) (simp add: Let_def)
  next
    case False
    then have j: "0 < j" by auto
    from False "1.prems"(3) have lt: "key (h ! j) < key (h ! ?i)" by simp
    have "up_inv key (list_swap h ?i j) ?i"
      by (rule up_inv_step [OF "1.prems"(1,2) j lt])
    moreover have "?i < length (list_swap h ?i j)" using "1.prems"(2) by auto
    ultimately have "heap_inv key (heap_up Less (list_swap h ?i j) ?i)"
      using "1.IH" [OF refl False] "1.prems"(3) by blast
    with False show ?thesis by (subst heap_up.simps) (simp add: Let_def)
  qed
qed

lemma heap_down_unfold:
  assumes "j = (if 2 * i + 1 + 1 < n \<and> Less (h ! (2 * i + 1 + 1)) (h ! (2 * i + 1))
    then 2 * i + 1 + 1 else 2 * i + 1)"
  shows "heap_down Less h i n =
     (if 2 * i + 1 \<ge> n \<or> \<not> Less (h ! j) (h ! i) then h
      else heap_down Less (list_swap h i j) j n)"
  unfolding heap_down.simps [of Less h i n] Let_def assms [symmetric] by simp

lemma heap_down_frame:
  assumes "n \<le> length h"
  shows "mset (heap_down Less h i n) = mset h \<and>
         (\<forall>k. n \<le> k \<longrightarrow> k < length h \<longrightarrow> heap_down Less h i n ! k = h ! k)"
  using assms
proof (induction Less h i n rule: heap_down.induct)
  case (1 Less h i n)
  define j where "j = (if 2 * i + 1 + 1 < n \<and> Less (h ! (2 * i + 1 + 1)) (h ! (2 * i + 1))
    then 2 * i + 1 + 1 else 2 * i + 1)"
  show ?case
  proof (cases "2 * i + 1 \<ge> n \<or> \<not> Less (h ! j) (h ! i)")
    case True
    then have "heap_down Less h i n = h"
      by (simp add: heap_down_unfold [where Less = Less and h = h and i = i and n = n, OF j_def])
    then show ?thesis by simp
  next
    case False
    then have b: "i < n" "j < n" by (auto simp: j_def)
    have eq: "heap_down Less h i n = heap_down Less (list_swap h i j) j n"
      using False by (simp add: heap_down_unfold [where Less = Less and h = h and i = i and n = n, OF j_def])
    have "mset (heap_down Less (list_swap h i j) j n) = mset (list_swap h i j) \<and>
        (\<forall>k. n \<le> k \<longrightarrow> k < length (list_swap h i j) \<longrightarrow>
          heap_down Less (list_swap h i j) j n ! k = list_swap h i j ! k)"
      by (intro "1.IH" [OF refl _ refl j_def]) (use False "1.prems" in auto)
    with eq b "1.prems" show ?thesis by (simp add: nth_list_swap)
  qed
qed

lemma length_heap_down: "n \<le> length h \<Longrightarrow> length (heap_down Less h i n) = length h"
  by (metis heap_down_frame size_mset)

lemma down_inv_step:
  assumes inv: "down_inv key h i n" and n: "n \<le> length h"
    and j: "j = 2 * i + 1 \<or> j = 2 * i + 2" "j < n"
    and least: "\<And>k. k < n \<Longrightarrow> 0 < k \<Longrightarrow> parent k = i \<Longrightarrow> key (h ! j) \<le> key (h ! k)"
    and lt: "key (h ! j) < key (h ! i)"
  shows "down_inv key (list_swap h i j) j n"
proof -
  let ?h = "list_swap h i j"
  have pj: "parent j = i" "0 < j" "i \<noteq> j" "i < n" using j by auto
  have nth: "?h ! k = (if k = j then h ! i else if k = i then h ! j else h ! k)"
    if "k < n" for k using nth_list_swap [of i h j k] pj j n that by simp
  have ord: "key (h ! parent k) \<le> key (h ! k)" if "k < n" "0 < k" "parent k \<noteq> i" for k
    using inv that by (auto simp: down_inv_def)
  have up: "key (h ! parent i) \<le> key (h ! k)" if "0 < i" "k < n" "0 < k" "parent k = i" for k
    using inv that by (auto simp: down_inv_def)
  have "key (?h ! parent k) \<le> key (?h ! k)" if k: "k < n" "0 < k" "parent k \<noteq> j" for k
  proof (cases "parent k = i")
    case True
    show ?thesis
    proof (cases "k = j")
      case True
      then show ?thesis using lt pj j by (simp add: nth)
    next
      case False
      then show ?thesis using least [OF k(1,2) True] True pj k by (auto simp: nth)
    qed
  next
    case False
    have p: "parent k < n" using k by auto
    have kj: "k \<noteq> j" using False pj by auto
    show ?thesis
    proof (cases "k = i")
      case True
      then have "0 < i" using k by simp
      from up [OF this j(2) pj(2,1)] True k p pj j False show ?thesis by (auto simp: nth)
    next
      case k_i: False
      then show ?thesis using ord [OF k(1,2) False] k p kj False by (simp add: nth)
    qed
  qed
  moreover have "key (?h ! parent j) \<le> key (?h ! k)" if k: "k < n" "0 < k" "parent k = j" for k
  proof -
    have "k \<noteq> i" "k \<noteq> j" using k pj by auto
    moreover have "key (h ! j) \<le> key (h ! k)" using ord [OF k(1,2)] k(3) pj by simp
    ultimately show ?thesis using pj k by (simp add: nth)
  qed
  ultimately show ?thesis by (simp add: down_inv_def)
qed

lemma heap_down_inv:
  assumes "\<And>a b. Less a b \<longleftrightarrow> key a < key b"
  shows "down_inv key h i n \<Longrightarrow> n \<le> length h \<Longrightarrow>
    \<forall>k < n. 0 < k \<longrightarrow> key (heap_down Less h i n ! parent k) \<le> key (heap_down Less h i n ! k)"
  using assms
proof (induction Less h i n rule: heap_down.induct)
  case (1 Less h i n)
  define j where "j = (if 2 * i + 1 + 1 < n \<and> Less (h ! (2 * i + 1 + 1)) (h ! (2 * i + 1))
    then 2 * i + 1 + 1 else 2 * i + 1)"
  have least: "key (h ! j) \<le> key (h ! k)" if "k < n" "0 < k" "parent k = i" for k
    using that "1.prems"(3) parent_eq_iff [of k i]
    by (auto simp: j_def not_less intro: less_imp_le)
  show ?case
  proof (cases "2 * i + 1 \<ge> n \<or> \<not> Less (h ! j) (h ! i)")
    case True
    then have eq: "heap_down Less h i n = h"
      by (simp add: heap_down_unfold [where Less = Less and h = h and i = i and n = n, OF j_def])
    have "key (h ! i) \<le> key (h ! k)" if k: "k < n" "0 < k" "parent k = i" for k
    proof -
      have "2 * i + 1 < n" using k parent_eq_iff [of k i] by auto
      with True "1.prems"(3) have "key (h ! i) \<le> key (h ! j)" by (simp add: not_less)
      with least [OF k] show ?thesis by simp
    qed
    then have "key (h ! parent k) \<le> key (h ! k)" if "k < n" "0 < k" for k
      using "1.prems"(1) that by (cases "parent k = i") (auto simp: down_inv_def)
    with eq show ?thesis by simp
  next
    case False
    then have b: "j < n" "j = 2 * i + 1 \<or> j = 2 * i + 2" by (auto simp: j_def)
    from False "1.prems"(3) have lt: "key (h ! j) < key (h ! i)" by simp
    have "down_inv key (list_swap h i j) j n"
      using down_inv_step [OF "1.prems"(1,2) b(2,1) _ lt] least by blast
    then have "\<forall>k < n. 0 < k \<longrightarrow> key (heap_down Less (list_swap h i j) j n ! parent k)
        \<le> key (heap_down Less (list_swap h i j) j n ! k)"
      by (intro "1.IH" [OF refl _ refl j_def]) (use False "1.prems"(2,3) in auto)
    moreover have "heap_down Less h i n = heap_down Less (list_swap h i j) j n"
      using False by (simp add: heap_down_unfold [where Less = Less and h = h and i = i and n = n, OF j_def])
    ultimately show ?thesis by simp
  qed
qed

section \<open>The heap operations satisfy the contract\<close>

lemma heap_inv_root:
  assumes "heap_inv key h" "k < length h"
  shows "key (h ! 0) \<le> key (h ! k)"
  using assms(2)
proof (induction k rule: less_induct)
  case (less k)
  show ?case
  proof (cases "k = 0")
    case False
    then have "parent k < k" by auto
    with less have "key (h ! 0) \<le> key (h ! parent k)" by simp
    also have "\<dots> \<le> key (h ! k)" using assms(1) less.prems False by (simp add: heap_inv_def)
    finally show ?thesis .
  qed simp
qed

lemma up_inv_append:
  assumes "heap_inv key h"
  shows "up_inv key (h @ [x]) (length h)"
proof -
  have "key ((h @ [x]) ! parent k) \<le> key ((h @ [x]) ! k)" if "k < length h" "0 < k" for k
  proof -
    have "parent k < length h" using that by auto
    with assms that show ?thesis by (simp add: heap_inv_def nth_append)
  qed
  moreover have "parent k \<noteq> length h" if "0 < k" "k < Suc (length h)" for k
    using parent_less [OF that(1)] that(2) by linarith
  ultimately show ?thesis by (auto simp: up_inv_def)
qed

lemma heap_Pop_props:
  assumes Less: "\<And>a b. Less a b \<longleftrightarrow> key a < key b" and inv: "heap_inv key h" and ne: "h \<noteq> []"
  shows "\<exists>h'. heap_Pop Less h = Some (h ! 0, h') \<and> heap_inv key h' \<and> mset h = add_mset (h ! 0) (mset h')"
proof -
  define n where "n = length h - 1"
  define g where "g = list_swap h 0 n"
  define d where "d = heap_down Less g 0 n"
  have len: "length h = Suc n" "length g = Suc n" using ne by (simp_all add: n_def g_def)
  have "down_inv key g 0 n"
    using inv len by (auto simp: down_inv_def g_def nth_list_swap heap_inv_def)
  from heap_down_inv [OF Less this] len
  have ord: "\<forall>k < n. 0 < k \<longrightarrow> key (d ! parent k) \<le> key (d ! k)" by (simp add: d_def)
  have fr: "mset d = mset g" "d ! n = g ! n"
    using heap_down_frame [of n g Less 0] len by (auto simp: d_def)
  have dl: "length d = Suc n" using len by (simp add: d_def length_heap_down)
  have last: "last d = h ! 0"
    using dl fr len by (metis g_def last_conv_nth diff_Suc_1 length_0_conv nat.distinct(1)
      nth_list_swap lessI zero_less_Suc)
  have "heap_inv key (butlast d)"
    using ord dl by (auto simp: heap_inv_def nth_butlast)
  moreover have "mset h = add_mset (h ! 0) (mset (butlast d))"
  proof -
    have "mset h = mset d" using fr len by (simp add: g_def)
    also have "\<dots> = mset (butlast d @ [last d])" using dl by (metis append_butlast_last_id length_0_conv nat.distinct(1))
    finally show ?thesis using last by simp
  qed
  moreover have "heap_Pop Less h = Some (h ! 0, butlast d)"
    using ne last by (simp add: heap_Pop_def Let_def d_def g_def n_def)
  ultimately show ?thesis by blast
qed

text \<open>Any \<open>Less\<close> that compares a key in a linear order gives a priority lane.\<close>

lemma heap_priority_lane:
  fixes key :: "'a \<Rightarrow> 'k::linorder"
  assumes Less: "\<And>a b. Less a b \<longleftrightarrow> key a < key b"
  shows "priority_lane (heap_inv key) mset key (heap_Push Less) (heap_Pop Less)"
proof unfold_locales
  fix q :: "'a list" and x y :: 'a and q' :: "'a list"
  assume inv: "heap_inv key q"
  show "heap_inv key (heap_Push Less x q)"
    unfolding heap_Push_def using heap_up_inv [OF Less up_inv_append [OF inv]] by simp
  show "mset (heap_Push Less x q) = add_mset x (mset q)"
    by (simp add: heap_Push_def mset_heap_up)
  show "heap_Pop Less q = None \<longleftrightarrow> mset q = {#}"
    by (simp add: heap_Pop_def Let_def)
  assume pop: "heap_Pop Less q = Some (x, q')"
  then have ne: "q \<noteq> []" by (auto simp: heap_Pop_def)
  note props = heap_Pop_props [OF Less inv ne]
  show "heap_inv key q'" and "mset q = add_mset x (mset q')" using props pop by auto
  show "key x \<le> key y" if "y \<in># mset q"
  proof -
    from that obtain i where "i < length q" "y = q ! i" by (auto simp: in_set_conv_nth)
    with heap_inv_root [OF inv] have "key (q ! 0) \<le> key y" by simp
    with props pop show ?thesis by auto
  qed
qed

end
