(* ===== verification/Go_Strconv.thy ===== *)
theory Go_Strconv
  imports Vantage_Prelude
begin

text \<open>
  The part of Go's \<open>strconv\<close> the program uses: \<open>Atoi\<close> and \<open>ParseInt\<close> in base 10 for 64-bit platforms,
  and the printing of integers, with the round trip between them.
\<close>

section \<open>Numbers in strings\<close>

definition digit_val :: "char \<Rightarrow> nat option" where
  "digit_val c = (let n = of_char c in if 48 \<le> n \<and> n \<le> 57 then Some (n - 48) else None)"

fun digits_val :: "nat \<Rightarrow> string \<Rightarrow> nat option" where
  "digits_val acc [] = Some acc"
| "digits_val acc (c # cs) = do { d \<leftarrow> digit_val c; digits_val (10 * acc + d) cs }"

definition unsigned_val :: "string \<Rightarrow> nat option" where
  "unsigned_val s = (if s = [] then None else digits_val 0 s)"

text \<open>\<open>ParseInt(s, 10, bits)\<close>: a sign, at least one digit, nothing else, and in range.\<close>

definition ParseInt :: "nat \<Rightarrow> string \<Rightarrow> int option" where
  "ParseInt bits s = do {
     v \<leftarrow> (case s of
        [] \<Rightarrow> None
      | c # cs \<Rightarrow>
          if c = CHR ''-'' then map_option (\<lambda>n. - int n) (unsigned_val cs)
          else if c = CHR ''+'' then map_option int (unsigned_val cs)
          else map_option int (unsigned_val s));
     if - (2 ^ (bits - 1)) \<le> v \<and> v < 2 ^ (bits - 1) then Some v else None
   }"

definition Atoi :: "string \<Rightarrow> int option" where
  "Atoi = ParseInt 64"

definition Itoa :: "int \<Rightarrow> string" where
  "Itoa n = (if n < 0 then CHR ''-'' # dec_digits (nat (- n)) else dec_digits (nat n))"

section \<open>Reading back printed numbers\<close>

lemma digit_val_char: "n < 10 \<Longrightarrow> digit_val (char_of (48 + n)) = Some n"
  by (simp add: digit_val_def Let_def)

lemma digits_val_append: "digits_val a (xs @ ys) = Option.bind (digits_val a xs) (\<lambda>b. digits_val b ys)"
  by (induction a xs rule: digits_val.induct) (auto split: Option.bind_splits)

lemma digits_val_dec_digits: "digits_val 0 (dec_digits n) = Some n"
proof (induction n rule: dec_digits.induct)
  case (1 n)
  show ?case
  proof (cases "n < 10")
    case True
    then show ?thesis by (simp add: dec_digits.simps [of n] digit_val_char)
  next
    case False
    with 1 have "digits_val 0 (dec_digits (n div 10)) = Some (n div 10)" by simp
    with False show ?thesis
      by (simp add: dec_digits.simps [of n] digits_val_append digit_val_char)
  qed
qed

lemma dec_digits_head:
  obtains c cs where "dec_digits n = c # cs" "c \<noteq> CHR ''-''" "c \<noteq> CHR ''+''"
proof -
  have "\<exists>c cs. dec_digits n = c # cs \<and> digit_val c \<noteq> None"
  proof (induction n rule: dec_digits.induct)
    case (1 n)
    show ?case
    proof (cases "n < 10")
      case True
      then show ?thesis by (simp add: dec_digits.simps [of n] digit_val_char)
    next
      case False
      with 1 show ?thesis by (auto simp: dec_digits.simps [of n])
    qed
  qed
  then obtain c cs where c: "dec_digits n = c # cs" "digit_val c \<noteq> None" by blast
  moreover have "digit_val CHR ''-'' = None" "digit_val CHR ''+'' = None" by code_simp+
  ultimately have "c \<noteq> CHR ''-''" "c \<noteq> CHR ''+''" by auto
  with that c(1) show thesis by blast
qed

lemma unsigned_val_dec_digits: "unsigned_val (dec_digits n) = Some n"
  using digits_val_dec_digits [of n] by (cases rule: dec_digits_head [of n]) (simp add: unsigned_val_def)

text \<open>Numbers survive printing and parsing: for every \<open>int64\<close> value, \<open>Atoi\<close> of its decimal text is
  the value itself; outside the range, and on an empty string, it reports an error.\<close>

lemma atoi_itoa:
  "Atoi (Itoa n) = (if - (2 ^ 63) \<le> n \<and> n < 2 ^ 63 then Some n else None) \<and> Atoi '''' = None"
proof -
  have "Atoi (Itoa n) = (if - (2 ^ 63) \<le> n \<and> n < 2 ^ 63 then Some n else None)"
  proof (cases "n < 0")
    case True
    then show ?thesis by (simp add: Atoi_def ParseInt_def Itoa_def unsigned_val_dec_digits)
  next
    case False
    obtain c cs where c: "dec_digits (nat n) = c # cs" "c \<noteq> CHR ''-''" "c \<noteq> CHR ''+''"
      by (rule dec_digits_head)
    with False unsigned_val_dec_digits [of "nat n"] show ?thesis
      by (simp add: Atoi_def ParseInt_def Itoa_def)
  qed
  then show ?thesis by (simp add: Atoi_def ParseInt_def)
qed

end
