(* ===== verification/Go_Time.thy ===== *)
theory Go_Time
  imports Go_Strconv
begin

text \<open>
  The part of Go's package \<open>time\<close> the program uses on texts: \<open>time.Parse\<close> with the layouts
  \<open>RFC3339\<close> and \<open>RFC3339Nano\<close>, and \<open>t.UTC().Format(time.RFC3339Nano)\<close>, over the proleptic Gregorian
  calendar. An instant is the number of nanoseconds since 1970-01-01T00:00:00Z. The round trip says that
  what the streamer prints is what the collector and the gateway read back.
\<close>

section \<open>The calendar\<close>

definition isLeap :: "int \<Rightarrow> bool" where
  "isLeap y \<longleftrightarrow> y mod 4 = 0 \<and> (y mod 100 \<noteq> 0 \<or> y mod 400 = 0)"

definition month_lengths :: "int \<Rightarrow> int list" where
  "month_lengths y = [31, if isLeap y then 29 else 28, 31, 30, 31, 30, 31, 31, 30, 31, 30, 31]"

definition daysIn :: "nat \<Rightarrow> int \<Rightarrow> int" where
  "daysIn m y = month_lengths y ! (m - 1)"

text \<open>Days from 0000-01-01 to the first day of a year, and from there to the first of a month.\<close>

definition days_before_year :: "int \<Rightarrow> int" where
  "days_before_year y = 365 * y + (y + 3) div 4 - (y + 99) div 100 + (y + 399) div 400"

definition days_before_month :: "nat \<Rightarrow> int \<Rightarrow> int" where
  "days_before_month m y = sum_list (take (m - 1) (month_lengths y))"

text \<open>\<open>time.Date\<close> in UTC for fields in range. 1970-01-01 is day 719528.\<close>

definition time_Date :: "int \<Rightarrow> nat \<Rightarrow> nat \<Rightarrow> nat \<Rightarrow> nat \<Rightarrow> nat \<Rightarrow> nat \<Rightarrow> gotime" where
  "time_Date year month day hour mins sec nsec =
     (let days = days_before_year year + days_before_month month year + int day - 1 - 719528 in
      (days * 86400 + int hour * 3600 + int mins * 60 + int sec) * Second + int nsec)"

text \<open>The zero \<open>time.Time\<close> is 0001-01-01T00:00:00Z.\<close>

definition zeroTime :: gotime where
  "zeroTime = time_Date 1 1 1 0 0 0 0"

text \<open>The year of a day number: a lower estimate, then upwards.\<close>

function year_from :: "int \<Rightarrow> int \<Rightarrow> int" where
  "year_from y n = (if days_before_year (y + 1) \<le> n then year_from (y + 1) n else y)"
  by auto

lemma ceil_div_step:
  fixes y k :: int
  assumes "0 < k"
  shows "(y + k) div k = (y + (k - 1)) div k + (if y mod k = 0 then 1 else 0)"
proof -
  define q r where "q = y div k" and "r = y mod k"
  have y: "y = q * k + r" and r: "0 \<le> r" "r < k" using assms by (simp_all add: q_def r_def)
  have "(r + (k - 1)) div k = (if r = 0 then 0 else 1)"
  proof (cases "r = 0")
    case False
    then have "(r + (k - 1)) div k = ((r - 1) + 1 * k) div k" by (simp add: algebra_simps)
    also have "\<dots> = 1" using False assms r by (subst div_mult_self1) simp_all
    finally show ?thesis using False by simp
  qed (use assms in simp)
  then have "(y + (k - 1)) div k = q + (if r = 0 then 0 else 1)"
    using assms by (simp add: y add.assoc)
  moreover have "(y + k) div k = q + 1"
  proof -
    have "y + k = r + (q + 1) * k" by (simp add: y algebra_simps)
    with assms r show ?thesis by simp
  qed
  ultimately show ?thesis by (simp add: r_def)
qed

lemma days_before_year_Suc:
  "days_before_year (y + 1) = days_before_year y + (if isLeap y then 366 else 365)"
proof -
  have step: "(y + 1 + c) div k = (y + c) div k + (if y mod k = 0 then 1 else 0)"
    if "0 < k" "c = k - 1" for c k
  proof -
    have "y + 1 + c = y + k" using that by simp
    then show ?thesis using ceil_div_step [OF that(1), of y] that(2) by simp
  qed
  have dv: "y mod 100 = 0 \<Longrightarrow> y mod 4 = 0" "y mod 400 = 0 \<Longrightarrow> y mod 100 = 0"
    using dvd_trans [of 4 100 y] dvd_trans [of 100 400 y] by (simp_all add: dvd_eq_mod_eq_0)
  have "days_before_year (y + 1) = days_before_year y + 365 + (if y mod 4 = 0 then 1 else 0)
      - (if y mod 100 = 0 then 1 else 0) + (if y mod 400 = 0 then 1 else 0)"
    unfolding days_before_year_def by (subst step, simp, simp)+ (simp only: distrib_left)
  with dv show ?thesis unfolding isLeap_def
    by (cases "y mod 4 = 0"; cases "y mod 100 = 0"; cases "y mod 400 = 0") simp_all
qed

termination year_from
proof (relation "measure (\<lambda>(y, n). nat (n - days_before_year y))", goal_cases)
  case (2 y n)
  then show ?case using days_before_year_Suc [of y] by (auto split: if_splits)
qed simp

declare year_from.simps [simp del]

definition year_of :: "int \<Rightarrow> int" where
  "year_of n = year_from (n div (if 0 \<le> n then 366 else 365)) n"

fun month_day :: "int list \<Rightarrow> nat \<Rightarrow> int \<Rightarrow> nat \<times> nat" where
  "month_day [] m r = (m, nat r + 1)"
| "month_day (d # ds) m r = (if r < d then (m, nat r + 1) else month_day ds (m + 1) (r - d))"

section \<open>Printing\<close>

text \<open>\<open>appendInt\<close> pads a non-negative number with zeros on the left. The fraction of \<open>RFC3339Nano\<close>
  is printed without trailing zeros, and not at all when it is zero.\<close>

definition appendInt :: "nat \<Rightarrow> nat \<Rightarrow> string" where
  "appendInt w n = (let ds = dec_digits n in replicate (w - length ds) (CHR ''0'') @ ds)"

definition appendNano :: "nat \<Rightarrow> string" where
  "appendNano nsec =
     (let ds = rev (dropWhile (\<lambda>c. c = CHR ''0'') (rev (appendInt 9 nsec))) in
      if ds = [] then [] else CHR ''.'' # ds)"

definition format_year :: "int \<Rightarrow> string" where
  "format_year y = (if y < 0 then CHR ''-'' # appendInt 4 (nat (- y)) else appendInt 4 (nat y))"

definition format_civil :: "gotime \<Rightarrow> string" where
  "format_civil t =
     (let secs = t div Second; nsec = nat (t mod Second);
          n = secs div 86400 + 719528; sod = nat (secs mod 86400);
          year = year_of n;
          (month, day) = month_day (month_lengths year) 1 (n - days_before_year year) in
      format_year year @ ''-'' @ appendInt 2 month @ ''-'' @ appendInt 2 day @ ''T'' @
      appendInt 2 (sod div 3600) @ '':'' @ appendInt 2 (sod div 60 mod 60) @ '':'' @ appendInt 2 (sod mod 60) @
      appendNano nsec)"

definition Format_RFC3339Nano :: "gotime \<Rightarrow> string" where
  "Format_RFC3339Nano t = format_civil t @ ''Z''"

text \<open>
  \<open>Z07:00\<close>: the offset of a zone in seconds, printed to the minute. \<open>MarshalJSON\<close> prints the civil time of
  the zone the instant is in, and fails on a year without four digits or an offset of a day or more.
\<close>

definition zone_text :: "int \<Rightarrow> string" where
  "zone_text offset =
     (if offset = 0 then ''Z''
      else
        let zone = nat (\<bar>offset\<bar> div 60) in
        (if offset \<le> - 60 then CHR ''-'' else CHR ''+'') # appendInt 2 (zone div 60) @ '':'' @ appendInt 2 (zone mod 60))"

definition year_at :: "gotime \<Rightarrow> int" where
  "year_at t = year_of (t div Second div 86400 + 719528)"

definition MarshalTime :: "(gotime \<Rightarrow> int) \<Rightarrow> gotime \<Rightarrow> string option" where
  "MarshalTime loc t =
     (let offset = loc t; civil = t + offset * Second in
      if year_at civil < 0 \<or> year_at civil > 9999 \<or> \<bar>offset\<bar> div 60 div 60 > 23 then None
      else Some (format_civil civil @ zone_text offset))"

section \<open>Parsing\<close>

text \<open>
  \<open>time.Parse\<close> walks the layout and the value together. Both layouts accept the same texts: a fraction
  is read after the seconds whether or not the layout has one. The hour is the one field that may have a
  single digit. A zone is \<open>Z\<close> or a signed offset, whose hours may be 24 and whose minutes 60.
\<close>

datatype layout = RFC3339 | RFC3339Nano

definition isDigit :: "string \<Rightarrow> nat \<Rightarrow> bool" where
  "isDigit s i \<longleftrightarrow> i < length s \<and> digit_val (s ! i) \<noteq> None"

definition check :: "bool \<Rightarrow> unit option" where
  "check b = (if b then Some () else None)"

definition getnum :: "bool \<Rightarrow> string \<Rightarrow> (nat \<times> string) option" where
  "getnum fixed s =
     (if \<not> isDigit s 0 then None
      else if \<not> isDigit s 1 then
        (if fixed then None else do { n \<leftarrow> digits_val 0 (take 1 s); Some (n, drop 1 s) })
      else do { n \<leftarrow> digits_val 0 (take 2 s); Some (n, drop 2 s) })"

definition getyear :: "string \<Rightarrow> (nat \<times> string) option" where
  "getyear s = (if length s < 4 then None else do { n \<leftarrow> digits_val 0 (take 4 s); Some (n, drop 4 s) })"

fun skip :: "char \<Rightarrow> string \<Rightarrow> string option" where
  "skip c [] = None"
| "skip c (d # s) = (if c = d then Some s else None)"

text \<open>At most nine digits of a fraction count.\<close>

definition parse_fraction :: "string \<Rightarrow> nat \<times> string" where
  "parse_fraction s =
     (if 2 \<le> length s \<and> s ! 0 \<in> {CHR ''.'', CHR '',''} \<and> isDigit s 1 then
        let ds = takeWhile (\<lambda>c. digit_val c \<noteq> None) (drop 1 s); used = take 9 ds in
        (the (digits_val 0 used) * 10 ^ (9 - length used), drop (1 + length ds) s)
      else (0, s))"

definition parse_zone :: "string \<Rightarrow> (int \<times> string) option" where
  "parse_zone s =
     (if 1 \<le> length s \<and> s ! 0 = CHR ''Z'' then Some (0, drop 1 s)
      else if length s < 6 \<or> s ! 3 \<noteq> CHR '':'' then None
      else do {
        (hr, _) \<leftarrow> getnum True (take 2 (drop 1 s));
        (mm, _) \<leftarrow> getnum True (take 2 (drop 4 s));
        check (hr \<le> 24 \<and> mm \<le> 60);
        let zoneOffset = (int hr * 60 + int mm) * 60;
        if s ! 0 = CHR ''+'' then Some (zoneOffset, drop 6 s)
        else if s ! 0 = CHR ''-'' then Some (- zoneOffset, drop 6 s)
        else None
      })"

definition time_Parse :: "layout \<Rightarrow> string \<Rightarrow> gotime option" where
  "time_Parse layout s = do {
     (year, s) \<leftarrow> getyear s;
     s \<leftarrow> skip (CHR ''-'') s;
     (month, s) \<leftarrow> getnum True s;
     check (1 \<le> month \<and> month \<le> 12);
     s \<leftarrow> skip (CHR ''-'') s;
     (day, s) \<leftarrow> getnum True s;
     s \<leftarrow> skip (CHR ''T'') s;
     (hour, s) \<leftarrow> getnum False s;
     check (hour < 24);
     s \<leftarrow> skip (CHR '':'') s;
     (mins, s) \<leftarrow> getnum True s;
     check (mins < 60);
     s \<leftarrow> skip (CHR '':'') s;
     (sec, s) \<leftarrow> getnum True s;
     check (sec < 60);
     let (nsec, s) = parse_fraction s;
     (zoneOffset, s) \<leftarrow> parse_zone s;
     check (s = []);
     check (1 \<le> day \<and> int day \<le> daysIn month (int year));
     Some (time_Date (int year) month day hour mins sec nsec - zoneOffset * Second)
   }"

section \<open>The round trip\<close>

lemma year_from_bounds:
  "days_before_year y \<le> n \<Longrightarrow>
     days_before_year (year_from y n) \<le> n \<and> n < days_before_year (year_from y n + 1)"
  by (induction y n rule: year_from.induct) (simp add: year_from.simps)

lemma div_bounds: "0 < k \<Longrightarrow> k * (x div k) \<le> x \<and> x < k * (x div k) + k" for x k :: int
  using pos_mod_bound [of k x] pos_mod_sign [of k x] mult_div_mod_eq [of k x] by linarith

lemma year_estimate: "days_before_year (n div (if 0 \<le> n then 366 else 365)) \<le> n"
proof -
  define y where "y = n div (if 0 \<le> n then 366 else 365)"
  define a b c where "a = (y + 3) div 4" and "b = (y + 99) div 100" and "c = (y + 399) div 400"
  have bounds: "4 * a \<le> y + 3" "y + 99 < 100 * b + 100" "400 * c \<le> y + 399"
    using div_bounds [of 4 "y + 3"] div_bounds [of 100 "y + 99"] div_bounds [of 400 "y + 399"]
    by (simp_all add: a_def b_def c_def)
  show ?thesis
  proof (cases "0 \<le> n")
    case True
    then have y: "0 \<le> y" "366 * y \<le> n" using div_bounds [of 366 n] by (simp_all add: y_def)
    from bounds y(1) have "a \<le> y" "c \<le> b" by linarith+
    with y True show ?thesis unfolding y_def [symmetric] days_before_year_def a_def [symmetric] b_def [symmetric] c_def [symmetric]
      by linarith
  next
    case False
    then have y: "y < 0" "365 * y \<le> n"
      using div_bounds [of 365 n] by (simp_all add: y_def pos_imp_zdiv_neg_iff)
    from bounds y(1) have "a - b \<le> 0" "c \<le> 0" by linarith+
    with y False show ?thesis unfolding y_def [symmetric] days_before_year_def a_def [symmetric] b_def [symmetric] c_def [symmetric]
      by linarith
  qed
qed

lemma year_of_bounds: "days_before_year (year_of n) \<le> n \<and> n < days_before_year (year_of n + 1)"
  unfolding year_of_def by (rule year_from_bounds [OF year_estimate])

lemma month_day_spec:
  assumes "month_day ds m r = (m', d)" "0 \<le> r" "r < sum_list ds"
  shows "\<exists>i < length ds. m' = m + i \<and> 1 \<le> d \<and> int d \<le> ds ! i \<and> sum_list (take i ds) + int d - 1 = r"
  using assms
proof (induction ds m r rule: month_day.induct)
  case (2 x ds m r)
  show ?case
  proof (cases "r < x")
    case True
    with 2 show ?thesis by (intro exI [of _ 0]) auto
  next
    case False
    with 2 obtain i where "i < length ds" "m' = m + 1 + i" "1 \<le> d" "int d \<le> ds ! i"
      "sum_list (take i ds) + int d - 1 = r - x" by auto
    then show ?thesis by (intro exI [of _ "Suc i"]) auto
  qed
qed simp

lemma sum_month_lengths: "days_before_year (y + 1) = days_before_year y + sum_list (month_lengths y)"
  by (simp add: days_before_year_Suc month_lengths_def)

lemma length_month_lengths [simp]: "length (month_lengths y) = 12"
  by (simp add: month_lengths_def)

lemma civil_of_day:
  assumes "month_day (month_lengths (year_of n)) 1 (n - days_before_year (year_of n)) = (m, d)"
  shows "1 \<le> m" "m \<le> 12" "1 \<le> d" "int d \<le> daysIn m (year_of n)" "d < 100"
    "days_before_year (year_of n) + days_before_month m (year_of n) + int d - 1 = n"
proof -
  let ?y = "year_of n"
  from year_of_bounds [of n] have "0 \<le> n - days_before_year ?y" "n - days_before_year ?y < sum_list (month_lengths ?y)"
    by (simp_all add: sum_month_lengths)
  from month_day_spec [OF assms this] obtain i where i: "i < 12" "m = 1 + i" "1 \<le> d"
    "int d \<le> month_lengths ?y ! i" "sum_list (take i (month_lengths ?y)) + int d - 1 = n - days_before_year ?y"
    by auto
  from i show "1 \<le> m" "m \<le> 12" "1 \<le> d" "int d \<le> daysIn m ?y" by (simp_all add: daysIn_def)
  from i show "days_before_year ?y + days_before_month m ?y + int d - 1 = n" by (simp add: days_before_month_def)
  have "\<forall>x \<in> set (month_lengths ?y). x \<le> 31" by (simp add: month_lengths_def)
  with i have "int d \<le> 31" by (metis length_month_lengths nth_mem order_trans)
  then show "d < 100" by simp
qed

definition digit_char :: "char \<Rightarrow> bool" where
  "digit_char c \<longleftrightarrow> digit_val c \<noteq> None"

lemma digit_char_simps [simp]: "digit_char CHR ''0''" "\<not> digit_char CHR ''Z''"
  by code_simp+

lemma dec_digits_digits: "c \<in> set (dec_digits n) \<Longrightarrow> digit_char c"
proof (induction n rule: dec_digits.induct)
  case (1 n)
  then show ?case
    by (cases "n < 10") (auto simp: dec_digits.simps [of n] digit_char_def digit_val_char)
qed

lemma dec_digits_length: "n < 10 ^ w \<Longrightarrow> 0 < w \<Longrightarrow> length (dec_digits n) \<le> w"
proof (induction n arbitrary: w rule: dec_digits.induct)
  case (1 n)
  show ?case
  proof (cases "n < 10")
    case False
    with "1.prems" obtain v where w: "w = Suc v" "0 < v" by (cases w; cases "w - 1") auto
    with "1.prems" have "n div 10 < 10 ^ v" by (simp add: less_mult_imp_div_less)
    with "1.IH" [OF False this] w False show ?thesis by (simp add: dec_digits.simps [of n])
  qed (use "1.prems" in \<open>simp add: dec_digits.simps [of n]\<close>)
qed

lemma digits_val_zeros: "digits_val a (replicate k (CHR ''0'')) = Some (a * 10 ^ k)"
proof -
  have "digit_val CHR ''0'' = Some 0" by code_simp
  then show ?thesis by (induction k arbitrary: a) simp_all
qed

lemma appendInt_length [simp]: "n < 10 ^ w \<Longrightarrow> 0 < w \<Longrightarrow> length (appendInt w n) = w"
  using dec_digits_length [of n w] by (simp add: appendInt_def Let_def)

lemma appendInt_digits: "c \<in> set (appendInt w n) \<Longrightarrow> digit_char c"
  by (auto simp: appendInt_def Let_def dec_digits_digits)

lemma digits_val_appendInt [simp]: "digits_val 0 (appendInt w n) = Some n"
  by (simp add: appendInt_def Let_def digits_val_append digits_val_zeros digits_val_dec_digits)

lemma isDigit_appendInt: "n < 100 \<Longrightarrow> i < 2 \<Longrightarrow> isDigit (appendInt 2 n @ s) i"
  using appendInt_digits [of _ 2 n] appendInt_length [of n 2]
  by (simp add: isDigit_def digit_char_def nth_append)

lemma getnum_appendInt [simp]: "n < 100 \<Longrightarrow> getnum fixed (appendInt 2 n @ s) = Some (n, s)"
  using appendInt_length [of n 2] isDigit_appendInt [of n 0 s] isDigit_appendInt [of n 1 s]
  by (simp add: getnum_def)

lemma getyear_appendInt [simp]: "n < 10000 \<Longrightarrow> getyear (appendInt 4 n @ s) = Some (n, s)"
  using appendInt_length [of n 4] by (simp add: getyear_def)

lemma dropWhile_trailing:
  "\<exists>k. xs = rev (dropWhile (\<lambda>c. c = z) (rev xs)) @ replicate k z"
proof -
  have "takeWhile (\<lambda>c. c = z) ys = replicate (length (takeWhile (\<lambda>c. c = z) ys)) z" for ys
    by (induction ys) auto
  then have "rev xs = replicate (length (takeWhile (\<lambda>c. c = z) (rev xs))) z @ dropWhile (\<lambda>c. c = z) (rev xs)"
    by (metis takeWhile_dropWhile_id)
  then have "xs = rev (dropWhile (\<lambda>c. c = z) (rev xs)) @ rev (replicate (length (takeWhile (\<lambda>c. c = z) (rev xs))) z)"
    by (metis rev_append rev_rev_ident)
  then show ?thesis by (metis rev_replicate)
qed

lemma parse_fraction_appendNano:
  assumes "n < 10 ^ 9" "zone = z # zs" "\<not> digit_char z" "z \<notin> {CHR ''.'', CHR '',''}"
  shows "parse_fraction (appendNano n @ zone) = (n, zone)"
proof -
  define ds where "ds = rev (dropWhile (\<lambda>c. c = CHR ''0'') (rev (appendInt 9 n)))"
  from dropWhile_trailing [of "appendInt 9 n" "CHR ''0''"] obtain k
    where k: "appendInt 9 n = ds @ replicate k (CHR ''0'')" by (auto simp: ds_def)
  have nano: "appendNano n = (if ds = [] then [] else CHR ''.'' # ds)"
    by (simp only: appendNano_def ds_def Let_def)
  have len: "length ds + k = 9" using arg_cong [OF k, of length] assms by simp
  have dig: "c \<in> set ds \<Longrightarrow> digit_char c" for c using appendInt_digits [of c 9 n] k by simp
  obtain v where v: "digits_val 0 ds = Some v" "v * 10 ^ k = n"
    using arg_cong [OF k, of "digits_val 0"]
    by (cases "digits_val 0 ds") (auto simp: digits_val_append digits_val_zeros)
  show ?thesis
  proof (cases "ds = []")
    case True
    then have "n = 0" using v by simp
    with True nano assms(2-4) show ?thesis by (simp add: parse_fraction_def)
  next
    case False
    then obtain c cs where ds: "ds = c # cs" by (cases ds) auto
    have tw: "takeWhile (\<lambda>c. digit_val c \<noteq> None) (ds @ zone) = ds"
      using dig assms(2, 3) unfolding digit_char_def
      by (simp add: takeWhile_append2)
    have "isDigit (CHR ''.'' # ds @ zone) 1" using dig ds by (simp add: isDigit_def digit_char_def)
    moreover have "k = 9 - length ds" "length ds \<le> 9" "Suc 0 \<le> length ds" using len ds by simp_all
    ultimately show ?thesis using False v tw by (simp add: nano parse_fraction_def min_absorb1)
  qed
qed

text \<open>An instant whose UTC year has four digits is read back exactly from its printed form, by either layout.\<close>

definition four_digit_year :: "gotime \<Rightarrow> bool" where
  "four_digit_year t \<longleftrightarrow> - 62167219200 * Second \<le> t \<and> t < 253402300800 * Second"

lemma days_before_year_mono: "y \<le> z \<Longrightarrow> days_before_year y \<le> days_before_year z"
proof (induction z rule: int_ge_induct)
  case (step z)
  then show ?case using days_before_year_Suc [of z] by (auto split: if_splits)
qed simp

lemma year_of_four_digits:
  assumes "0 \<le> n" "n < 3652425"
  shows "0 \<le> year_of n" "year_of n < 10000"
proof -
  let ?y = "year_of n"
  show "0 \<le> ?y"
  proof (rule ccontr)
    assume "\<not> 0 \<le> ?y"
    then have "?y + 1 \<le> 0" by simp
    with days_before_year_mono [of "?y + 1" 0] year_of_bounds [of n] assms show False
      by (simp add: days_before_year_def)
  qed
  show "?y < 10000"
  proof (rule ccontr)
    assume "\<not> ?y < 10000"
    with days_before_year_mono [of 10000 ?y] year_of_bounds [of n] assms show False
      by (simp add: days_before_year_def)
  qed
qed

text \<open>A zone that \<open>time.Parse\<close> reads back: its offset is in whole minutes and less than a day.\<close>

definition minute_zone :: "int \<Rightarrow> bool" where
  "minute_zone offset \<longleftrightarrow> offset mod 60 = 0 \<and> \<bar>offset\<bar> < 86400"

lemma zone_text_head:
  obtains z zs where "zone_text offset = z # zs" "z \<in> {CHR ''Z'', CHR ''+'', CHR ''-''}"
  by (cases "offset = 0"; cases "offset \<le> - 60") (auto simp: zone_text_def Let_def)

lemma digit_char_zone [simp]: "\<not> digit_char CHR ''+''" "\<not> digit_char CHR ''-''" "\<not> digit_char CHR '':''"
  by code_simp+

lemma parse_fraction_zone [simp]:
  assumes "n < 10 ^ 9"
  shows "parse_fraction (appendNano n @ zone_text offset) = (n, zone_text offset)"
proof -
  obtain z zs where z: "zone_text offset = z # zs" "z \<in> {CHR ''Z'', CHR ''+'', CHR ''-''}" by (rule zone_text_head)
  then show ?thesis by (intro parse_fraction_appendNano [OF assms z(1)]) auto
qed

lemma appendInt_two:
  assumes "n < 100"
  obtains a b where "appendInt 2 n = [a, b]"
proof -
  have "length (appendInt 2 n) = 2" using assms by simp
  then show thesis by (cases "appendInt 2 n" rule: remdups_adj.cases) (auto intro: that)
qed

lemma parse_zone_text [simp]:
  assumes "minute_zone offset"
  shows "parse_zone (zone_text offset) = Some (offset, [])"
proof (cases "offset = 0")
  case False
  define zone where "zone = nat (\<bar>offset\<bar> div 60)"
  have "\<bar>offset\<bar> mod 60 = 0" using assms by (auto simp: minute_zone_def abs_if mod_eq_0_iff_dvd)
  then have abs: "\<bar>offset\<bar> = 60 * int zone" unfolding zone_def
    using mult_div_mod_eq [of 60 "\<bar>offset\<bar>"] by (simp add: pos_imp_zdiv_nonneg_iff)
  have lt: "zone div 60 < 24" using abs assms unfolding minute_zone_def by linarith
  have parts: "int zone = int (zone div 60) * 60 + int (zone mod 60)"
    by (metis div_mult_mod_eq of_nat_add of_nat_mult of_nat_numeral)
  obtain a b where ab: "appendInt 2 (zone div 60) = [a, b]" using lt by (auto intro: appendInt_two [of "zone div 60"])
  obtain c d where cd: "appendInt 2 (zone mod 60) = [c, d]" by (rule appendInt_two [of "zone mod 60"]) (auto intro: less_trans [of _ 60])
  have nums: "getnum True [a, b] = Some (zone div 60, [])" "getnum True [c, d] = Some (zone mod 60, [])"
    using getnum_appendInt [of "zone div 60" True "[]"] getnum_appendInt [of "zone mod 60" True "[]"] lt
    by (simp_all add: ab cd)
  have mins: "zone mod 60 \<le> 60" by (rule order.strict_implies_order) simp
  show ?thesis
  proof (cases "offset \<le> - 60")
    case True
    then have "zone_text offset = CHR ''-'' # [a, b] @ '':'' @ [c, d]"
      using False unfolding zone_text_def Let_def zone_def [symmetric] ab cd by simp
    then have "parse_zone (zone_text offset) = Some (- ((int (zone div 60) * 60 + int (zone mod 60)) * 60), [])"
      using nums lt mins by (simp add: parse_zone_def check_def)
    moreover have "offset = - ((int (zone div 60) * 60 + int (zone mod 60)) * 60)"
      unfolding parts [symmetric] using True abs by simp
    ultimately show ?thesis by metis
  next
    case neg: False
    then have "zone_text offset = CHR ''+'' # [a, b] @ '':'' @ [c, d]"
      using False unfolding zone_text_def Let_def zone_def [symmetric] ab cd by simp
    then have "parse_zone (zone_text offset) = Some ((int (zone div 60) * 60 + int (zone mod 60)) * 60, [])"
      using nums lt mins by (simp add: parse_zone_def check_def)
    moreover have "offset = (int (zone div 60) * 60 + int (zone mod 60)) * 60"
      unfolding parts [symmetric] using neg False abs by (cases "zone = 0") auto
    ultimately show ?thesis by metis
  qed
qed (simp add: zone_text_def parse_zone_def)

lemma time_Parse_printed:
  assumes "Y < 10000" "1 \<le> m" "m \<le> 12" "1 \<le> d" "d < 100" "int d \<le> daysIn m (int Y)"
    "h < 24" "mi < 60" "se < 60" "ns < 10 ^ 9" "minute_zone offset"
  shows "time_Parse l (appendInt 4 Y @ ''-'' @ appendInt 2 m @ ''-'' @ appendInt 2 d @ ''T'' @
      appendInt 2 h @ '':'' @ appendInt 2 mi @ '':'' @ appendInt 2 se @ appendNano ns @ zone_text offset) =
    Some (time_Date (int Y) m d h mi se ns - offset * Second)"
  using assms by (simp add: time_Parse_def check_def)

text \<open>The printed civil time of an instant, field by field.\<close>

lemma format_civil_fields:
  assumes "four_digit_year t"
  obtains Y m d h mi se ns where "Y < 10000" "1 \<le> m" "m \<le> 12" "1 \<le> d" "d < 100" "int d \<le> daysIn m (int Y)"
    "h < 24" "mi < 60" "se < 60" "ns < 10 ^ 9"
    "format_civil t = appendInt 4 Y @ ''-'' @ appendInt 2 m @ ''-'' @ appendInt 2 d @ ''T'' @
      appendInt 2 h @ '':'' @ appendInt 2 mi @ '':'' @ appendInt 2 se @ appendNano ns"
    "time_Date (int Y) m d h mi se ns = t" "year_at t = int Y"
proof -
  define secs nsec n sod where "secs = t div Second" and "nsec = nat (t mod Second)"
    and "n = secs div 86400 + 719528" and "sod = nat (secs mod 86400)"
  obtain m d where md: "month_day (month_lengths (year_of n)) 1 (n - days_before_year (year_of n)) = (m, d)"
    by fastforce
  note civil = civil_of_day [OF md]
  have S: "0 < Second" by (simp add: Second_def)
  have t: "t = secs * Second + int nsec" "nsec < 10 ^ 9"
    using S by (simp_all add: secs_def nsec_def nat_less_iff) (simp add: Second_def)
  have secs: "secs = (n - 719528) * 86400 + int sod" "sod < 86400"
    by (simp_all add: n_def sod_def nat_less_iff)
  have "- 62167219200 \<le> secs" "secs < 253402300800"
    using assms div_bounds [OF S, of t] unfolding four_digit_year_def secs_def [symmetric]
    by (simp_all add: Second_def)
  moreover have "int sod < 86400" using secs(2) by simp
  moreover have "0 \<le> int sod" by simp
  moreover have "secs = 86400 * n - 62167219200 + int sod" using secs(1) by simp
  ultimately have n: "0 \<le> n" "n < 3652425" by linarith+
  note y = year_of_four_digits [OF n]
  define Y where "Y = nat (year_of n)"
  have Y: "year_of n = int Y" "Y < 10000" using y by (simp_all add: Y_def)
  define h mi se where "h = sod div 3600" and "mi = sod div 60 mod 60" and "se = sod mod 60"
  have hms: "h < 24" "mi < 60" "se < 60" using secs(2) by (auto simp: h_def mi_def se_def)
  have "h = sod div 60 div 60" by (simp add: h_def div_mult2_eq [symmetric])
  moreover have "sod div 60 = sod div 60 div 60 * 60 + mi" "sod = sod div 60 * 60 + se"
    unfolding mi_def se_def by (simp_all only: div_mult_mod_eq)
  ultimately have sod: "sod = h * 3600 + mi * 60 + se" by linarith
  have "format_civil t = appendInt 4 Y @ ''-'' @ appendInt 2 m @ ''-'' @ appendInt 2 d @ ''T'' @
      appendInt 2 h @ '':'' @ appendInt 2 mi @ '':'' @ appendInt 2 se @ appendNano nsec"
    unfolding format_civil_def Let_def secs_def [symmetric] nsec_def [symmetric] n_def [symmetric]
      sod_def [symmetric] h_def mi_def se_def
    using md Y by (simp add: format_year_def)
  moreover have "time_Date (int Y) m d h mi se nsec = t"
  proof -
    have "days_before_year (int Y) + days_before_month m (int Y) + int d - 1 - 719528 = n - 719528"
      using civil(6) Y(1) by simp
    then show ?thesis unfolding time_Date_def Let_def t(1) secs(1) sod by simp
  qed
  moreover have "year_at t = int Y" using Y(1) by (simp add: year_at_def n_def secs_def)
  ultimately show thesis using that [of Y m d h mi se nsec] civil Y hms t(2) by simp
qed

lemma civil_roundtrip:
  assumes "four_digit_year (t + offset * Second)" "minute_zone offset"
  shows "time_Parse l (format_civil (t + offset * Second) @ zone_text offset) = Some t"
proof (rule format_civil_fields [OF assms(1)])
  fix Y m d h mi se ns
  assume "Y < 10000" "1 \<le> m" "m \<le> 12" "1 \<le> d" "d < 100" "int d \<le> daysIn m (int Y)"
    "h < 24" "mi < 60" "se < 60" "ns < 10 ^ 9"
    "format_civil (t + offset * Second) = appendInt 4 Y @ ''-'' @ appendInt 2 m @ ''-'' @ appendInt 2 d @ ''T'' @
      appendInt 2 h @ '':'' @ appendInt 2 mi @ '':'' @ appendInt 2 se @ appendNano ns"
    "time_Date (int Y) m d h mi se ns = t + offset * Second"
  with time_Parse_printed [of Y m d h mi se ns offset l] assms(2) show ?thesis by simp
qed

lemma rfc3339nano_roundtrip:
  assumes "four_digit_year t"
  shows "time_Parse l (Format_RFC3339Nano t) = Some t"
  using civil_roundtrip [of t 0 l] assms by (simp add: Format_RFC3339Nano_def zone_text_def minute_zone_def)

end
