(* ===== verification/Telemetry_Model.thy ===== *)
theory Telemetry_Model
  imports Go_Time
begin

text \<open>
  The wire message of the pipeline (\<open>pkg/pb\<close>, \<open>TelemetryMessage\<close>) and its conversion to the
  row that is stored (\<open>pkg/models/telemetry.go\<close>). An instant is the same in every time zone, so \<open>ts.UTC()\<close> does not
  change it.
\<close>

record TelemetryMessage =
  pbTimestamp :: string
  pbMetricName :: string
  pbGpuId :: string
  pbDevice :: string
  pbUuid :: string
  pbModelName :: string
  pbHostname :: string
  pbContainer :: string
  pbPod :: string
  pbNamespace :: string
  pbValue :: float64
  pbLabelsRaw :: string
  pbId :: uint64
  pbDeliveryAttempts :: uint32

record GpuMetric =
  GpuID :: string
  Timestamp :: gotime
  MetricName :: string
  Value :: float64
  Device :: string
  ModelName :: string
  Hostname :: string
  Container :: string
  Pod :: string
  Namespace :: string
  LabelsRaw :: string

text \<open>The one error of \<open>FromProto\<close>, with the raw timestamp it reports.\<close>

datatype model_error = ParseTimestamp string

definition FromProto :: "TelemetryMessage \<Rightarrow> model_error + GpuMetric" where
  "FromProto msg =
     (let raw = pbTimestamp msg;
          parsed = (case time_Parse RFC3339Nano raw of
                      Some ts \<Rightarrow> Some ts
                    | None \<Rightarrow> time_Parse RFC3339 raw)
      in case parsed of
           None \<Rightarrow> Inl (ParseTimestamp raw)
         | Some ts \<Rightarrow> Inr \<lparr>
             GpuID = pbUuid msg,
             Timestamp = ts,
             MetricName = pbMetricName msg,
             Value = pbValue msg,
             Device = pbDevice msg,
             ModelName = pbModelName msg,
             Hostname = pbHostname msg,
             Container = pbContainer msg,
             Pod = pbPod msg,
             Namespace = pbNamespace msg,
             LabelsRaw = pbLabelsRaw msg\<rparr>)"

text \<open>
  The broker rewrites only \<open>id\<close> and \<open>delivery_attempts\<close> of a message, so a row does not
  depend on how often its message was delivered.
\<close>

lemma FromProto_broker_fields:
  "FromProto (m\<lparr>pbId := i\<rparr>) = FromProto m"
  "FromProto (m\<lparr>pbDeliveryAttempts := a\<rparr>) = FromProto m"
  by (simp_all add: FromProto_def Let_def split: option.split)

lemma FromProto_Inr:
  "FromProto m = Inr g \<Longrightarrow>
     GpuID g = pbUuid m \<and> MetricName g = pbMetricName m \<and> Value g = pbValue m \<and>
     (time_Parse RFC3339Nano (pbTimestamp m) = Some (Timestamp g) \<or>
      time_Parse RFC3339Nano (pbTimestamp m) = None \<and> time_Parse RFC3339 (pbTimestamp m) = Some (Timestamp g))"
  by (auto simp: FromProto_def Let_def split: option.splits)

end
