(* ===== verification/Broker.thy ===== *)
theory Broker
  imports Ring_Buffer Go_Heap Telemetry_Model
begin

text \<open>
  The storage engine of the message queue (\<open>internal/queue/broker.go\<close>): configuration, entries,
  the three lanes and the lease table, and every operation of the \<open>Store\<close> interface
  (\<open>internal/queue/store.go\<close>). Every operation runs under the broker's one mutex, so an operation
  is a function from the broker to its result and the new broker; \<open>None\<close> is a panic. The only
  place where an operation gives the mutex up is the block policy of \<open>Enqueue\<close>: one locked pass
  is \<open>Enqueue_pass\<close>, and \<open>Enqueue\<close> runs passes over the wake-ups of a parked producer.

  Messages and entries are values: a message belongs to one entry, and an entry is in one lane at
  a time. \<open>now()\<close> is the stream of clock readings \<open>now\<close>: \<open>ticks\<close> counts the readings taken so
  far, and every call of \<open>b.now()\<close> in the source takes the next one. Counters are unbounded.
\<close>

section \<open>Configuration\<close>

type_synonym OverflowPolicy = string

definition PolicyReject :: OverflowPolicy where "PolicyReject = ''reject''"
definition PolicyDropOldest :: OverflowPolicy where "PolicyDropOldest = ''drop-oldest''"
definition PolicyBlock :: OverflowPolicy where "PolicyBlock = ''block''"

lemmas policy_defs = PolicyReject_def PolicyDropOldest_def PolicyBlock_def

definition ParseOverflowPolicy :: "string \<Rightarrow> OverflowPolicy option" where
  "ParseOverflowPolicy s =
     (if s = PolicyReject \<or> s = PolicyDropOldest \<or> s = PolicyBlock then Some s else None)"

record BrokerConfig =
  Capacity :: int
  Policy :: OverflowPolicy
  BlockTimeout :: duration
  RetryBackoffBase :: duration
  RetryBackoffMax :: duration
  MaxDeliveries :: uint32
  DLQCapacity :: int
  LeaseTTL :: duration
  SweepInterval :: duration
  Clock :: "(nat \<Rightarrow> gotime) option"

text \<open>\<open>time.Now\<close> is the argument \<open>time_Now\<close>, its readings in order.\<close>

definition applyDefaults :: "(nat \<Rightarrow> gotime) \<Rightarrow> BrokerConfig \<Rightarrow> BrokerConfig" where
  "applyDefaults time_Now cfg = \<lparr>
     Capacity = Capacity cfg,
     Policy = (if Policy cfg = '''' then PolicyDropOldest else Policy cfg),
     BlockTimeout = (if BlockTimeout cfg \<le> 0 then Second else BlockTimeout cfg),
     RetryBackoffBase = (if RetryBackoffBase cfg \<le> 0 then 500 * Millisecond else RetryBackoffBase cfg),
     RetryBackoffMax = (if RetryBackoffMax cfg \<le> 0 then 30 * Second else RetryBackoffMax cfg),
     MaxDeliveries = (if MaxDeliveries cfg = 0 then 5 else MaxDeliveries cfg),
     DLQCapacity = (if DLQCapacity cfg \<le> 0 then 1000 else DLQCapacity cfg),
     LeaseTTL = (if LeaseTTL cfg \<le> 0 then 30 * Second else LeaseTTL cfg),
     SweepInterval = (if SweepInterval cfg \<le> 0 then 100 * Millisecond else SweepInterval cfg),
     Clock = (if Clock cfg = None then Some time_Now else Clock cfg)\<rparr>"

section \<open>Entries, leases and the broker state\<close>

record entry =
  msg :: TelemetryMessage
  attempts :: uint32

record leaseRec =
  lr_e :: entry
  consumer :: uint64
  deadline :: gotime

record retryItem =
  ri_e :: entry
  visibleAt :: gotime

record dlqItem =
  di_e :: entry
  reason :: string
  di_at :: gotime

record DLQEntry =
  dMsg :: TelemetryMessage
  dID :: uint64
  dGpuID :: string
  dMetricName :: string
  dTimestamp :: string
  dAttempts :: uint32
  dReason :: string
  dDeadLetteredAt :: gotime

text \<open>\<open>Less\<close> of the retry heap: earlier visibility first, ties by id.\<close>

definition retryLess :: "retryItem \<Rightarrow> retryItem \<Rightarrow> bool" where
  "retryLess a b =
     (if visibleAt a = visibleAt b then pbId (msg (ri_e a)) < pbId (msg (ri_e b))
      else visibleAt a < visibleAt b)"

text \<open>
  \<open>notify\<close> records whether a wake-up hook is registered; \<open>spaceCh\<close> is the generation of the
  space channel (closing and replacing it is one increment); \<open>sweepStop\<close> is the sweeper's stop
  signal.
\<close>

record Broker =
  main :: "entry ring"
  retry :: "retryItem list"
  dlq :: "dlqItem ring"
  leases :: "(uint64 \<times> leaseRec) list"
  nextID :: uint64
  cfg :: BrokerConfig
  now :: "nat \<Rightarrow> gotime"
  ticks :: nat
  rejected :: int
  droppedOverflow :: int
  droppedRequeue :: int
  deadLettered :: int
  dlqEvicted :: int
  leaseExpired :: int
  notify :: bool
  spaceCh :: nat
  sweepStop :: bool
  closed :: bool

definition NewBroker :: "(nat \<Rightarrow> gotime) \<Rightarrow> BrokerConfig \<Rightarrow> Broker option" where
  "NewBroker time_Now c =
     (if Capacity c \<le> 0 then None
      else
        do {
          let c = applyDefaults time_Now c;
          d \<leftarrow> newDeque (Capacity c);
          r \<leftarrow> newDLQRing (DLQCapacity c);
          Some \<lparr>main = d, retry = [], dlq = r,
            leases = [], nextID = 0, cfg = c, now = the (Clock c), ticks = 0,
            rejected = 0, droppedOverflow = 0, droppedRequeue = 0, deadLettered = 0, dlqEvicted = 0,
            leaseExpired = 0, notify = False, spaceCh = 0, sweepStop = False, closed = False\<rparr>
        })"

definition SetNotify :: "Broker \<Rightarrow> Broker" where
  "SetNotify b = b\<lparr>notify := True\<rparr>"

definition used :: "Broker \<Rightarrow> nat" where
  "used b = deque_len (main b) + length (retry b) + length (leases b)"

definition signalSpace :: "Broker \<Rightarrow> Broker" where
  "signalSpace b = b\<lparr>spaceCh := Suc (spaceCh b)\<rparr>"

definition readClock :: "Broker \<Rightarrow> gotime \<times> Broker" where
  "readClock b = (now b (ticks b), b\<lparr>ticks := Suc (ticks b)\<rparr>)"

text \<open>
  The doubling loop of \<open>backoff\<close>; durations are \<open>int64\<close>, so doubling wraps. \<open>n\<close> counts the
  iterations left (\<open>i\<close> runs from 1 to \<open>attempts\<close>).
\<close>

fun backoff_loop :: "duration \<Rightarrow> nat \<Rightarrow> duration \<Rightarrow> duration" where
  "backoff_loop dmax 0 d = (if d > dmax then dmax else d)"
| "backoff_loop dmax (Suc n) d =
     (let d = wrap64 (d * 2) in if d \<ge> dmax then dmax else backoff_loop dmax n d)"

definition backoff :: "BrokerConfig \<Rightarrow> uint32 \<Rightarrow> duration" where
  "backoff c a = backoff_loop (RetryBackoffMax c) (unat a - 1) (RetryBackoffBase c)"

definition dlq_reason :: "uint32 \<Rightarrow> string" where
  "dlq_reason m = ''max delivery attempts exceeded ('' @ dec_digits (unat m) @ '')''"

definition requeue :: "entry \<Rightarrow> duration \<Rightarrow> Broker \<Rightarrow> Broker option" where
  "requeue e delay b =
     (if attempts e \<ge> MaxDeliveries (cfg b) then do {
        let (t, b) = readClock b;
        (evicted, r) \<leftarrow> dlqRing_push
          \<lparr>di_e = e, reason = dlq_reason (MaxDeliveries (cfg b)), di_at = t\<rparr> (dlq b);
        let b = b\<lparr>dlq := r, dlqEvicted := (if evicted then dlqEvicted b + 1 else dlqEvicted b)\<rparr>;
        let b = b\<lparr>deadLettered := deadLettered b + 1\<rparr>;
        Some (signalSpace b)
      } else do {
        let (t, b) = readClock b;
        Some (b\<lparr>retry := heap_Push retryLess \<lparr>ri_e = e, visibleAt = t + delay\<rparr> (retry b)\<rparr>)
      })"

section \<open>Enqueue\<close>

datatype ctx_error = Canceled | DeadlineExceeded

datatype queue_error = ErrFull | ErrClosed | ErrCtx ctx_error

text \<open>
  What one locked pass of \<open>Enqueue\<close> ends with: the message was admitted (with its id), an error
  is returned, or the producer parks on the space channel generation it captured.
\<close>

datatype enq_pass = Admitted TelemetryMessage | Refused queue_error | Parked nat

definition admit :: "TelemetryMessage \<Rightarrow> Broker \<Rightarrow> (enq_pass \<times> Broker) option" where
  "admit m b = do {
     let i = nextID b + 1;
     let m = m\<lparr>pbId := i\<rparr>;
     d \<leftarrow> deque_pushBack \<lparr>msg = m, attempts = 0\<rparr> (main b);
     Some (Admitted m, b\<lparr>nextID := i, main := d\<rparr>)
   }"

function Enqueue_pass :: "TelemetryMessage \<Rightarrow> Broker \<Rightarrow> (enq_pass \<times> Broker) option" where
  "Enqueue_pass m b =
     (if closed b then Some (Refused ErrClosed, b)
      else if int (used b) < Capacity (cfg b) then admit m b
      else if Policy (cfg b) = PolicyDropOldest then
        (case deque_popFront (main b) of
           None \<Rightarrow> None
         | Some (e, ok, d) \<Rightarrow>
             if ok then Enqueue_pass m (b\<lparr>main := d, droppedOverflow := droppedOverflow b + 1\<rparr>)
             else Some (Refused ErrFull, b\<lparr>rejected := rejected b + 1\<rparr>))
      else if Policy (cfg b) = PolicyBlock then Some (Parked (spaceCh b), b)
      else Some (Refused ErrFull, b\<lparr>rejected := rejected b + 1\<rparr>))"
  by pat_completeness auto
termination
proof (relation "measure (\<lambda>(m, b). rcount (main b))")
  fix m :: TelemetryMessage and b :: Broker and p e ok d q
  assume "deque_popFront (main b) = Some p" "(e, q) = p" "(ok, d) = q" "ok"
  then have "rcount d < rcount (main b)"
    by (auto simp: deque_popFront_def index_def split: if_splits)
  then show "((m, b\<lparr>main := d, droppedOverflow := droppedOverflow b + 1\<rparr>), m, b)
      \<in> measure (\<lambda>(m, b). rcount (main b))" by simp
qed simp

declare Enqueue_pass.simps [simp del]

text \<open>
  A parked producer waits for one of three events: its space channel generation was closed, the
  block timer fired, or its context ended.
\<close>

datatype wake = SpaceFreed | TimedOut | CtxDone ctx_error

definition Enqueue_wake :: "wake \<Rightarrow> TelemetryMessage \<Rightarrow> Broker \<Rightarrow> (enq_pass \<times> Broker) option" where
  "Enqueue_wake w m b =
     (case w of
        SpaceFreed \<Rightarrow> Enqueue_pass m b
      | TimedOut \<Rightarrow> Some (Refused ErrFull, b\<lparr>rejected := rejected b + 1\<rparr>)
      | CtxDone e \<Rightarrow> Some (Refused (ErrCtx e), b))"

text \<open>
  The block timer is armed by the first pass that parks, and only by it: \<open>timeout\<close> is the instant at which
  it fires, \<open>None\<close> as long as there is no timer. A case of the \<open>select\<close> can only be taken when it is
  ready: the space channel when its captured generation \<open>g\<close> has been closed, the timer when it has fired.
\<close>

definition arm_timer :: "gotime option \<Rightarrow> gotime \<Rightarrow> Broker \<Rightarrow> gotime option" where
  "arm_timer timeout t b = (case timeout of None \<Rightarrow> Some (t + BlockTimeout (cfg b)) | Some d \<Rightarrow> Some d)"

definition wake_ready :: "gotime option \<Rightarrow> nat \<Rightarrow> gotime \<Rightarrow> wake \<Rightarrow> Broker \<Rightarrow> bool" where
  "wake_ready timeout g t w b =
     (case w of
        SpaceFreed \<Rightarrow> spaceCh b \<noteq> g
      | TimedOut \<Rightarrow> (case timeout of None \<Rightarrow> False | Some d \<Rightarrow> d \<le> t)
      | CtxDone e \<Rightarrow> True)"

text \<open>
  \<open>Enqueue\<close> as its caller sees it. A call environment is the instant of the call and what happens to the
  producer while it is parked: at an instant \<open>t\<close>, after the effect \<open>f\<close> of the other goroutines on the
  broker, the \<open>select\<close> is scheduled and takes the case \<open>w\<close> if that is ready; if it is not, the producer stays
  parked. One that is still parked when the list ends has not returned (\<open>Parked\<close>).
\<close>

type_synonym parked_event = "gotime \<times> wake \<times> (Broker \<Rightarrow> Broker)"
type_synonym waits = "gotime \<times> parked_event list"

fun Enqueue_parked :: "parked_event list \<Rightarrow> TelemetryMessage \<Rightarrow> gotime option \<Rightarrow> nat \<Rightarrow> Broker \<Rightarrow> (enq_pass \<times> Broker) option" where
  "Enqueue_parked [] m timeout g b = Some (Parked g, b)"
| "Enqueue_parked ((t, w, f) # evs) m timeout g b =
     (let b = f b in
      if wake_ready timeout g t w b then
        (case Enqueue_wake w m b of
           Some (Parked g, b) \<Rightarrow> Enqueue_parked evs m (arm_timer timeout t b) g b
         | r \<Rightarrow> r)
      else Enqueue_parked evs m timeout g b)"

definition Enqueue :: "waits \<Rightarrow> TelemetryMessage \<Rightarrow> Broker \<Rightarrow> (enq_pass \<times> Broker) option" where
  "Enqueue ws m b =
     (case Enqueue_pass m b of
        Some (Parked g, b) \<Rightarrow> Enqueue_parked (snd ws) m (arm_timer None (fst ws) b) g b
      | r \<Rightarrow> r)"

section \<open>Lease and acknowledgement\<close>

text \<open>
  \<open>b.retry.Len() > 0 && !b.now().Before(b.retry[0].visibleAt)\<close>: the clock is read only when the
  retry lane is not empty.
\<close>

definition headVisible :: "Broker \<Rightarrow> bool \<times> Broker" where
  "headVisible b =
     (case retry b of
        [] \<Rightarrow> (False, b)
      | it # _ \<Rightarrow> let (t, b') = readClock b in (\<not> t < visibleAt it, b'))"

definition leaseEntry :: "uint64 \<Rightarrow> entry \<Rightarrow> Broker \<Rightarrow> TelemetryMessage option \<times> Broker" where
  "leaseEntry c e b =
     (let a = attempts e + 1;
          m = (msg e)\<lparr>pbDeliveryAttempts := a\<rparr>;
          (t, b) = readClock b
      in (Some m,
          b\<lparr>leases := AList.update (pbId m)
              \<lparr>lr_e = \<lparr>msg = m, attempts = a\<rparr>, consumer = c, deadline = t + LeaseTTL (cfg b)\<rparr>
              (leases b)\<rparr>))"

definition Lease :: "uint64 \<Rightarrow> Broker \<Rightarrow> (TelemetryMessage option \<times> Broker) option" where
  "Lease c b =
     (let (visible, b) = headVisible b in
      if visible then do {
        (it, h) \<leftarrow> heap_Pop retryLess (retry b);
        Some (leaseEntry c (ri_e it) (b\<lparr>retry := h\<rparr>))
      } else do {
        (e, ok, d) \<leftarrow> deque_popFront (main b);
        if ok then do {
          e \<leftarrow> e;
          Some (leaseEntry c e (b\<lparr>main := d\<rparr>))
        } else Some (None, b)
      })"

definition Ack :: "uint64 \<Rightarrow> uint64 \<Rightarrow> Broker \<Rightarrow> bool \<times> Broker" where
  "Ack i c b =
     (case map_of (leases b) i of
        None \<Rightarrow> (False, b)
      | Some rec \<Rightarrow>
          if consumer rec \<noteq> c then (False, b)
          else (True, signalSpace (b\<lparr>leases := AList.delete i (leases b)\<rparr>)))"

definition ReleaseLease :: "uint64 \<Rightarrow> uint64 \<Rightarrow> Broker \<Rightarrow> (bool \<times> Broker) option" where
  "ReleaseLease i c b =
     (case map_of (leases b) i of
        None \<Rightarrow> Some (False, b)
      | Some rec \<Rightarrow>
          if consumer rec \<noteq> c then Some (False, b)
          else do {
            b \<leftarrow> requeue (lr_e rec) 0 (b\<lparr>leases := AList.delete i (leases b)\<rparr>);
            Some (True, b)
          })"

text \<open>
  The loop shared by \<open>ReleaseConsumer\<close> and \<open>SweepExpired\<close>: take each id out of the lease table
  and requeue its entry with backoff. \<open>b.leases[id]\<close> of an absent id would be the zero record
  with a nil entry, a panic when it is used.
\<close>

definition requeueLease :: "uint64 \<Rightarrow> Broker \<Rightarrow> Broker option" where
  "requeueLease i b = do {
     rec \<leftarrow> map_of (leases b) i;
     requeue (lr_e rec) (backoff (cfg b) (attempts (lr_e rec))) (b\<lparr>leases := AList.delete i (leases b)\<rparr>)
   }"

fun release_loop :: "uint64 list \<Rightarrow> Broker \<Rightarrow> Broker option" where
  "release_loop [] b = Some b"
| "release_loop (i # ids) b = do { b \<leftarrow> requeueLease i b; release_loop ids b }"

definition consumerIds :: "uint64 \<Rightarrow> (uint64 \<times> leaseRec) list \<Rightarrow> uint64 list" where
  "consumerIds c ls = sort (map fst (filter (\<lambda>(i, rec). consumer rec = c) ls))"

definition ReleaseConsumer :: "uint64 \<Rightarrow> Broker \<Rightarrow> (nat \<times> Broker) option" where
  "ReleaseConsumer c b = do {
     let ids = consumerIds c (leases b);
     b \<leftarrow> release_loop ids b;
     Some (length ids, b)
   }"

section \<open>Dead letters\<close>

definition toDLQEntry :: "dlqItem \<Rightarrow> DLQEntry" where
  "toDLQEntry it = \<lparr>dMsg = msg (di_e it), dID = pbId (msg (di_e it)), dGpuID = pbGpuId (msg (di_e it)),
     dMetricName = pbMetricName (msg (di_e it)), dTimestamp = pbTimestamp (msg (di_e it)),
     dAttempts = attempts (di_e it), dReason = reason it, dDeadLetteredAt = di_at it\<rparr>"

fun dlqRing_list_loop :: "dlqItem ring \<Rightarrow> nat \<Rightarrow> nat \<Rightarrow> DLQEntry list option" where
  "dlqRing_list_loop r i 0 = Some []"
| "dlqRing_list_loop r i (Suc n) = do {
     slot \<leftarrow> index (rbuf r) ((rhead r + i) mod length (rbuf r));
     it \<leftarrow> slot;
     out \<leftarrow> dlqRing_list_loop r (Suc i) n;
     Some (toDLQEntry it # out)
   }"

definition dlqRing_list :: "int \<Rightarrow> dlqItem ring \<Rightarrow> DLQEntry list option" where
  "dlqRing_list limit r =
     (let n = (if limit > 0 \<and> limit < int (rcount r) then nat limit else rcount r)
      in dlqRing_list_loop r 0 n)"

definition DLQList :: "int \<Rightarrow> Broker \<Rightarrow> DLQEntry list option" where
  "DLQList limit b = dlqRing_list limit (dlq b)"

function DLQReplay_loop :: "nat \<Rightarrow> Broker \<Rightarrow> (nat \<times> Broker) option" where
  "DLQReplay_loop n b =
     (if int (used b) < Capacity (cfg b) then
        (case dlqRing_pop (dlq b) of
           None \<Rightarrow> None
         | Some (item, ok, r) \<Rightarrow>
             if \<not> ok then Some (n, b)
             else
               (case item of
                  None \<Rightarrow> None
                | Some it \<Rightarrow>
                    (case deque_pushBack ((di_e it)\<lparr>attempts := 0\<rparr>) (main b) of
                       None \<Rightarrow> None
                     | Some d \<Rightarrow> DLQReplay_loop (Suc n) (b\<lparr>dlq := r, main := d\<rparr>))))
      else Some (n, b))"
  by pat_completeness auto
termination
proof (relation "measure (\<lambda>(n, b). rcount (dlq b))")
  fix n :: nat and b :: Broker and p item q ok r it d
  assume "dlqRing_pop (dlq b) = Some p" "(item, q) = p" "(ok, r) = q" "\<not> \<not> ok"
  then have "rcount r < rcount (dlq b)"
    by (auto simp: dlqRing_pop_def index_def split: if_splits)
  then show "((Suc n, b\<lparr>dlq := r, main := d\<rparr>), n, b) \<in> measure (\<lambda>(n, b). rcount (dlq b))" by simp
qed simp

declare DLQReplay_loop.simps [simp del]

definition DLQReplay :: "Broker \<Rightarrow> (nat \<times> Broker) option" where
  "DLQReplay b = DLQReplay_loop 0 b"

section \<open>The sweeper\<close>

definition expiredIds :: "gotime \<Rightarrow> (uint64 \<times> leaseRec) list \<Rightarrow> uint64 list" where
  "expiredIds t ls = sort (map fst (filter (\<lambda>(i, rec). \<not> t < deadline rec) ls))"

fun sweep_loop :: "uint64 list \<Rightarrow> nat \<Rightarrow> Broker \<Rightarrow> (nat \<times> Broker) option" where
  "sweep_loop [] n b = Some (n, b)"
| "sweep_loop (i # ids) n b = do {
     b \<leftarrow> requeueLease i b;
     sweep_loop ids (Suc n) (b\<lparr>leaseExpired := leaseExpired b + 1\<rparr>)
   }"

text \<open>The second component of the result says whether the wake-up hook is called.\<close>

definition SweepExpired :: "Broker \<Rightarrow> (nat \<times> bool \<times> Broker) option" where
  "SweepExpired b = do {
     let (nowT, b) = readClock b;
     (n, b) \<leftarrow> sweep_loop (expiredIds nowT (leases b)) 0 b;
     Some (n, n > 0 \<and> notify b, b)
   }"

text \<open>
  A tick of the background sweeper is two locked sections: \<open>SweepExpired\<close>, and this check whether the head of
  the retry lane is visible, with the wake-up it sends. Other operations may come between them.
\<close>

definition sweeper_check :: "Broker \<Rightarrow> bool \<times> Broker" where
  "sweeper_check b = (let (visible, b) = headVisible b in (visible \<and> notify b, b))"

section \<open>Inspect and Close\<close>

record StoreStats =
  stDepth :: nat
  stRetryDepth :: nat
  stDLQDepth :: nat
  stCapacity :: int
  stInFlight :: int
  stRejectedTotal :: int
  stDroppedOverflow :: int
  stDroppedRequeue :: int
  stDropped :: int
  stDeadLetteredTotal :: int
  stDLQEvictedTotal :: int
  stLeaseExpiredTotal :: int

definition Inspect :: "Broker \<Rightarrow> StoreStats" where
  "Inspect b = \<lparr>
     stDepth = deque_len (main b),
     stRetryDepth = length (retry b),
     stDLQDepth = dlqRing_len (dlq b),
     stCapacity = Capacity (cfg b),
     stInFlight = int (length (leases b)),
     stRejectedTotal = rejected b,
     stDroppedOverflow = droppedOverflow b,
     stDroppedRequeue = droppedRequeue b,
     stDropped = droppedOverflow b + droppedRequeue b,
     stDeadLetteredTotal = deadLettered b,
     stDLQEvictedTotal = dlqEvicted b,
     stLeaseExpiredTotal = leaseExpired b\<rparr>"

definition Close :: "Broker \<Rightarrow> Broker" where
  "Close b =
     (if closed b then b
      else (signalSpace (b\<lparr>closed := True\<rparr>))\<lparr>sweepStop := True\<rparr>)"

end
