(* ===== verification/Broker_Inv.thy ===== *)
theory Broker_Inv
  imports Broker
begin

text \<open>
  The invariants of the broker and their preservation: the capacity budget
  (main + retry + in-flight \<open>\<le>\<close> Capacity), well-formed lanes, the lease table keyed by message
  id, the delivery-attempt bounds of every lane and the uniqueness of broker ids. Each operation
  keeps them and never panics.
\<close>

section \<open>Invariants\<close>

definition retryKey :: "retryItem \<Rightarrow> gotime \<times> uint64" where
  "retryKey it = (visibleAt it, pbId (msg (ri_e it)))"

lemma retryLess_key: "retryLess a b \<longleftrightarrow> retryKey a < retryKey b"
  by (auto simp: retryLess_def retryKey_def)

interpretation retry_lane: priority_lane "heap_inv retryKey" mset retryKey "heap_Push retryLess" "heap_Pop retryLess"
  by (rule heap_priority_lane) (rule retryLess_key)

definition broker_inv :: "Broker \<Rightarrow> bool" where
  "broker_inv b \<longleftrightarrow>
     ring_inv (main b) \<and> int (ring_cap (main b)) = Capacity (cfg b) \<and>
     ring_inv (dlq b) \<and> int (ring_cap (dlq b)) = DLQCapacity (cfg b) \<and>
     heap_inv retryKey (retry b) \<and>
     distinct (map fst (leases b)) \<and>
     (\<forall>(i, r) \<in> set (leases b). pbId (msg (lr_e r)) = i) \<and>
     int (used b) \<le> Capacity (cfg b) \<and>
     droppedRequeue b = 0 \<and>
     MaxDeliveries (cfg b) \<noteq> 0"

definition attempts_inv :: "Broker \<Rightarrow> bool" where
  "attempts_inv b \<longleftrightarrow>
     (\<forall>e \<in> set (ring_content (main b)). attempts e = 0) \<and>
     (\<forall>it \<in> set (retry b). 0 < attempts (ri_e it) \<and> attempts (ri_e it) < MaxDeliveries (cfg b)) \<and>
     (\<forall>(i, r) \<in> set (leases b). 0 < attempts (lr_e r) \<and> attempts (lr_e r) \<le> MaxDeliveries (cfg b) \<and>
        pbDeliveryAttempts (msg (lr_e r)) = attempts (lr_e r)) \<and>
     (\<forall>it \<in> set (ring_content (dlq b)). attempts (di_e it) = MaxDeliveries (cfg b)) \<and>
     MaxDeliveries (cfg b) \<noteq> 0"

definition live_ids :: "Broker \<Rightarrow> uint64 multiset" where
  "live_ids b =
     image_mset (\<lambda>e. pbId (msg e)) (mset (ring_content (main b))) +
     image_mset (\<lambda>it. pbId (msg (ri_e it))) (mset (retry b)) +
     image_mset fst (mset (leases b))"

definition dlq_ids :: "Broker \<Rightarrow> uint64 multiset" where
  "dlq_ids b = image_mset (\<lambda>it. pbId (msg (di_e it))) (mset (ring_content (dlq b)))"

definition all_ids :: "Broker \<Rightarrow> uint64 multiset" where
  "all_ids b = live_ids b + dlq_ids b"

text \<open>Every id is held once, and no id is beyond the last one assigned.\<close>

definition ids_inv :: "Broker \<Rightarrow> bool" where
  "ids_inv b \<longleftrightarrow> (\<forall>i. count (all_ids b) i \<le> 1) \<and> (\<forall>i \<in># all_ids b. i \<le> nextID b)"

lemmas ids_defs = all_ids_def live_ids_def dlq_ids_def

lemma used_eq: "used b = rcount (main b) + length (retry b) + length (leases b)"
  by (simp add: used_def deque_len_def)

lemma size_live_ids: "size (live_ids b) = used b"
  by (simp add: live_ids_def used_eq)

lemma size_all_ids: "size (all_ids b) = used b + dlqRing_len (dlq b)"
  by (simp add: all_ids_def size_live_ids dlq_ids_def dlqRing_len_def)

text \<open>The invariants do not read the clock position, the channels or the plain counters.\<close>

lemma used_upd [simp]:
  "used (b\<lparr>ticks := x_ticks\<rparr>) = used b"
  "used (b\<lparr>leaseExpired := x_leaseExpired\<rparr>) = used b"
  "used (b\<lparr>rejected := x_rejected\<rparr>) = used b"
  "used (b\<lparr>spaceCh := x_spaceCh\<rparr>) = used b"
  "used (b\<lparr>notify := x_notify\<rparr>) = used b"
  "used (b\<lparr>closed := x_closed\<rparr>) = used b"
  "used (b\<lparr>sweepStop := x_sweepStop\<rparr>) = used b"
  by (simp_all add: used_eq)

lemma broker_inv_upd [simp]:
  "broker_inv (b\<lparr>ticks := x_ticks\<rparr>) = broker_inv b"
  "broker_inv (b\<lparr>leaseExpired := x_leaseExpired\<rparr>) = broker_inv b"
  "broker_inv (b\<lparr>rejected := x_rejected\<rparr>) = broker_inv b"
  "broker_inv (b\<lparr>spaceCh := x_spaceCh\<rparr>) = broker_inv b"
  "broker_inv (b\<lparr>notify := x_notify\<rparr>) = broker_inv b"
  "broker_inv (b\<lparr>closed := x_closed\<rparr>) = broker_inv b"
  "broker_inv (b\<lparr>sweepStop := x_sweepStop\<rparr>) = broker_inv b"
  by (simp_all add: broker_inv_def)

lemma attempts_inv_upd [simp]:
  "attempts_inv (b\<lparr>ticks := x_ticks\<rparr>) = attempts_inv b"
  "attempts_inv (b\<lparr>leaseExpired := x_leaseExpired\<rparr>) = attempts_inv b"
  "attempts_inv (b\<lparr>rejected := x_rejected\<rparr>) = attempts_inv b"
  "attempts_inv (b\<lparr>spaceCh := x_spaceCh\<rparr>) = attempts_inv b"
  "attempts_inv (b\<lparr>notify := x_notify\<rparr>) = attempts_inv b"
  "attempts_inv (b\<lparr>closed := x_closed\<rparr>) = attempts_inv b"
  "attempts_inv (b\<lparr>sweepStop := x_sweepStop\<rparr>) = attempts_inv b"
  by (simp_all add: attempts_inv_def)

lemma all_ids_upd [simp]:
  "all_ids (b\<lparr>ticks := x_ticks\<rparr>) = all_ids b"
  "all_ids (b\<lparr>leaseExpired := x_leaseExpired\<rparr>) = all_ids b"
  "all_ids (b\<lparr>rejected := x_rejected\<rparr>) = all_ids b"
  "all_ids (b\<lparr>spaceCh := x_spaceCh\<rparr>) = all_ids b"
  "all_ids (b\<lparr>notify := x_notify\<rparr>) = all_ids b"
  "all_ids (b\<lparr>closed := x_closed\<rparr>) = all_ids b"
  "all_ids (b\<lparr>sweepStop := x_sweepStop\<rparr>) = all_ids b"
  by (simp_all add: ids_defs)

section \<open>Requeue\<close>

lemma requeue_cases:
  assumes "ring_inv (dlq b)"
  obtains (dead) r where "MaxDeliveries (cfg b) \<le> attempts e"
      "ring_inv r" "ring_cap r = ring_cap (dlq b)"
      "ring_content r =
         (if rcount (dlq b) = ring_cap (dlq b) then tl (ring_content (dlq b)) else ring_content (dlq b)) @
         [\<lparr>di_e = e, reason = dlq_reason (MaxDeliveries (cfg b)), di_at = now b (ticks b)\<rparr>]"
      "requeue e delay b = Some (b\<lparr>ticks := Suc (ticks b), dlq := r,
         dlqEvicted := (if rcount (dlq b) = ring_cap (dlq b) then dlqEvicted b + 1 else dlqEvicted b),
         deadLettered := deadLettered b + 1, spaceCh := Suc (spaceCh b)\<rparr>)"
  | (again) "attempts e < MaxDeliveries (cfg b)"
      "requeue e delay b = Some (b\<lparr>ticks := Suc (ticks b),
         retry := heap_Push retryLess \<lparr>ri_e = e, visibleAt = now b (ticks b) + delay\<rparr> (retry b)\<rparr>)"
proof (cases "MaxDeliveries (cfg b) \<le> attempts e")
  case True
  let ?it = "\<lparr>di_e = e, reason = dlq_reason (MaxDeliveries (cfg b)), di_at = now b (ticks b)\<rparr>"
  from dlq_lane.push_evict [OF assms, of ?it] obtain r where
    r: "dlqRing_push ?it (dlq b) = Some (rcount (dlq b) = ring_cap (dlq b), r)" "ring_inv r"
      "ring_cap r = ring_cap (dlq b)"
      "ring_content r = (if rcount (dlq b) = ring_cap (dlq b) then tl (ring_content (dlq b))
         else ring_content (dlq b)) @ [?it]" by auto
  then have "requeue e delay b = Some (b\<lparr>ticks := Suc (ticks b), dlq := r,
         dlqEvicted := (if rcount (dlq b) = ring_cap (dlq b) then dlqEvicted b + 1 else dlqEvicted b),
         deadLettered := deadLettered b + 1, spaceCh := Suc (spaceCh b)\<rparr>)"
    using True by (simp add: requeue_def readClock_def signalSpace_def)
  with True r show ?thesis by (intro dead)
next
  case False
  then show ?thesis by (intro again) (simp_all add: requeue_def readClock_def)
qed

text \<open>
  Requeuing has headroom whenever the entry has just left the lease table, so it never panics
  and never touches the main lane, the leases or the id counter.
\<close>

lemma requeue_broker_inv:
  assumes "broker_inv b" "int (used b) < Capacity (cfg b)"
  shows "\<exists>b'. requeue e delay b = Some b' \<and> broker_inv b' \<and> main b' = main b \<and> leases b' = leases b \<and>
           cfg b' = cfg b \<and> nextID b' = nextID b \<and> now b' = now b \<and> notify b' = notify b \<and>
           closed b' = closed b"
proof -
  from assms(1) have "ring_inv (dlq b)" by (simp add: broker_inv_def)
  then show ?thesis
  proof (cases rule: requeue_cases [where e = e and delay = delay])
    case (dead r)
    with assms show ?thesis by (simp add: broker_inv_def used_eq)
  next
    case again
    have "heap_inv retryKey (retry b)" using assms by (simp add: broker_inv_def)
    note retry_lane.push_invar [OF this] retry_lane.push_items [OF this]
    moreover from this(2) have "length (heap_Push retryLess x (retry b)) = Suc (length (retry b))" for x
      by (metis size_add_mset size_mset)
    ultimately show ?thesis using again assms by (simp add: broker_inv_def used_eq)
  qed
qed

section \<open>Moves between lanes\<close>

text \<open>
  \<open>conserves adm ack b b'\<close>: the ids of \<open>b\<close> and the admitted ones are the ids of \<open>b'\<close>, the
  acknowledged ones and as many evicted ones as the two eviction counters grew by.
\<close>

definition conserves :: "uint64 multiset \<Rightarrow> uint64 multiset \<Rightarrow> Broker \<Rightarrow> Broker \<Rightarrow> bool" where
  "conserves adm ack b b' \<longleftrightarrow>
     (\<exists>ev. all_ids b + adm = all_ids b' + ack + ev \<and>
        int (size ev) = (droppedOverflow b' + dlqEvicted b') - (droppedOverflow b + dlqEvicted b)) \<and>
     droppedOverflow b \<le> droppedOverflow b' \<and> dlqEvicted b \<le> dlqEvicted b'"

lemma conserves_refl [simp]: "conserves {#} {#} b b"
  by (simp add: conserves_def)

lemma conserves_same:
  "all_ids b = all_ids b' \<Longrightarrow> droppedOverflow b' = droppedOverflow b \<Longrightarrow> dlqEvicted b' = dlqEvicted b \<Longrightarrow>
   conserves {#} {#} b b'"
  by (simp add: conserves_def)

lemma conserves_trans:
  assumes "conserves adm ack b b'" "conserves adm' ack' b' b''"
  shows "conserves (adm + adm') (ack + ack') b b''"
proof -
  from assms obtain ev ev' where
    "all_ids b + adm = all_ids b' + ack + ev"
    "int (size ev) = (droppedOverflow b' + dlqEvicted b') - (droppedOverflow b + dlqEvicted b)"
    "all_ids b' + adm' = all_ids b'' + ack' + ev'"
    "int (size ev') = (droppedOverflow b'' + dlqEvicted b'') - (droppedOverflow b' + dlqEvicted b')"
    by (auto simp: conserves_def)
  then have "all_ids b + (adm + adm') = all_ids b'' + (ack + ack') + (ev + ev') \<and>
      int (size (ev + ev')) = (droppedOverflow b'' + dlqEvicted b'') - (droppedOverflow b + dlqEvicted b)"
    by (simp add: ac_simps) (metis add.assoc add.commute)
  with assms show ?thesis unfolding conserves_def by auto
qed

text \<open>
  A move takes entries from lane to lane: it keeps the invariants, admits and acknowledges
  nothing, and announces on the space channel whenever the budget in use shrinks.
\<close>

definition lane_move :: "Broker \<Rightarrow> Broker \<Rightarrow> bool" where
  "lane_move b b' \<longleftrightarrow>
     broker_inv b' \<and> (attempts_inv b \<longrightarrow> attempts_inv b') \<and> conserves {#} {#} b b' \<and>
     cfg b' = cfg b \<and> now b' = now b \<and> nextID b' = nextID b \<and> closed b' = closed b \<and>
     notify b' = notify b \<and> droppedOverflow b' = droppedOverflow b \<and> ticks b \<le> ticks b' \<and>
     used b' \<le> used b \<and> spaceCh b \<le> spaceCh b' \<and> (used b' < used b \<longrightarrow> spaceCh b < spaceCh b')"

lemma lane_move_refl: "broker_inv b \<Longrightarrow> lane_move b b"
  by (simp add: lane_move_def)

lemma lane_move_trans: "lane_move b b' \<Longrightarrow> lane_move b' b'' \<Longrightarrow> lane_move b b''"
  using conserves_trans [of "{#}" "{#}" b b' "{#}" "{#}" b'']
  by (auto simp: lane_move_def)

lemma lane_move_broker_inv: "lane_move b b' \<Longrightarrow> broker_inv b'"
  by (simp add: lane_move_def)

lemma lease_keys_delete:
  assumes "broker_inv b" "map_of (leases b) i = Some rec"
  shows "image_mset fst (mset (leases b)) = add_mset i (image_mset fst (mset (AList.delete i (leases b))))"
  using assms mset_delete_key [of "leases b" i rec] by (simp add: broker_inv_def)

lemma all_ids_delete:
  assumes "broker_inv b" "map_of (leases b) i = Some rec"
  shows "all_ids b = add_mset i (all_ids (b\<lparr>leases := AList.delete i (leases b)\<rparr>))"
  by (simp add: ids_defs lease_keys_delete [OF assms])

lemma full_split:
  assumes "ring_inv r" "rcount r = ring_cap r"
  shows "mset (ring_content r) = add_mset (hd (ring_content r)) (mset (tl (ring_content r)))"
proof -
  have "ring_content r \<noteq> []" using assms ring_inv_cap_pos [OF assms(1)] by simp
  then show ?thesis by (cases "ring_content r") simp_all
qed

lemma delete_lease:
  assumes "broker_inv b" "map_of (leases b) i = Some rec"
  defines "b' \<equiv> b\<lparr>leases := AList.delete i (leases b)\<rparr>"
  shows "broker_inv b'" "Suc (used b') = used b" "attempts_inv b \<Longrightarrow> attempts_inv b'"
proof -
  have len: "Suc (length (AList.delete i (leases b))) = length (leases b)"
    using assms by (intro length_delete_key) (auto simp: broker_inv_def)
  then show u: "Suc (used b') = used b" by (simp add: b'_def used_eq)
  show "broker_inv b'"
    using assms(1) u by (auto simp: broker_inv_def b'_def delete_set distinct_delete used_eq)
  show "attempts_inv b \<Longrightarrow> attempts_inv b'"
    by (auto simp: attempts_inv_def b'_def delete_set)
qed

text \<open>The two ways of a released entry: into the dead-letter lane, or into the retry lane.\<close>

lemma dead_letter_conserves:
  assumes inv: "broker_inv b" and l: "map_of (leases b) i = Some rec" and id: "pbId (msg (lr_e rec)) = i"
    and r: "ring_content r = (if rcount (dlq b) = ring_cap (dlq b) then tl (ring_content (dlq b)) else ring_content (dlq b)) @ [it]"
      "di_e it = lr_e rec"
    and b': "b' = b\<lparr>leases := AList.delete i (leases b), ticks := Suc (ticks b), dlq := r,
         dlqEvicted := (if rcount (dlq b) = ring_cap (dlq b) then dlqEvicted b + 1 else dlqEvicted b),
         deadLettered := deadLettered b + 1, spaceCh := Suc (spaceCh b)\<rparr>"
  shows "conserves {#} {#} b b'"
proof (cases "rcount (dlq b) = ring_cap (dlq b)")
  case True
  have "ring_inv (dlq b)" using inv by (simp add: broker_inv_def)
  note fs = full_split [OF this True]
  have "all_ids b = add_mset (pbId (msg (di_e (hd (ring_content (dlq b)))))) (all_ids b')"
    using True r by (simp add: lease_keys_delete [OF inv l] ids_defs b' fs id)
  then show ?thesis
    using True unfolding conserves_def
    by (intro conjI exI [of _ "{#pbId (msg (di_e (hd (ring_content (dlq b)))))#}"]) (simp_all add: b')
next
  case False
  then have "all_ids b = all_ids b'"
    using r by (simp add: lease_keys_delete [OF inv l] ids_defs b' id)
  then show ?thesis using False by (intro conserves_same) (simp_all add: b')
qed

lemma requeueLease_move:
  assumes inv: "broker_inv b" and l: "map_of (leases b) i = Some rec"
    and ri: "requeue (lr_e rec) delay (b\<lparr>leases := AList.delete i (leases b)\<rparr>) = Some b'"
  shows "lane_move b b' \<and> leases b' = AList.delete i (leases b)"
proof -
  let ?d = "b\<lparr>leases := AList.delete i (leases b)\<rparr>"
  note d = delete_lease [OF inv l]
  have id: "pbId (msg (lr_e rec)) = i" and mem: "(i, rec) \<in> set (leases b)"
    using inv map_of_SomeD [OF l] by (auto simp: broker_inv_def)
  have "ring_inv (dlq ?d)" and heap: "heap_inv retryKey (retry b)"
    using d(1) by (simp_all add: broker_inv_def)
  from this(1) show ?thesis
  proof (cases rule: requeue_cases [where e = "lr_e rec" and delay = delay])
    case (dead r)
    have b': "b' = b\<lparr>leases := AList.delete i (leases b), ticks := Suc (ticks b), dlq := r,
         dlqEvicted := (if rcount (dlq b) = ring_cap (dlq b) then dlqEvicted b + 1 else dlqEvicted b),
         deadLettered := deadLettered b + 1, spaceCh := Suc (spaceCh b)\<rparr>"
      using ri dead(5) by (cases "rcount (dlq b) = ring_cap (dlq b)") auto
    have "conserves {#} {#} b b'" by (rule dead_letter_conserves [OF inv l id _ _ b']) (use dead(4) in simp)+
    moreover have "attempts_inv b'" if a: "attempts_inv b"
    proof -
      have "attempts (lr_e rec) = MaxDeliveries (cfg b)" using a dead(1) mem by (force simp: attempts_inv_def)
      then have "\<forall>it \<in> set (ring_content r). attempts (di_e it) = MaxDeliveries (cfg b)"
        using dead(4) a by (auto simp: attempts_inv_def dest: in_set_tlD)
      then show ?thesis using d(3) [OF a] by (simp add: attempts_inv_def b')
    qed
    ultimately show ?thesis using dead(2,3) d(1,2) by (simp add: lane_move_def broker_inv_def used_eq b')
  next
    case again
    note push = retry_lane.push_invar [OF heap] retry_lane.push_items [OF heap]
    have len: "length (heap_Push retryLess x (retry b)) = Suc (length (retry b))" for x
      by (metis push(2) size_add_mset size_mset)
    have st: "set (heap_Push retryLess x (retry b)) = insert x (set (retry b))" for x
      by (metis push(2) set_mset_add_mset_insert set_mset_mset)
    have b': "b' = b\<lparr>leases := AList.delete i (leases b), ticks := Suc (ticks b),
         retry := heap_Push retryLess \<lparr>ri_e = lr_e rec, visibleAt = now b (ticks b) + delay\<rparr> (retry b)\<rparr>"
      using ri again(2) by simp
    have "conserves {#} {#} b b'"
      by (intro conserves_same) (simp_all add: lease_keys_delete [OF inv l] ids_defs b' id push(2))
    moreover have "attempts_inv b'" if a: "attempts_inv b"
      using a d(3) [OF a] mem again(1) by (force simp: attempts_inv_def st b')
    ultimately show ?thesis
      using inv d(1,2) by (simp add: lane_move_def broker_inv_def used_eq push(1) len b')
  qed
qed

section \<open>Releasing leases\<close>

lemma requeueLease_total:
  assumes "broker_inv b" "map_of (leases b) i = Some rec"
  shows "\<exists>b'. requeue (lr_e rec) delay (b\<lparr>leases := AList.delete i (leases b)\<rparr>) = Some b' \<and>
           lane_move b b' \<and> leases b' = AList.delete i (leases b)"
proof -
  note d = delete_lease [OF assms]
  have "int (used (b\<lparr>leases := AList.delete i (leases b)\<rparr>)) < Capacity (cfg b)"
    using assms(1) d(2) by (simp add: broker_inv_def)
  with d(1) requeue_broker_inv [of "b\<lparr>leases := AList.delete i (leases b)\<rparr>" "lr_e rec" delay]
  obtain b' where r: "requeue (lr_e rec) delay (b\<lparr>leases := AList.delete i (leases b)\<rparr>) = Some b'"
    by auto
  from requeueLease_move [OF assms r] r show ?thesis by blast
qed

lemma requeueLease_ok:
  assumes "broker_inv b" "i \<in> fst ` set (leases b)"
  shows "\<exists>b'. requeueLease i b = Some b' \<and> lane_move b b' \<and> leases b' = AList.delete i (leases b)"
proof -
  from assms(2) obtain rec where l: "map_of (leases b) i = Some rec"
    by (metis map_of_eq_None_iff not_None_eq)
  from requeueLease_total [OF assms(1) l] l show ?thesis by (simp add: requeueLease_def)
qed

lemma release_loop_ok:
  assumes "broker_inv b" "distinct ids" "set ids \<subseteq> fst ` set (leases b)"
  shows "\<exists>b'. release_loop ids b = Some b' \<and> lane_move b b' \<and>
           leases b' = filter (\<lambda>p. fst p \<notin> set ids) (leases b)"
  using assms
proof (induction ids arbitrary: b)
  case Nil
  then show ?case by (simp add: lane_move_refl)
next
  case (Cons i ids)
  from requeueLease_ok [of b i] Cons.prems obtain b1 where
    b1: "requeueLease i b = Some b1" "lane_move b b1" "leases b1 = AList.delete i (leases b)" by auto
  have "set ids \<subseteq> fst ` set (leases b1)"
    using Cons.prems(2,3) b1(3) by (force simp: delete_set)
  with Cons.IH [of b1] Cons.prems(2) b1(2) obtain b2 where
    "release_loop ids b1 = Some b2" "lane_move b1 b2"
    "leases b2 = filter (\<lambda>p. fst p \<notin> set ids) (leases b1)"
    by (auto dest: lane_move_broker_inv)
  with b1 show ?case
    using lane_move_trans [OF b1(2)]
    by (auto simp: AList.delete_eq intro!: filter_cong)
qed

lemma distinct_filter_fst: "distinct (map fst ls) \<Longrightarrow> distinct (map fst (filter P ls))"
  by (rule distinct_map_filter)

lemma set_consumerIds: "set (consumerIds c ls) = {i. \<exists>r. (i, r) \<in> set ls \<and> consumer r = c}"
  by (force simp: consumerIds_def)

lemma set_expiredIds: "set (expiredIds t ls) = {i. \<exists>r. (i, r) \<in> set ls \<and> deadline r \<le> t}"
  by (force simp: expiredIds_def not_less)

lemma filter_not_keys:
  assumes "distinct (map fst ls)"
  shows "filter (\<lambda>p. fst p \<notin> {i. \<exists>r. (i, r) \<in> set ls \<and> P r}) ls = filter (\<lambda>(i, r). \<not> P r) ls"
proof (rule filter_cong [OF refl])
  fix p assume p: "p \<in> set ls"
  obtain i r where ir: "p = (i, r)" by (cases p)
  have "r' = r" if "(i, r') \<in> set ls" for r'
    by (rule eq_key_imp_eq_value [OF assms that]) (use p ir in simp)
  with p show "(fst p \<notin> {i. \<exists>r. (i, r) \<in> set ls \<and> P r}) = (case p of (i, r) \<Rightarrow> \<not> P r)"
    unfolding ir fst_conv prod.case mem_Collect_eq by blast
qed

lemma ReleaseConsumer_ok:
  assumes "broker_inv b"
  shows "\<exists>b'. ReleaseConsumer c b = Some (length (filter (\<lambda>(i, r). consumer r = c) (leases b)), b') \<and>
           lane_move b b' \<and> leases b' = filter (\<lambda>(i, r). consumer r \<noteq> c) (leases b)"
proof -
  have dk: "distinct (map fst (leases b))" using assms by (simp add: broker_inv_def)
  let ?ids = "consumerIds c (leases b)"
  have "distinct ?ids" using dk by (simp add: consumerIds_def distinct_filter_fst)
  moreover have "set ?ids \<subseteq> fst ` set (leases b)" by (force simp: set_consumerIds)
  ultimately obtain b' where b': "release_loop ?ids b = Some b'" "lane_move b b'"
    "leases b' = filter (\<lambda>p. fst p \<notin> set ?ids) (leases b)"
    using release_loop_ok [OF assms] by blast
  have "leases b' = filter (\<lambda>(i, r). consumer r \<noteq> c) (leases b)"
    unfolding b'(3) set_consumerIds by (rule filter_not_keys [OF dk])
  with b' show ?thesis
    by (simp add: ReleaseConsumer_def) (simp add: consumerIds_def)
qed

lemma lane_move_expired:
  "lane_move b b' \<Longrightarrow> lane_move b (b'\<lparr>leaseExpired := n\<rparr>)"
  by (auto simp: lane_move_def conserves_def)

lemma sweep_loop_ok:
  assumes "broker_inv b" "distinct ids" "set ids \<subseteq> fst ` set (leases b)"
  shows "\<exists>b'. sweep_loop ids n b = Some (n + length ids, b') \<and> lane_move b b' \<and>
           leases b' = filter (\<lambda>p. fst p \<notin> set ids) (leases b) \<and>
           leaseExpired b' = leaseExpired b + int (length ids)"
  using assms
proof (induction ids arbitrary: b n)
  case Nil
  then show ?case by (simp add: lane_move_refl)
next
  case (Cons i ids)
  from requeueLease_ok [of b i] Cons.prems obtain b1 where
    b1: "requeueLease i b = Some b1" "lane_move b b1" "leases b1 = AList.delete i (leases b)" by auto
  let ?b = "b1\<lparr>leaseExpired := leaseExpired b1 + 1\<rparr>"
  have mv: "lane_move b ?b" using b1(2) by (rule lane_move_expired)
  have "set ids \<subseteq> fst ` set (leases ?b)"
    using Cons.prems(2,3) b1(3) by (force simp: delete_set)
  with Cons.IH [of ?b "Suc n"] Cons.prems(2) lane_move_broker_inv [OF mv] obtain b2 where
    b2: "sweep_loop ids (Suc n) ?b = Some (Suc n + length ids, b2)" "lane_move ?b b2"
    "leases b2 = filter (\<lambda>p. fst p \<notin> set ids) (leases ?b)"
    "leaseExpired b2 = leaseExpired ?b + int (length ids)"
    by auto
  have "leaseExpired b1 = leaseExpired b"
    using b1(1) by (auto simp: requeueLease_def requeue_def readClock_def signalSpace_def Let_def
      split: if_splits Option.bind_splits)
  with b1 b2 show ?case
    using lane_move_trans [OF mv b2(2)]
    by (auto simp: AList.delete_eq intro!: filter_cong)
qed

end
