(* ===== verification/Broker_Ops.thy ===== *)
theory Broker_Ops
  imports Broker_Inv
begin

text \<open>
  Preservation of the broker invariants by the operations of the \<open>Store\<close> interface: leasing,
  acknowledging, releasing, sweeping, admission and dead-letter replay. Every operation is shown
  to be total (no panic) on a well-formed broker.
\<close>

section \<open>Lease\<close>

definition vis_ticks :: "Broker \<Rightarrow> nat" where
  "vis_ticks b = (if retry b = [] then ticks b else Suc (ticks b))"

definition head_visible :: "Broker \<Rightarrow> bool" where
  "head_visible b \<longleftrightarrow> retry b \<noteq> [] \<and> visibleAt (hd (retry b)) \<le> now b (ticks b)"

lemma headVisible_eq: "headVisible b = (head_visible b, b\<lparr>ticks := vis_ticks b\<rparr>)"
  by (cases "retry b") (auto simp: headVisible_def head_visible_def vis_ticks_def readClock_def not_less)

lemma Lease_cases:
  assumes "broker_inv b"
  obtains (retried) it h where "head_visible b" "heap_Pop retryLess (retry b) = Some (it, h)"
      "Lease c b = Some (leaseEntry c (ri_e it) (b\<lparr>ticks := vis_ticks b, retry := h\<rparr>))"
  | (fresh) e xs d where "\<not> head_visible b" "ring_content (main b) = e # xs"
      "ring_inv d" "ring_content d = xs" "ring_cap d = ring_cap (main b)"
      "Lease c b = Some (leaseEntry c e (b\<lparr>ticks := vis_ticks b, main := d\<rparr>))"
  | (idle) "\<not> head_visible b" "ring_content (main b) = []"
      "Lease c b = Some (None, b\<lparr>ticks := vis_ticks b\<rparr>)"
proof (cases "head_visible b")
  case True
  then have "heap_Pop retryLess (retry b) \<noteq> None"
    using assms retry_lane.pop_None [of "retry b"] by (auto simp: broker_inv_def head_visible_def)
  then obtain it h where "heap_Pop retryLess (retry b) = Some (it, h)" by auto
  with True show ?thesis by (intro retried) (simp_all add: Lease_def headVisible_eq)
next
  case False
  have "ring_inv (main b)" using assms by (simp add: broker_inv_def)
  then show ?thesis
  proof (cases rule: main_lane.pop_cases)
    case empty
    with False show ?thesis by (intro idle) (simp_all add: Lease_def headVisible_eq)
  next
    case (front e xs d)
    with False show ?thesis by (intro fresh) (simp_all add: Lease_def headVisible_eq)
  qed
qed

lemma leaseEntry_snd:
  "snd (leaseEntry c e b) = b\<lparr>ticks := Suc (ticks b),
     leases := AList.update (pbId (msg e))
       \<lparr>lr_e = \<lparr>msg = (msg e)\<lparr>pbDeliveryAttempts := attempts e + 1\<rparr>, attempts = attempts e + 1\<rparr>,
        consumer = c, deadline = now b (ticks b) + LeaseTTL (cfg b)\<rparr> (leases b)\<rparr>"
  "fst (leaseEntry c e b) = Some ((msg e)\<lparr>pbDeliveryAttempts := attempts e + 1\<rparr>)"
  by (simp_all add: leaseEntry_def readClock_def Let_def)

lemma update_keys_inv:
  assumes "\<forall>(i, r) \<in> set ls. P i r" "P k v"
  shows "\<forall>(i, r) \<in> set (AList.update k v ls). P i r"
  using assms by (induction ls) auto

lemma leaseEntry_broker_inv:
  assumes "broker_inv b" "int (used b) < Capacity (cfg b)"
  shows "broker_inv (snd (leaseEntry c e b))"
proof -
  define v where "v = \<lparr>lr_e = \<lparr>msg = (msg e)\<lparr>pbDeliveryAttempts := attempts e + 1\<rparr>, attempts = attempts e + 1\<rparr>,
        consumer = c, deadline = now b (ticks b) + LeaseTTL (cfg b)\<rparr>"
  let ?ls = "AList.update (pbId (msg e)) v (leases b)"
  have "int (rcount (main b)) + int (length (retry b)) + int (length ?ls) \<le> Capacity (cfg b)"
    using assms(2) length_update_le [of "pbId (msg e)" v "leases b"] by (simp add: used_eq)
  moreover have "\<forall>(i, r) \<in> set ?ls. pbId (msg (lr_e r)) = i"
    using assms(1) by (intro update_keys_inv) (auto simp: broker_inv_def v_def)
  moreover have "distinct (map fst ?ls)"
    using assms(1) by (intro distinct_update) (simp add: broker_inv_def)
  ultimately show ?thesis
    using assms(1) by (simp add: broker_inv_def leaseEntry_snd used_eq v_def)
qed

lemma leaseEntry_attempts:
  assumes "attempts_inv b" "attempts e < MaxDeliveries (cfg b)"
  shows "attempts_inv (snd (leaseEntry c e b))"
proof -
  let ?a = "attempts e + 1"
  have a: "0 < ?a" "?a \<le> MaxDeliveries (cfg b)"
    using word_succ_nonzero [OF assms(2)] inc_le [OF assms(2)] by (simp_all add: word_gt_0)
  define v where "v = \<lparr>lr_e = \<lparr>msg = (msg e)\<lparr>pbDeliveryAttempts := ?a\<rparr>, attempts = ?a\<rparr>,
        consumer = c, deadline = now b (ticks b) + LeaseTTL (cfg b)\<rparr>"
  have "\<forall>(i, r) \<in> set (AList.update (pbId (msg e)) v (leases b)). 0 < attempts (lr_e r) \<and>
      attempts (lr_e r) \<le> MaxDeliveries (cfg b) \<and> pbDeliveryAttempts (msg (lr_e r)) = attempts (lr_e r)"
    using assms(1) a by (intro update_keys_inv) (simp_all add: attempts_inv_def v_def)
  with assms(1) show ?thesis by (simp add: attempts_inv_def leaseEntry_snd v_def)
qed

lemma leaseEntry_ids:
  assumes "pbId (msg e) \<notin> fst ` set (leases b)"
  shows "all_ids (snd (leaseEntry c e b)) = add_mset (pbId (msg e)) (all_ids b)"
    "used (snd (leaseEntry c e b)) = Suc (used b)"
  using assms by (simp_all add: leaseEntry_snd update_fresh ids_defs used_eq)

lemma pop_retry:
  fixes t :: nat
  assumes "broker_inv b" "heap_Pop retryLess (retry b) = Some (it, h)"
  defines "b' \<equiv> b\<lparr>ticks := t, retry := h\<rparr>"
  shows "broker_inv b'" "Suc (used b') = used b" "attempts_inv b \<Longrightarrow> attempts_inv b'"
    "all_ids b = add_mset (pbId (msg (ri_e it))) (all_ids b')" "it \<in> set (retry b)"
proof -
  have h: "heap_inv retryKey (retry b)" using assms(1) by (simp add: broker_inv_def)
  note p = retry_lane.pop_invar [OF h assms(2)] retry_lane.pop_items [OF h assms(2)]
  have len: "length (retry b) = Suc (length h)" using p(2) by (metis size_add_mset size_mset)
  have st: "set (retry b) = insert it (set h)" using p(2) by (metis set_mset_add_mset_insert set_mset_mset)
  show "Suc (used b') = used b" using len by (simp add: b'_def used_eq)
  show "broker_inv b'" using assms(1) p(1) len by (simp add: broker_inv_def b'_def used_eq)
  show "attempts_inv b \<Longrightarrow> attempts_inv b'" using st by (simp add: attempts_inv_def b'_def)
  show "all_ids b = add_mset (pbId (msg (ri_e it))) (all_ids b')"
    using p(2) by (simp add: ids_defs b'_def)
  show "it \<in> set (retry b)" using st by simp
qed

lemma pop_main:
  fixes t :: nat
  assumes "broker_inv b" "ring_content (main b) = e # xs" "ring_inv d" "ring_content d = xs"
    "ring_cap d = ring_cap (main b)"
  defines "b' \<equiv> b\<lparr>ticks := t, main := d\<rparr>"
  shows "broker_inv b'" "Suc (used b') = used b" "attempts_inv b \<Longrightarrow> attempts_inv b'"
    "all_ids b = add_mset (pbId (msg e)) (all_ids b')"
proof -
  have len: "rcount (main b) = Suc (rcount d)" using assms(2,4) by (metis length_Cons length_ring_content)
  show "Suc (used b') = used b" using len by (simp add: b'_def used_eq)
  show "broker_inv b'" using assms(1,3,5) len by (simp add: broker_inv_def b'_def used_eq)
  show "attempts_inv b \<Longrightarrow> attempts_inv b'" using assms(2,4) by (simp add: attempts_inv_def b'_def)
  show "all_ids b = add_mset (pbId (msg e)) (all_ids b')"
    using assms(2,4) by (simp add: ids_defs b'_def)
qed

lemma fresh_key:
  assumes "ids_inv b" "all_ids b = add_mset i (all_ids b')" "leases b' = leases b"
  shows "i \<notin> fst ` set (leases b)"
proof
  assume "i \<in> fst ` set (leases b)"
  then have "i \<in># all_ids b'" using assms(3) by (auto simp: ids_defs)
  then have "1 \<le> count (all_ids b') i" by (simp add: Suc_le_eq)
  with assms(2) have "2 \<le> count (all_ids b) i" by simp
  with assms(1) show False unfolding ids_inv_def by (metis Suc_1 not_less_eq_eq)
qed

text \<open>
  A lease takes an entry out of a lane and puts it into the lease table: the budget in use does
  not change and no id appears or disappears.
\<close>

lemma lease_after_pop:
  fixes c :: uint64
  assumes inv: "broker_inv b" "broker_inv b1" "Suc (used b1) = used b"
    and ids: "all_ids b = add_mset (pbId (msg e)) (all_ids b1)" "leases b1 = leases b"
    and att: "attempts_inv b \<Longrightarrow> attempts_inv b1" "attempts_inv b \<Longrightarrow> attempts e < MaxDeliveries (cfg b1)"
    and frame: "cfg b1 = cfg b" "now b1 = now b" "nextID b1 = nextID b" "closed b1 = closed b"
      "notify b1 = notify b" "droppedOverflow b1 = droppedOverflow b" "dlqEvicted b1 = dlqEvicted b"
      "spaceCh b1 = spaceCh b" "ticks b \<le> ticks b1"
  defines "b' \<equiv> snd (leaseEntry c e b1)"
  shows "broker_inv b' \<and> (attempts_inv b \<longrightarrow> attempts_inv b') \<and>
     (ids_inv b \<longrightarrow> lane_move b b' \<and> all_ids b' = all_ids b)"
proof -
  have room: "int (used b1) < Capacity (cfg b1)"
    using inv(1,3) frame(1) by (simp add: broker_inv_def)
  have bi: "broker_inv b'"
    unfolding b'_def using inv(2) room by (rule leaseEntry_broker_inv)
  have ai: "attempts_inv b \<longrightarrow> attempts_inv b'"
    unfolding b'_def using att leaseEntry_attempts by blast
  have "lane_move b b' \<and> all_ids b' = all_ids b" if "ids_inv b"
  proof -
    have "pbId (msg e) \<notin> fst ` set (leases b1)"
      using fresh_key [OF that ids] ids(2) by simp
    from leaseEntry_ids [OF this, of c] have *: "all_ids b' = all_ids b" "used b' = used b"
      using ids(1) inv(3) by (simp_all add: b'_def)
    then have "conserves {#} {#} b b'"
      using frame by (intro conserves_same) (simp_all add: b'_def leaseEntry_snd)
    with * bi ai frame show ?thesis by (simp add: lane_move_def) (simp add: b'_def leaseEntry_snd)
  qed
  with bi ai show ?thesis by blast
qed

lemma Lease_ok:
  assumes "broker_inv b"
  shows "\<exists>r b'. Lease c b = Some (r, b') \<and> broker_inv b' \<and> (attempts_inv b \<longrightarrow> attempts_inv b') \<and>
     (ids_inv b \<longrightarrow> lane_move b b' \<and> all_ids b' = all_ids b)"
  using assms
proof (cases rule: Lease_cases [where c = c])
  case (retried it h)
  let ?b = "b\<lparr>ticks := vis_ticks b, retry := h\<rparr>"
  note p = pop_retry(1-4) [OF assms retried(2), where t = "vis_ticks b"] pop_retry(5) [OF assms retried(2)]
  have "attempts_inv b \<Longrightarrow> attempts (ri_e it) < MaxDeliveries (cfg ?b)"
    using p(5) by (simp add: attempts_inv_def)
  from lease_after_pop [OF assms p(1,2,4) _ p(3) this, of c] retried(3) show ?thesis
    by (cases "leaseEntry c (ri_e it) ?b") (simp add: vis_ticks_def)
next
  case (fresh e xs d)
  let ?b = "b\<lparr>ticks := vis_ticks b, main := d\<rparr>"
  note p = pop_main [OF assms fresh(2,3,4,5), where t = "vis_ticks b"]
  have "attempts_inv b \<Longrightarrow> attempts e < MaxDeliveries (cfg ?b)"
    using fresh(2) by (simp add: attempts_inv_def word_gt_0)
  from lease_after_pop [OF assms p(1,2,4) _ p(3) this, of c] fresh(6) show ?thesis
    by (cases "leaseEntry c e ?b") (simp add: vis_ticks_def)
next
  case idle
  with assms show ?thesis by (simp add: lane_move_def conserves_def vis_ticks_def)
qed

section \<open>Acknowledging, releasing and sweeping\<close>

lemma Ack_ok:
  assumes "broker_inv b"
  shows "Ack i c b =
     (case map_of (leases b) i of
        Some rec \<Rightarrow> if consumer rec = c
          then (True, b\<lparr>leases := AList.delete i (leases b), spaceCh := Suc (spaceCh b)\<rparr>) else (False, b)
      | None \<Rightarrow> (False, b))"
    "broker_inv (snd (Ack i c b))" "attempts_inv b \<Longrightarrow> attempts_inv (snd (Ack i c b))"
    "fst (Ack i c b) \<Longrightarrow> all_ids b = add_mset i (all_ids (snd (Ack i c b)))"
    "\<not> fst (Ack i c b) \<Longrightarrow> snd (Ack i c b) = b"
  using assms delete_lease [OF assms, of i] all_ids_delete [OF assms, of i]
  by (auto simp: Ack_def signalSpace_def split: option.splits)

lemma ReleaseLease_ok:
  assumes "broker_inv b"
  shows "\<exists>r b'. ReleaseLease i c b = Some (r, b') \<and> lane_move b b'"
  using assms lane_move_refl [OF assms] requeueLease_total [OF assms, of i _ 0]
  by (fastforce simp: ReleaseLease_def split: option.splits)

lemma SweepExpired_ok:
  assumes "broker_inv b"
  shows "\<exists>b'. SweepExpired b = Some (length (expiredIds (now b (ticks b)) (leases b)),
            expiredIds (now b (ticks b)) (leases b) \<noteq> [] \<and> notify b, b') \<and>
          lane_move b b' \<and>
          leases b' = filter (\<lambda>(i, r). now b (ticks b) < deadline r) (leases b) \<and>
          leaseExpired b' = leaseExpired b + int (length (expiredIds (now b (ticks b)) (leases b)))"
proof -
  let ?t = "now b (ticks b)" and ?b = "b\<lparr>ticks := Suc (ticks b)\<rparr>"
  let ?ids = "expiredIds ?t (leases b)"
  have dk: "distinct (map fst (leases b))" using assms by (simp add: broker_inv_def)
  then have "distinct ?ids" by (simp add: expiredIds_def distinct_filter_fst)
  moreover have "set ?ids \<subseteq> fst ` set (leases ?b)" by (force simp: set_expiredIds)
  ultimately obtain b' where b': "sweep_loop ?ids 0 ?b = Some (length ?ids, b')" "lane_move ?b b'"
    "leases b' = filter (\<lambda>p. fst p \<notin> set ?ids) (leases b)"
    "leaseExpired b' = leaseExpired b + int (length ?ids)"
    using sweep_loop_ok [of ?b ?ids 0] assms by auto
  have "lane_move b ?b" using assms by (simp add: lane_move_def conserves_def)
  with b'(2) have mv: "lane_move b b'" by (rule lane_move_trans [rotated])
  have "leases b' = filter (\<lambda>(i, r). ?t < deadline r) (leases b)"
    unfolding b'(3) set_expiredIds using filter_not_keys [OF dk, of "\<lambda>r. deadline r \<le> ?t"]
    by (simp add: not_le)
  with b' mv show ?thesis
    by (simp add: SweepExpired_def readClock_def lane_move_def)
qed

lemma sweeper_check_ok:
  assumes "broker_inv b"
  shows "lane_move b (snd (sweeper_check b))"
  using assms by (simp add: sweeper_check_def headVisible_eq lane_move_def conserves_def vis_ticks_def)

section \<open>Admission\<close>

lemma push_main:
  assumes "broker_inv b" "int (used b) < Capacity (cfg b)"
  obtains d where "deque_pushBack e (main b) = Some d" "ring_inv d"
    "ring_content d = ring_content (main b) @ [e]" "ring_cap d = ring_cap (main b)"
proof -
  have "ring_inv (main b)" "length (ring_content (main b)) < ring_cap (main b)"
    using assms by (simp_all add: broker_inv_def used_eq)
  from main_lane.push_room [OF this, of e] that show ?thesis by blast
qed

lemma pushed_main:
  assumes "broker_inv b" "int (used b) < Capacity (cfg b)" "ring_inv d"
    "ring_content d = ring_content (main b) @ [e]" "ring_cap d = ring_cap (main b)"
  shows "broker_inv (b\<lparr>main := d\<rparr>)" "used (b\<lparr>main := d\<rparr>) = Suc (used b)"
    "all_ids (b\<lparr>main := d\<rparr>) = add_mset (pbId (msg e)) (all_ids b)"
    "attempts_inv b \<Longrightarrow> attempts e = 0 \<Longrightarrow> attempts_inv (b\<lparr>main := d\<rparr>)"
proof -
  have "rcount d = Suc (rcount (main b))"
    using arg_cong [OF assms(4), of length] by simp
  then show u: "used (b\<lparr>main := d\<rparr>) = Suc (used b)" by (simp add: used_eq)
  show "broker_inv (b\<lparr>main := d\<rparr>)"
    using assms(1,2,3,5) u by (simp add: broker_inv_def)
  show "all_ids (b\<lparr>main := d\<rparr>) = add_mset (pbId (msg e)) (all_ids b)"
    using assms(4) by (simp add: ids_defs)
  show "attempts_inv b \<Longrightarrow> attempts e = 0 \<Longrightarrow> attempts_inv (b\<lparr>main := d\<rparr>)"
    using assms(4) by (simp add: attempts_inv_def)
qed

text \<open>The outcome of an admission: the message got the next id and is last in the main lane.\<close>

definition admitted :: "TelemetryMessage \<Rightarrow> Broker \<Rightarrow> Broker \<Rightarrow> bool" where
  "admitted m b b' \<longleftrightarrow>
     (\<exists>d. b' = b\<lparr>nextID := nextID b + 1, main := d\<rparr> \<and>
        ring_content d = ring_content (main b) @ [\<lparr>msg = m\<lparr>pbId := nextID b + 1\<rparr>, attempts = 0\<rparr>]) \<and>
     broker_inv b' \<and> (attempts_inv b \<longrightarrow> attempts_inv b') \<and>
     all_ids b' = add_mset (nextID b + 1) (all_ids b) \<and> used b' = Suc (used b)"

lemma next_upd [simp]:
  "broker_inv (b\<lparr>nextID := n\<rparr>) = broker_inv b" "attempts_inv (b\<lparr>nextID := n\<rparr>) = attempts_inv b"
  "used (b\<lparr>nextID := n\<rparr>) = used b" "all_ids (b\<lparr>nextID := n\<rparr>) = all_ids b"
  by (simp_all add: broker_inv_def attempts_inv_def used_eq ids_defs)

lemma admit_ok:
  assumes "broker_inv b" "int (used b) < Capacity (cfg b)"
  shows "\<exists>b'. admit m b = Some (Admitted (m\<lparr>pbId := nextID b + 1\<rparr>), b') \<and> admitted m b b'"
proof -
  let ?e = "\<lparr>msg = m\<lparr>pbId := nextID b + 1\<rparr>, attempts = 0\<rparr>"
  from push_main [OF assms, of ?e] obtain d where
    d: "deque_pushBack ?e (main b) = Some d" "ring_inv d"
      "ring_content d = ring_content (main b) @ [?e]" "ring_cap d = ring_cap (main b)" by blast
  let ?b = "b\<lparr>nextID := nextID b + 1, main := d\<rparr>"
  have eq: "?b = (b\<lparr>main := d\<rparr>)\<lparr>nextID := nextID b + 1\<rparr>" by simp
  note p = pushed_main [OF assms d(2,3,4)]
  have "admitted m b ?b"
    unfolding admitted_def
  proof (intro conjI exI [of _ d])
    show "broker_inv ?b" "attempts_inv b \<longrightarrow> attempts_inv ?b" "used ?b = Suc (used b)"
      "all_ids ?b = add_mset (nextID b + 1) (all_ids b)"
      unfolding eq using p by simp_all
  qed (use d in simp_all)
  with d show ?thesis by (simp add: admit_def Let_def)
qed

lemma Enqueue_pass_cases:
  assumes "broker_inv b"
  obtains (closed) "closed b" "Enqueue_pass m b = Some (Refused ErrClosed, b)"
  | (room) b' where "\<not> closed b" "int (used b) < Capacity (cfg b)"
      "Enqueue_pass m b = Some (Admitted (m\<lparr>pbId := nextID b + 1\<rparr>), b')" "admitted m b b'"
  | (evict) e xs d b1 b' where "\<not> closed b" "int (used b) = Capacity (cfg b)"
      "Policy (cfg b) = PolicyDropOldest" "ring_content (main b) = e # xs"
      "b1 = b\<lparr>main := d, droppedOverflow := droppedOverflow b + 1\<rparr>" "broker_inv b1"
      "ring_content d = xs" "Suc (used b1) = used b"
      "all_ids b = add_mset (pbId (msg e)) (all_ids b1)" "attempts_inv b \<Longrightarrow> attempts_inv b1"
      "Enqueue_pass m b = Some (Admitted (m\<lparr>pbId := nextID b + 1\<rparr>), b')" "admitted m b1 b'"
  | (exhausted) "\<not> closed b" "int (used b) = Capacity (cfg b)" "Policy (cfg b) = PolicyDropOldest"
      "ring_content (main b) = []"
      "Enqueue_pass m b = Some (Refused ErrFull, b\<lparr>rejected := rejected b + 1\<rparr>)"
  | (park) "\<not> closed b" "int (used b) = Capacity (cfg b)" "Policy (cfg b) = PolicyBlock"
      "Enqueue_pass m b = Some (Parked (spaceCh b), b)"
  | (reject) "\<not> closed b" "int (used b) = Capacity (cfg b)"
      "Policy (cfg b) \<noteq> PolicyDropOldest" "Policy (cfg b) \<noteq> PolicyBlock"
      "Enqueue_pass m b = Some (Refused ErrFull, b\<lparr>rejected := rejected b + 1\<rparr>)"
proof -
  have le: "int (used b) \<le> Capacity (cfg b)" using assms by (simp add: broker_inv_def)
  consider "closed b" | "\<not> closed b" "int (used b) < Capacity (cfg b)"
    | "\<not> closed b" "int (used b) = Capacity (cfg b)" "Policy (cfg b) = PolicyDropOldest"
    | "\<not> closed b" "int (used b) = Capacity (cfg b)" "Policy (cfg b) = PolicyBlock"
    | "\<not> closed b" "int (used b) = Capacity (cfg b)" "Policy (cfg b) \<noteq> PolicyDropOldest"
      "Policy (cfg b) \<noteq> PolicyBlock"
    using le by linarith
  then show ?thesis
  proof cases
    case 1
    then show ?thesis by (intro closed) (simp_all add: Enqueue_pass.simps [of m b])
  next
    case 2
    from admit_ok [OF assms 2(2), of m] obtain b' where
      "admit m b = Some (Admitted (m\<lparr>pbId := nextID b + 1\<rparr>), b')" "admitted m b b'" by blast
    with 2 show ?thesis by (intro room) (simp_all add: Enqueue_pass.simps [of m b])
  next
    case 3
    have "ring_inv (main b)" using assms by (simp add: broker_inv_def)
    then show ?thesis
    proof (cases rule: main_lane.pop_cases)
      case empty
      with 3 show ?thesis by (intro exhausted) (simp_all add: Enqueue_pass.simps [of m b])
    next
      case (front e xs d)
      note p = pop_main [OF assms front(1,3,4,5), where t = "ticks b"]
      let ?b = "b\<lparr>main := d, droppedOverflow := droppedOverflow b + 1\<rparr>"
      have q: "broker_inv ?b" "Suc (used ?b) = used b" "attempts_inv b \<Longrightarrow> attempts_inv ?b"
        "all_ids b = add_mset (pbId (msg e)) (all_ids ?b)"
        using p by (simp_all add: broker_inv_def attempts_inv_def used_eq ids_defs)
      then have "int (used ?b) < Capacity (cfg ?b)" using 3 by simp
      from admit_ok [OF q(1) this, of m] obtain b' where
        b': "admit m ?b = Some (Admitted (m\<lparr>pbId := nextID b + 1\<rparr>), b')" "admitted m ?b b'" by auto
      have "Enqueue_pass m b = Enqueue_pass m ?b"
        using 3 front by (simp add: Enqueue_pass.simps [of m b] PolicyDropOldest_def)
      also have "\<dots> = admit m ?b"
        using 3 q(2) by (simp add: Enqueue_pass.simps [of m ?b])
      finally show ?thesis
        using evict [OF 3(1,2,3) front(1) refl q(1) front(4) q(2,4,3) _ b'(2)] b'(1) by simp
    qed
  next
    case 4
    then show ?thesis
      by (intro park) (simp_all add: Enqueue_pass.simps [of m b] policy_defs)
  next
    case 5
    then show ?thesis by (intro reject) (simp_all add: Enqueue_pass.simps [of m b])
  qed
qed

section \<open>Dead-letter replay\<close>

definition replay_count :: "Broker \<Rightarrow> nat" where
  "replay_count b = min (dlqRing_len (dlq b)) (nat (Capacity (cfg b)) - used b)"

definition fresh_start :: "dlqItem \<Rightarrow> entry" where
  "fresh_start it = (di_e it)\<lparr>attempts := 0\<rparr>"

lemma replay_step:
  assumes "broker_inv b" "int (used b) < Capacity (cfg b)"
    and r: "ring_content (dlq b) = it # xs" "ring_inv r" "ring_content r = xs" "ring_cap r = ring_cap (dlq b)"
    and d: "ring_inv d" "ring_content d = ring_content (main b) @ [fresh_start it]"
      "ring_cap d = ring_cap (main b)"
  defines "b' \<equiv> b\<lparr>dlq := r, main := d\<rparr>"
  shows "broker_inv b'" "used b' = Suc (used b)" "all_ids b' = all_ids b"
    "attempts_inv b \<Longrightarrow> attempts_inv b'" "replay_count b = Suc (replay_count b')"
proof -
  have eq: "b' = b\<lparr>main := d, dlq := r\<rparr>" by (simp add: b'_def)
  note p = pushed_main [OF assms(1,2) d]
  show u: "used b' = Suc (used b)" using p(2) by (simp add: eq used_eq)
  show "broker_inv b'"
    using p(1) r(2,4) by (simp add: broker_inv_def eq used_eq)
  show "all_ids b' = all_ids b"
    using r(1,3) d(2) by (simp add: ids_defs eq fresh_start_def)
  show "attempts_inv b'" if a: "attempts_inv b"
    using a r(1,3) d(2) by (simp add: attempts_inv_def eq fresh_start_def)
  have c: "rcount (dlq b) = Suc (rcount r)" using r(1,3) by (metis length_Cons length_ring_content)
  have "0 < nat (Capacity (cfg b)) - used b" using assms(2) by linarith
  then obtain k where "nat (Capacity (cfg b)) - used b = Suc k" using gr0_implies_Suc by blast
  moreover have "cfg b' = cfg b" by (simp add: eq)
  ultimately show "replay_count b = Suc (replay_count b')"
    using u c by (simp add: replay_count_def dlqRing_len_def) (simp add: eq)
qed

lemma DLQReplay_loop_ok:
  assumes "broker_inv b"
  shows "\<exists>d r b'. DLQReplay_loop n b = Some (n + replay_count b, b') \<and> b' = b\<lparr>dlq := r, main := d\<rparr> \<and>
     broker_inv b' \<and> (attempts_inv b \<longrightarrow> attempts_inv b') \<and> all_ids b' = all_ids b \<and>
     used b' = used b + replay_count b \<and>
     ring_content d = ring_content (main b) @ map fresh_start (take (replay_count b) (ring_content (dlq b))) \<and>
     ring_content r = drop (replay_count b) (ring_content (dlq b))"
  using assms
proof (induction "rcount (dlq b)" arbitrary: n b rule: less_induct)
  case (less b)
  have stop: ?case if "replay_count b = 0" "DLQReplay_loop n b = Some (n, b)"
    using that less.prems by (intro exI [of _ "main b"] exI [of _ "dlq b"] exI [of _ b]) simp
  show ?case
  proof (cases "int (used b) < Capacity (cfg b)")
    case False
    then have "replay_count b = 0" by (simp add: replay_count_def)
    with False show ?thesis by (intro stop) (simp_all add: DLQReplay_loop.simps [of n b])
  next
    case True
    have "ring_inv (dlq b)" using less.prems by (simp add: broker_inv_def)
    then show ?thesis
    proof (cases rule: dlq_lane.pop_cases)
      case empty
      then have "replay_count b = 0" by (simp add: replay_count_def dlqRing_len_def)
      with True empty show ?thesis by (intro stop) (simp_all add: DLQReplay_loop.simps [of n b])
    next
      case (front it xs r)
      from push_main [OF less.prems True, of "fresh_start it"] obtain d where
        d: "deque_pushBack (fresh_start it) (main b) = Some d" "ring_inv d"
          "ring_content d = ring_content (main b) @ [fresh_start it]" "ring_cap d = ring_cap (main b)"
        by blast
      let ?b = "b\<lparr>dlq := r, main := d\<rparr>"
      note s = replay_step [OF less.prems True front(1,3,4,5) d(2,3,4)]
      have "rcount r < rcount (dlq b)"
        using front(1,4) by (metis length_Cons length_ring_content lessI)
      with less.hyps [of ?b "Suc n"] s(1) obtain d' r' b' where
        b': "DLQReplay_loop (Suc n) ?b = Some (Suc n + replay_count ?b, b')"
          "b' = ?b\<lparr>dlq := r', main := d'\<rparr>" "broker_inv b'" "attempts_inv ?b \<longrightarrow> attempts_inv b'"
          "all_ids b' = all_ids ?b" "used b' = used ?b + replay_count ?b"
          "ring_content d' = ring_content d @ map fresh_start (take (replay_count ?b) xs)"
          "ring_content r' = drop (replay_count ?b) xs"
        using front(4) by auto
      have "DLQReplay_loop n b = DLQReplay_loop (Suc n) ?b"
        using True front(2) d(1) by (simp add: DLQReplay_loop.simps [of n b] fresh_start_def)
      with b' s front(1) d(3) show ?thesis
        by (intro exI [of _ d'] exI [of _ r'] exI [of _ b']) simp
    qed
  qed
qed

lemma DLQReplay_ok:
  assumes "broker_inv b"
  obtains d r b' where "DLQReplay b = Some (replay_count b, b')" "b' = b\<lparr>dlq := r, main := d\<rparr>"
    "broker_inv b'" "attempts_inv b \<Longrightarrow> attempts_inv b'" "all_ids b' = all_ids b"
    "used b' = used b + replay_count b"
    "ring_content d = ring_content (main b) @ map fresh_start (take (replay_count b) (ring_content (dlq b)))"
    "ring_content r = drop (replay_count b) (ring_content (dlq b))"
  using DLQReplay_loop_ok [OF assms, of 0] that by (auto simp: DLQReplay_def)

section \<open>Dead-letter listing\<close>

lemma dlqRing_list_loop_ok:
  assumes "ring_inv r" "i + n \<le> rcount r"
  shows "dlqRing_list_loop r i n = Some (map toDLQEntry (take n (drop i (ring_content r))))"
  using assms(2)
proof (induction n arbitrary: i)
  case (Suc n)
  have i: "i < rcount r" "i < length (rbuf r)"
    using Suc.prems assms(1) by (simp_all add: ring_inv_def)
  then obtain it where it: "ring_slot r i = Some it"
    using assms(1) unfolding ring_inv_def by blast
  then have "ring_content r ! i = it" using i(1) by (simp add: ring_content_nth)
  then have "drop i (ring_content r) = it # drop (Suc i) (ring_content r)"
    using i(1) Cons_nth_drop_Suc [of i "ring_content r"] by simp
  moreover have "(rhead r + i) mod length (rbuf r) < length (rbuf r)"
    using i(2) by (intro mod_less_divisor) linarith
  then have "index (rbuf r) ((rhead r + i) mod length (rbuf r)) = Some (Some it)"
    using it by (simp add: ring_slot_def index_def)
  ultimately show ?case using Suc.IH [of "Suc i"] Suc.prems by simp
qed simp

lemma DLQList_ok:
  assumes "broker_inv b"
  shows "DLQList limit b = Some (map toDLQEntry
     (if 0 < limit then take (nat limit) (ring_content (dlq b)) else ring_content (dlq b)))"
proof -
  have "ring_inv (dlq b)" using assms by (simp add: broker_inv_def)
  then show ?thesis
    by (simp add: DLQList_def dlqRing_list_def dlqRing_list_loop_ok nat_less_iff)
qed

end
