(* ===== verification/Broker_Safety.thy ===== *)
theory Broker_Safety
  imports Broker_Ops
begin

text \<open>
  The broker as a state machine. Every locked section of \<open>internal/queue/broker.go\<close> is one step,
  so a run is any interleaving of the operations of any number of producers, consumers, operators
  and the sweeper (a producer parked by the block policy contributes one \<open>OpEnqueue\<close> step per
  wake-up, or one \<open>OpTimeout\<close> step). A run keeps the history of its operations and results,
  from which the admitted and the acknowledged ids are read.
\<close>

section \<open>Steps and runs\<close>

datatype op =
    OpEnqueue TelemetryMessage
  | OpTimeout TelemetryMessage
  | OpLease uint64
  | OpAck uint64 uint64
  | OpReleaseLease uint64 uint64
  | OpReleaseConsumer uint64
  | OpDLQReplay
  | OpSweepExpired
  | OpTick
  | OpSetNotify
  | OpClose

datatype op_result =
    REnq enq_pass
  | RMsg "TelemetryMessage option"
  | RBool bool
  | RCount nat
  | RDone

fun exec :: "op \<Rightarrow> Broker \<Rightarrow> (op_result \<times> Broker) option" where
  "exec (OpEnqueue m) b = map_option (apfst REnq) (Enqueue_pass m b)"
| "exec (OpTimeout m) b = map_option (apfst REnq) (Enqueue_wake TimedOut m b)"
| "exec (OpLease c) b = map_option (apfst RMsg) (Lease c b)"
| "exec (OpAck i c) b = Some (apfst RBool (Ack i c b))"
| "exec (OpReleaseLease i c) b = map_option (apfst RBool) (ReleaseLease i c b)"
| "exec (OpReleaseConsumer c) b = map_option (apfst RCount) (ReleaseConsumer c b)"
| "exec OpDLQReplay b = map_option (apfst RCount) (DLQReplay b)"
| "exec OpSweepExpired b = map_option (\<lambda>(n, _, b). (RCount n, b)) (SweepExpired b)"
| "exec OpTick b = Some (RDone, snd (sweeper_check b))"
| "exec OpSetNotify b = Some (RDone, SetNotify b)"
| "exec OpClose b = Some (RDone, Close b)"

type_synonym history = "(op \<times> op_result) list"

fun admits :: "op \<times> op_result \<Rightarrow> uint64 multiset" where
  "admits (OpEnqueue _, REnq (Admitted m)) = {#pbId m#}"
| "admits _ = {#}"

fun acks :: "op \<times> op_result \<Rightarrow> uint64 multiset" where
  "acks (OpAck i _, RBool True) = {#i#}"
| "acks _ = {#}"

definition admitted_ids :: "history \<Rightarrow> uint64 multiset" where
  "admitted_ids h = (\<Sum>\<^sub># (image_mset admits (mset h)))"

definition acked_ids :: "history \<Rightarrow> uint64 multiset" where
  "acked_ids h = (\<Sum>\<^sub># (image_mset acks (mset h)))"

inductive broker_run :: "(nat \<Rightarrow> gotime) \<Rightarrow> BrokerConfig \<Rightarrow> history \<Rightarrow> Broker \<Rightarrow> bool"
  for time_Now c where
  init: "NewBroker time_Now c = Some b \<Longrightarrow> broker_run time_Now c [] b"
| step: "broker_run time_Now c h b \<Longrightarrow> exec p b = Some (r, b') \<Longrightarrow>
    broker_run time_Now c ((p, r) # h) b'"

inductive_cases broker_run_NilE: "broker_run tn c [] b"
inductive_cases broker_run_ConsE: "broker_run tn c (x # h) b"

lemma history_ids [simp]:
  "admitted_ids [] = {#}" "acked_ids [] = {#}"
  "admitted_ids (x # h) = admits x + admitted_ids h" "acked_ids (x # h) = acks x + acked_ids h"
  by (simp_all add: admitted_ids_def acked_ids_def)

section \<open>What one step does\<close>

definition step_ok :: "uint64 multiset \<Rightarrow> uint64 multiset \<Rightarrow> Broker \<Rightarrow> Broker \<Rightarrow> bool" where
  "step_ok adm ack b b' \<longleftrightarrow>
     conserves adm ack b b' \<and>
     (adm = {#} \<and> nextID b' = nextID b \<or> adm = {#nextID b + 1#} \<and> nextID b' = nextID b + 1) \<and>
     spaceCh b \<le> spaceCh b' \<and>
     (used b' < used b \<or> closed b' \<and> \<not> closed b \<longrightarrow> spaceCh b < spaceCh b') \<and>
     (closed b \<longrightarrow> closed b') \<and>
     (Policy (cfg b) \<noteq> PolicyDropOldest \<longrightarrow> droppedOverflow b' = droppedOverflow b)"

text \<open>Every step keeps the invariants, whatever the ids are; \<open>step_ok\<close> needs them distinct.\<close>

definition good_step :: "uint64 multiset \<Rightarrow> uint64 multiset \<Rightarrow> Broker \<Rightarrow> Broker \<Rightarrow> bool" where
  "good_step adm ack b b' \<longleftrightarrow>
     broker_inv b' \<and> (attempts_inv b \<longrightarrow> attempts_inv b') \<and> cfg b' = cfg b \<and> now b' = now b \<and>
     (ids_inv b \<longrightarrow> step_ok adm ack b b')"

lemma good_step_move: "lane_move b b' \<Longrightarrow> good_step {#} {#} b b'"
  by (auto simp: lane_move_def good_step_def step_ok_def)

lemma good_step_same:
  assumes "broker_inv b" "broker_inv b'" "attempts_inv b \<Longrightarrow> attempts_inv b'" "cfg b' = cfg b"
    "now b' = now b" "all_ids b' = all_ids b" "droppedOverflow b' = droppedOverflow b"
    "dlqEvicted b' = dlqEvicted b" "nextID b' = nextID b" "used b \<le> used b'" "spaceCh b \<le> spaceCh b'"
    "closed b \<Longrightarrow> closed b'" "closed b' \<Longrightarrow> \<not> closed b \<Longrightarrow> spaceCh b < spaceCh b'"
  shows "good_step {#} {#} b b'"
  using assms conserves_same [of b b'] by (auto simp: good_step_def step_ok_def)

lemma good_step_quiet: "broker_inv b \<Longrightarrow> good_step {#} {#} b b"
  "broker_inv b \<Longrightarrow> good_step {#} {#} b (b\<lparr>rejected := n\<rparr>)"
  by (rule good_step_same; simp)+

lemma good_step_admitted:
  assumes "admitted m b b'"
  shows "good_step {#nextID b + 1#} {#} b b'"
proof -
  from assms obtain d where b': "b' = b\<lparr>nextID := nextID b + 1, main := d\<rparr>"
    by (auto simp: admitted_def)
  have "conserves {#nextID b + 1#} {#} b b'"
    using assms by (simp add: conserves_def admitted_def) (simp add: b')
  with assms show ?thesis by (simp add: good_step_def step_ok_def admitted_def) (simp add: b')
qed

lemma exec_Enqueue:
  assumes "broker_inv b"
  shows "\<exists>r b'. exec (OpEnqueue m) b = Some (r, b') \<and>
           good_step (admits (OpEnqueue m, r)) (acks (OpEnqueue m, r)) b b'"
  using assms
proof (cases rule: Enqueue_pass_cases [where m = m])
  case (room b')
  with good_step_admitted [OF room(4)] show ?thesis by simp
next
  case (evict e xs d b1 b')
  note g = good_step_admitted [OF evict(12)]
  obtain d' where b': "b' = b1\<lparr>nextID := nextID b1 + 1, main := d'\<rparr>"
    using evict(12) by (auto simp: admitted_def)
  have u: "used b' = used b" "all_ids b' = add_mset (nextID b1 + 1) (all_ids b1)"
    using evict(8,12) by (simp_all add: admitted_def)
  have f: "nextID b1 = nextID b" "cfg b1 = cfg b" "now b1 = now b" "spaceCh b' = spaceCh b"
    "closed b' = closed b" "dlqEvicted b' = dlqEvicted b" "droppedOverflow b' = droppedOverflow b + 1"
    "nextID b' = nextID b + 1"
    by (simp_all add: evict(5) b')
  have "conserves {#nextID b + 1#} {#} b b'"
    unfolding conserves_def
    by (intro conjI exI [of _ "{#pbId (msg e)#}"]) (simp_all add: evict(9) u(2) f)
  then have "step_ok {#nextID b + 1#} {#} b b'"
    using evict(3) by (simp add: step_ok_def u f)
  with g evict(10,11) f show ?thesis by (simp add: good_step_def)
qed (use assms good_step_quiet in simp_all)

lemma Lease_frame: "Lease c b = Some (r, b') \<Longrightarrow> cfg b' = cfg b \<and> now b' = now b"
  by (auto simp: Lease_def headVisible_eq leaseEntry_def readClock_def Let_def
      split: if_splits Option.bind_splits)

lemma exec_Ack:
  assumes "broker_inv b"
  shows "good_step {#} (if fst (Ack i c b) then {#i#} else {#}) b (snd (Ack i c b))"
proof (cases "fst (Ack i c b)")
  case True
  define b' where "b' = snd (Ack i c b)"
  note a = Ack_ok [OF assms, of i c, folded b'_def]
  have b': "b' = b\<lparr>leases := AList.delete i (leases b), spaceCh := Suc (spaceCh b)\<rparr>"
    using True a(1) by (auto simp: b'_def split: option.splits if_splits)
  with True a(4) have "conserves {#} {#i#} b b'" by (simp add: conserves_def flip: b'_def)
  moreover have "cfg b' = cfg b" "now b' = now b" "nextID b' = nextID b" "closed b' = closed b"
    "droppedOverflow b' = droppedOverflow b" "spaceCh b' = Suc (spaceCh b)"
    using b' by simp_all
  ultimately show ?thesis
    using True a(2,3) by (simp add: good_step_def step_ok_def flip: b'_def)
next
  case False
  then show ?thesis using Ack_ok(5) [OF assms False] assms by (simp add: good_step_quiet)
qed

lemma exec_ok:
  assumes "broker_inv b"
  shows "\<exists>r b'. exec p b = Some (r, b') \<and> good_step (admits (p, r)) (acks (p, r)) b b'"
proof (cases p)
  case (OpEnqueue m)
  then show ?thesis using exec_Enqueue [OF assms] by simp
next
  case (OpTimeout m)
  then show ?thesis using assms by (simp add: Enqueue_wake_def good_step_quiet)
next
  case (OpLease c)
  from Lease_ok [OF assms, of c] obtain r b' where
    l: "Lease c b = Some (r, b')" "broker_inv b'" "attempts_inv b \<longrightarrow> attempts_inv b'"
      "ids_inv b \<longrightarrow> lane_move b b'" by blast
  then have "good_step {#} {#} b b'"
    using Lease_frame [OF l(1)] good_step_move [of b b'] by (auto simp: good_step_def)
  with OpLease l show ?thesis by simp
next
  case (OpAck i c)
  then show ?thesis
    using exec_Ack [OF assms, of i c] by (cases "Ack i c b"; cases "fst (Ack i c b)") simp_all
next
  case (OpReleaseLease i c)
  then show ?thesis using ReleaseLease_ok [OF assms, of i c] by (auto simp: good_step_move)
next
  case (OpReleaseConsumer c)
  then show ?thesis using ReleaseConsumer_ok [OF assms, of c] by (auto simp: good_step_move)
next
  case OpDLQReplay
  obtain d r b' where d: "DLQReplay b = Some (replay_count b, b')" "b' = b\<lparr>dlq := r, main := d\<rparr>"
    "broker_inv b'" "attempts_inv b \<Longrightarrow> attempts_inv b'" "all_ids b' = all_ids b"
    "used b' = used b + replay_count b"
    using DLQReplay_ok [OF assms] by metis
  have "good_step {#} {#} b b'"
    by (rule good_step_same [OF assms d(3,4)]) (simp_all add: d(5,6), simp_all add: d(2))
  with OpDLQReplay d(1) show ?thesis by simp
next
  case OpSweepExpired
  then show ?thesis using SweepExpired_ok [OF assms] by (auto simp: good_step_move)
next
  case OpTick
  then show ?thesis using sweeper_check_ok [OF assms] by (simp add: good_step_move)
next
  case OpSetNotify
  then show ?thesis using assms by (auto simp: SetNotify_def intro!: good_step_same)
next
  case OpClose
  then show ?thesis using assms by (auto simp: Close_def signalSpace_def intro!: good_step_same)
qed

section \<open>Invariants of runs\<close>

lemma NewBroker_cases:
  assumes "NewBroker tn c = Some b"
  shows "0 < Capacity c" "broker_inv b" "attempts_inv b" "all_ids b = {#}" "nextID b = 0"
    "cfg b = applyDefaults tn c" "droppedOverflow b = 0" "dlqEvicted b = 0" "now b = the (Clock (cfg b))"
proof -
  let ?c = "applyDefaults tn c"
  from assms show cap: "0 < Capacity c" by (simp add: NewBroker_def split: if_splits)
  then have b: "b = \<lparr>main = empty_ring (nat (Capacity ?c)), retry = [], dlq = empty_ring (nat (DLQCapacity ?c)),
      leases = [], nextID = 0, cfg = ?c, now = the (Clock ?c), ticks = 0,
      rejected = 0, droppedOverflow = 0, droppedRequeue = 0, deadLettered = 0, dlqEvicted = 0,
      leaseExpired = 0, notify = False, spaceCh = 0, sweepStop = False, closed = False\<rparr>"
    using assms by (auto simp: NewBroker_def newDeque_def newDLQRing_def Let_def split: if_splits)
  have "0 < Capacity ?c" "0 < DLQCapacity ?c" "MaxDeliveries ?c \<noteq> 0"
    using cap by (simp_all add: applyDefaults_def)
  then show "broker_inv b"
    by (simp add: b broker_inv_def used_eq empty_ring_def ring_cap_def heap_inv_def)
  show "attempts_inv b"
    using \<open>MaxDeliveries ?c \<noteq> 0\<close> by (simp add: b attempts_inv_def empty_ring_def)
  show "all_ids b = {#}" by (simp add: b ids_defs empty_ring_def)
  show "nextID b = 0" "cfg b = ?c" "droppedOverflow b = 0" "dlqEvicted b = 0" "now b = the (Clock (cfg b))" by (simp_all add: b)
qed

text \<open>A broker is constructed exactly when its capacity is positive and both rings can be allocated.\<close>

lemma NewBroker_Some:
  "(\<exists>b. NewBroker tn c = Some b) \<longleftrightarrow>
     0 < Capacity c \<and> 8 * Capacity c \<le> 2 ^ 48 \<and> 48 * DLQCapacity (applyDefaults tn c) \<le> 2 ^ 48"
proof -
  have "Capacity (applyDefaults tn c) = Capacity c" "0 < DLQCapacity (applyDefaults tn c)" by (simp_all add: applyDefaults_def)
  then show ?thesis
    by (auto simp: NewBroker_def newDeque_def newDLQRing_def make_ok_def maxAlloc_def Let_def split: if_splits)
qed

lemma run_inv:
  assumes "broker_run tn c h b"
  shows "broker_inv b \<and> attempts_inv b \<and> cfg b = applyDefaults tn c \<and> now b = the (Clock (cfg b))"
  using assms
proof (induction rule: broker_run.induct)
  case (init b)
  then show ?case using NewBroker_cases [OF init] by simp
next
  case (step h b p r b')
  from exec_ok [of b p] step.IH step.hyps(2) have "good_step (admits (p, r)) (acks (p, r)) b b'" by auto
  with step.IH show ?case by (simp add: good_step_def)
qed

lemma ids_inv_sub:
  assumes "ids_inv b" "all_ids b' \<subseteq># all_ids b" "nextID b \<le> nextID b'"
  shows "ids_inv b'"
  using assms unfolding ids_inv_def
  by (meson mset_subset_eqD mset_subset_eq_count order_trans)

lemma ids_inv_add:
  assumes "ids_inv b" "all_ids b' \<subseteq># add_mset (nextID b') (all_ids b)" "nextID b < nextID b'"
  shows "ids_inv b'"
proof -
  have "count (all_ids b') i \<le> 1" for i
  proof -
    have *: "count (all_ids b') i \<le> count (add_mset (nextID b') (all_ids b)) i"
      using assms(2) by (rule mset_subset_eq_count)
    show ?thesis
    proof (cases "i = nextID b'")
      case True
      then have "i \<notin># all_ids b" using assms(1,3) by (auto simp: ids_inv_def)
      with * True show ?thesis by (simp add: not_in_iff)
    next
      case False
      with * have "count (all_ids b') i \<le> count (all_ids b) i" by simp
      also have "\<dots> \<le> 1" using assms(1) by (simp add: ids_inv_def)
      finally show ?thesis .
    qed
  qed
  moreover have "i \<le> nextID b'" if "i \<in># all_ids b'" for i
    using mset_subset_eqD [OF assms(2) that] assms(1,3) by (auto simp: ids_inv_def)
  ultimately show ?thesis by (simp add: ids_inv_def)
qed

lemma step_ok_ids:
  assumes "step_ok adm ack b b'" "ids_inv b" "unat (nextID b) + 1 < 2 ^ 64"
  shows "ids_inv b'" "unat (nextID b') = unat (nextID b) + size adm"
proof -
  obtain ev where ev: "all_ids b + adm = all_ids b' + ack + ev"
    using assms(1) by (auto simp: step_ok_def conserves_def)
  then have sub: "all_ids b' \<subseteq># all_ids b + adm" by (simp add: ac_simps)
  have "(adm = {#} \<and> nextID b' = nextID b) \<or> (adm = {#nextID b + 1#} \<and> nextID b' = nextID b + 1)"
    using assms(1) by (simp add: step_ok_def)
  then have "ids_inv b' \<and> unat (nextID b') = unat (nextID b) + size adm"
  proof
    assume *: "adm = {#} \<and> nextID b' = nextID b"
    with sub ids_inv_sub [OF assms(2), of b'] show ?thesis by simp
  next
    assume *: "adm = {#nextID b + 1#} \<and> nextID b' = nextID b + 1"
    have u: "unat (nextID b + 1) = unat (nextID b) + 1"
      using assms(3) by (simp add: unat_word_ariths)
    then have "nextID b < nextID b'" using * by (simp add: word_less_nat_alt)
    with ids_inv_add [OF assms(2), of b'] sub * u show ?thesis by simp
  qed
  then show "ids_inv b'" "unat (nextID b') = unat (nextID b) + size adm" by simp_all
qed

text \<open>
  The ledger of a run: the ids handed out are \<open>1, 2, \<dots>\<close>, and each of them is held by exactly one
  lane, acknowledged, or evicted, with the evictions counted.
\<close>

definition ledger :: "history \<Rightarrow> Broker \<Rightarrow> bool" where
  "ledger h b \<longleftrightarrow>
     ids_inv b \<and>
     admitted_ids h = mset (map of_nat [1..<Suc (unat (nextID b))]) \<and>
     (\<exists>evicted. admitted_ids h = all_ids b + acked_ids h + evicted \<and>
        int (size evicted) = droppedOverflow b + dlqEvicted b)"

lemma admitted_next:
  assumes "step_ok adm ack b b'" "unat (nextID b) + 1 < 2 ^ 64"
  shows "adm + mset (map of_nat [1..<Suc (unat (nextID b))]) = mset (map of_nat [1..<Suc (unat (nextID b'))])"
proof -
  have "(adm = {#} \<and> nextID b' = nextID b) \<or> (adm = {#nextID b + 1#} \<and> nextID b' = nextID b + 1)"
    using assms(1) by (simp add: step_ok_def)
  then show ?thesis
  proof
    assume *: "adm = {#nextID b + 1#} \<and> nextID b' = nextID b + 1"
    have u: "unat (nextID b') = Suc (unat (nextID b))"
      using assms(2) * by (simp add: unat_word_ariths)
    have "(of_nat (Suc (unat (nextID b))) :: uint64) = nextID b + 1" by simp
    with * show ?thesis unfolding u by simp
  qed simp
qed

lemma size_admits: "size (admits x) \<le> 1"
  by (cases x rule: admits.cases) simp_all

lemma run_ledger:
  assumes "broker_run tn c h b" "length h < 2 ^ 64 - 1"
  shows "ledger h b \<and> unat (nextID b) \<le> length h"
  using assms
proof (induction rule: broker_run.induct)
  case (init b)
  then show ?case using NewBroker_cases [OF init(1)] by (simp add: ledger_def ids_inv_def)
next
  case (step h b p r b')
  note inv = run_inv [OF step.hyps(1)]
  let ?adm = "admits (p, r)" and ?ack = "acks (p, r)"
  from step.IH step.prems have IH: "ledger h b" "unat (nextID b) \<le> length h" by simp_all
  then have ids: "ids_inv b" by (simp add: ledger_def)
  from exec_ok [of b p] inv step.hyps(2) have "good_step ?adm ?ack b b'" by auto
  with ids have so: "step_ok ?adm ?ack b b'" by (simp add: good_step_def)
  have lt: "unat (nextID b) + 1 < 2 ^ 64" using IH(2) step.prems by simp
  note n = step_ok_ids [OF so ids lt]
  obtain ev0 ev where ev0: "admitted_ids h = all_ids b + acked_ids h + ev0"
      "int (size ev0) = droppedOverflow b + dlqEvicted b"
    and ev: "all_ids b + ?adm = all_ids b' + ?ack + ev"
      "int (size ev) = (droppedOverflow b' + dlqEvicted b') - (droppedOverflow b + dlqEvicted b)"
    using IH(1) so unfolding ledger_def step_ok_def conserves_def by blast
  have "?adm + admitted_ids h = (all_ids b + ?adm) + acked_ids h + ev0"
    by (simp add: ev0(1) ac_simps)
  also have "\<dots> = all_ids b' + (?ack + acked_ids h) + (ev0 + ev)"
    by (simp only: ev(1) ac_simps)
  finally have bal: "admitted_ids ((p, r) # h) = all_ids b' + acked_ids ((p, r) # h) + (ev0 + ev)" by simp
  have "admitted_ids ((p, r) # h) = mset (map of_nat [1..<Suc (unat (nextID b'))])"
    using admitted_next [OF so lt] IH(1) by (simp add: ledger_def)
  moreover have "int (size (ev0 + ev)) = droppedOverflow b' + dlqEvicted b'" using ev0(2) ev(2) by simp
  ultimately have "ledger ((p, r) # h) b'" using n(1) bal unfolding ledger_def by blast
  moreover have "unat (nextID b') \<le> Suc (length h)" using n(2) IH(2) size_admits [of "(p, r)"] by linarith
  ultimately show ?case by simp
qed

lemma count_ids_upto:
  assumes "n < 2 ^ 64"
  shows "count (mset (map (of_nat :: nat \<Rightarrow> uint64) [1..<Suc n])) i \<le> 1"
proof -
  have "inj_on (of_nat :: nat \<Rightarrow> uint64) (set [1..<Suc n])"
  proof (rule inj_onI)
    fix x y assume "x \<in> set [1..<Suc n]" "y \<in> set [1..<Suc n]" "(of_nat x :: uint64) = of_nat y"
    then show "x = y" using assms by (auto simp: word_of_nat_eq_iff take_bit_nat_eq_self)
  qed
  then have "distinct (map (of_nat :: nat \<Rightarrow> uint64) [1..<Suc n])"
    by (simp add: distinct_map del: upt_Suc)
  then show ?thesis unfolding distinct_count_atmost_1 by (simp del: upt_Suc mset_map set_map)
qed

lemma ledger_unique:
  assumes "ledger h b"
  shows "count (admitted_ids h) i \<le> 1" "count (all_ids b) i + count (acked_ids h) i \<le> 1"
proof -
  have n: "unat (nextID b) < 2 ^ 64" using unsigned_less [of "nextID b"] by simp
  show 1: "count (admitted_ids h) i \<le> 1"
    using assms count_ids_upto [OF n, of i] unfolding ledger_def by metis
  from assms obtain ev where "admitted_ids h = all_ids b + acked_ids h + ev"
    unfolding ledger_def by blast
  then have "count (admitted_ids h) i = count (all_ids b) i + count (acked_ids h) i + count ev i" by simp
  with 1 show "count (all_ids b) i + count (acked_ids h) i \<le> 1" by linarith
qed

lemma ledger_lossless:
  assumes "ledger h b" "droppedOverflow b + dlqEvicted b = 0"
  shows "admitted_ids h = all_ids b + acked_ids h"
proof -
  from assms(1) obtain ev where "admitted_ids h = all_ids b + acked_ids h + ev"
    "int (size ev) = droppedOverflow b + dlqEvicted b" unfolding ledger_def by blast
  with assms(2) show ?thesis by simp
qed

lemma run_no_overflow:
  assumes "broker_run tn c h b" "length h < 2 ^ 64 - 1" "Policy (cfg b) \<noteq> PolicyDropOldest"
  shows "droppedOverflow b = 0"
  using assms
proof (induction rule: broker_run.induct)
  case (init b)
  then show ?case using NewBroker_cases [OF init(1)] by simp
next
  case (step h b p r b')
  note inv = run_inv [OF step.hyps(1)] run_ledger [OF step.hyps(1)]
  from exec_ok [of b p] inv(1) step.hyps(2) have g: "good_step (admits (p, r)) (acks (p, r)) b b'" by auto
  with inv(2) step.prems(1) have "step_ok (admits (p, r)) (acks (p, r)) b b'"
    by (simp add: good_step_def ledger_def)
  with step g show ?case by (simp add: good_step_def step_ok_def)
qed

section \<open>Sequences of operations\<close>

text \<open>\<open>run_ops\<close> executes a list of steps and collects the history, newest first.\<close>

fun run_ops :: "op list \<Rightarrow> history \<times> Broker \<Rightarrow> (history \<times> Broker) option" where
  "run_ops [] s = Some s"
| "run_ops (p # ps) s = do { (r, b) \<leftarrow> exec p (snd s); run_ops ps ((p, r) # fst s, b) }"

lemma run_ops_total:
  assumes "broker_run tn c (fst s) (snd s)"
  shows "\<exists>s'. run_ops ps s = Some s' \<and> broker_run tn c (fst s') (snd s') \<and>
     length (fst s') = length ps + length (fst s)"
  using assms
proof (induction ps arbitrary: s)
  case (Cons p ps)
  from exec_ok [of "snd s" p] run_inv [OF Cons.prems] obtain r b where e: "exec p (snd s) = Some (r, b)"
    by auto
  with broker_run.step [OF Cons.prems e] Cons.IH [of "((p, r) # fst s, b)"] show ?case by simp
qed simp

lemma run_ops_run:
  fixes ps :: "op list"
  assumes "broker_run tn c h b"
  defines "s \<equiv> the (run_ops ps (h, b))"
  shows "broker_run tn c (fst s) (snd s)" "length (fst s) = length ps + length h"
  using run_ops_total [of tn c "(h, b)" ps] assms by auto

text \<open>A producer, two consumers, a disconnect and an acknowledgement on a broker of capacity two.\<close>

definition demo_msg :: "string \<Rightarrow> TelemetryMessage" where
  "demo_msg gpu = \<lparr>pbTimestamp = ''2025-07-18T20:42:34Z'', pbMetricName = ''DCGM_FI_DEV_GPU_UTIL'',
     pbGpuId = gpu, pbDevice = ''nvidia0'', pbUuid = ''GPU-5fd4f087'', pbModelName = ''H100'',
     pbHostname = ''node-1'', pbContainer = '''', pbPod = '''', pbNamespace = '''', pbValue = 0,
     pbLabelsRaw = '''', pbId = 0, pbDeliveryAttempts = 0\<rparr>"

definition demo_cfg :: BrokerConfig where
  "demo_cfg = \<lparr>Capacity = 2, Policy = PolicyReject, BlockTimeout = 0, RetryBackoffBase = 1,
     RetryBackoffMax = 4, MaxDeliveries = 2, DLQCapacity = 1, LeaseTTL = 10, SweepInterval = 1, Clock = None\<rparr>"

definition demo_clock :: "nat \<Rightarrow> gotime" where
  "demo_clock n = int n"

definition demo_start :: Broker where
  "demo_start = the (NewBroker demo_clock demo_cfg)"

definition demo_ops :: "op list" where
  "demo_ops = [OpEnqueue (demo_msg ''0''), OpEnqueue (demo_msg ''1''), OpEnqueue (demo_msg ''2''),
     OpLease 7, OpLease 8, OpAck 1 7, OpReleaseConsumer 8, OpEnqueue (demo_msg ''3'')]"

definition demo_state :: "history \<times> Broker" where
  "demo_state = the (run_ops demo_ops ([], demo_start))"

lemma demo_start_new: "NewBroker demo_clock demo_cfg = Some demo_start"
proof -
  have "\<exists>b. NewBroker demo_clock demo_cfg = Some b"
    unfolding NewBroker_Some by (simp add: demo_cfg_def applyDefaults_def)
  then show ?thesis by (auto simp: demo_start_def)
qed

lemma demo_init: "broker_run demo_clock demo_cfg [] demo_start"
  by (rule broker_run.init [OF demo_start_new])

lemma demo_run: "broker_run demo_clock demo_cfg (fst demo_state) (snd demo_state)"
  unfolding demo_state_def by (rule run_ops_run(1) [OF demo_init])

lemma demo_length: "length (fst demo_state) < 2 ^ 64 - 1"
  unfolding demo_state_def run_ops_run(2) [OF demo_init] by (simp add: demo_ops_def)

end
