(* ===== verification/Broker_Spec.thy ===== *)
theory Broker_Spec
  imports Broker_Safety
begin

text \<open>
  An abstract specification of the broker and the proof that \<open>broker.go\<close> implements it. The
  specification has no buffers and no heap: the main and dead-letter lanes are lists, the retry lane
  is a list sorted by visibility time and id, and the lease table is a map. The refinement is
  functional: abstracting the state after a step of the code gives the state after the step of the
  specification, with the same result.
\<close>

section \<open>The specification\<close>

record SpecQ =
  sMain :: "entry list"
  sRetry :: "retryItem list"
  sDlq :: "dlqItem list"
  sLeases :: "uint64 \<rightharpoonup> leaseRec"
  sNext :: uint64
  sTicks :: nat
  sSpace :: nat
  sClosed :: bool
  sStop :: bool

definition spec_used :: "SpecQ \<Rightarrow> nat" where
  "spec_used s = length (sMain s) + length (sRetry s) + card (dom (sLeases s))"

definition newest :: "nat \<Rightarrow> 'a list \<Rightarrow> 'a list" where
  "newest n xs = drop (length xs - n) xs"

definition spec_requeue :: "BrokerConfig \<Rightarrow> (nat \<Rightarrow> gotime) \<Rightarrow> entry \<Rightarrow> duration \<Rightarrow> SpecQ \<Rightarrow> SpecQ" where
  "spec_requeue c clk e delay s =
     (let t = clk (sTicks s); s = s\<lparr>sTicks := Suc (sTicks s)\<rparr> in
      if MaxDeliveries c \<le> attempts e then
        s\<lparr>sDlq := newest (nat (DLQCapacity c))
             (sDlq s @ [\<lparr>di_e = e, reason = dlq_reason (MaxDeliveries c), di_at = t\<rparr>]),
           sSpace := Suc (sSpace s)\<rparr>
      else s\<lparr>sRetry := insort_key retryKey \<lparr>ri_e = e, visibleAt = t + delay\<rparr> (sRetry s)\<rparr>)"

definition spec_admit :: "TelemetryMessage \<Rightarrow> SpecQ \<Rightarrow> op_result \<times> SpecQ" where
  "spec_admit m s =
     (let m = m\<lparr>pbId := sNext s + 1\<rparr> in
      (REnq (Admitted m), s\<lparr>sNext := sNext s + 1, sMain := sMain s @ [\<lparr>msg = m, attempts = 0\<rparr>]\<rparr>))"

definition spec_Enqueue :: "BrokerConfig \<Rightarrow> TelemetryMessage \<Rightarrow> SpecQ \<Rightarrow> op_result \<times> SpecQ" where
  "spec_Enqueue c m s =
     (if sClosed s then (REnq (Refused ErrClosed), s)
      else if int (spec_used s) < Capacity c then spec_admit m s
      else if Policy c = PolicyDropOldest \<and> sMain s \<noteq> [] then spec_admit m (s\<lparr>sMain := tl (sMain s)\<rparr>)
      else if Policy c = PolicyBlock then (REnq (Parked (sSpace s)), s)
      else (REnq (Refused ErrFull), s))"

definition spec_lease :: "BrokerConfig \<Rightarrow> (nat \<Rightarrow> gotime) \<Rightarrow> uint64 \<Rightarrow> entry \<Rightarrow> SpecQ \<Rightarrow> op_result \<times> SpecQ" where
  "spec_lease c clk cid e s =
     (let e' = \<lparr>msg = (msg e)\<lparr>pbDeliveryAttempts := attempts e + 1\<rparr>, attempts = attempts e + 1\<rparr> in
      (RMsg (Some (msg e')),
       s\<lparr>sTicks := Suc (sTicks s),
         sLeases := (sLeases s)(pbId (msg e) \<mapsto>
           \<lparr>lr_e = e', consumer = cid, deadline = clk (sTicks s) + LeaseTTL c\<rparr>)\<rparr>))"

definition spec_visible :: "(nat \<Rightarrow> gotime) \<Rightarrow> SpecQ \<Rightarrow> bool" where
  "spec_visible clk s \<longleftrightarrow> sRetry s \<noteq> [] \<and> visibleAt (hd (sRetry s)) \<le> clk (sTicks s)"

definition spec_tick :: "SpecQ \<Rightarrow> SpecQ" where
  "spec_tick s = s\<lparr>sTicks := (if sRetry s = [] then sTicks s else Suc (sTicks s))\<rparr>"

definition spec_Lease :: "BrokerConfig \<Rightarrow> (nat \<Rightarrow> gotime) \<Rightarrow> uint64 \<Rightarrow> SpecQ \<Rightarrow> op_result \<times> SpecQ" where
  "spec_Lease c clk cid s =
     (if spec_visible clk s then
        spec_lease c clk cid (ri_e (hd (sRetry s))) (spec_tick s\<lparr>sRetry := tl (sRetry s)\<rparr>)
      else
        (case sMain s of
           [] \<Rightarrow> (RMsg None, spec_tick s)
         | e # xs \<Rightarrow> spec_lease c clk cid e (spec_tick s\<lparr>sMain := xs\<rparr>)))"

definition spec_release :: "BrokerConfig \<Rightarrow> (nat \<Rightarrow> gotime) \<Rightarrow> (entry \<Rightarrow> duration) \<Rightarrow> uint64 \<Rightarrow> SpecQ \<Rightarrow> SpecQ" where
  "spec_release c clk delay i s =
     (case sLeases s i of
        None \<Rightarrow> s
      | Some rec \<Rightarrow> spec_requeue c clk (lr_e rec) (delay (lr_e rec)) (s\<lparr>sLeases := (sLeases s)(i := None)\<rparr>))"

definition spec_release_all :: "BrokerConfig \<Rightarrow> (nat \<Rightarrow> gotime) \<Rightarrow> (leaseRec \<Rightarrow> bool) \<Rightarrow> SpecQ \<Rightarrow> op_result \<times> SpecQ" where
  "spec_release_all c clk P s =
     (let ids = sorted_list_of_set {i. \<exists>rec. sLeases s i = Some rec \<and> P rec} in
      (RCount (length ids), fold (spec_release c clk (\<lambda>e. backoff c (attempts e))) ids s))"

definition spec_replay :: "BrokerConfig \<Rightarrow> SpecQ \<Rightarrow> op_result \<times> SpecQ" where
  "spec_replay c s =
     (let k = min (length (sDlq s)) (nat (Capacity c) - spec_used s) in
      (RCount k, s\<lparr>sMain := sMain s @ map (\<lambda>it. (di_e it)\<lparr>attempts := 0\<rparr>) (take k (sDlq s)),
                   sDlq := drop k (sDlq s)\<rparr>))"

definition spec_sweep :: "BrokerConfig \<Rightarrow> (nat \<Rightarrow> gotime) \<Rightarrow> SpecQ \<Rightarrow> op_result \<times> SpecQ" where
  "spec_sweep c clk s =
     spec_release_all c clk (\<lambda>rec. deadline rec \<le> clk (sTicks s)) (s\<lparr>sTicks := Suc (sTicks s)\<rparr>)"

fun spec_step :: "BrokerConfig \<Rightarrow> (nat \<Rightarrow> gotime) \<Rightarrow> op \<Rightarrow> SpecQ \<Rightarrow> op_result \<times> SpecQ" where
  "spec_step c clk (OpEnqueue m) s = spec_Enqueue c m s"
| "spec_step c clk (OpTimeout m) s = (REnq (Refused ErrFull), s)"
| "spec_step c clk (OpLease cid) s = spec_Lease c clk cid s"
| "spec_step c clk (OpAck i cid) s =
     (if \<exists>rec. sLeases s i = Some rec \<and> consumer rec = cid
      then (RBool True, s\<lparr>sLeases := (sLeases s)(i := None), sSpace := Suc (sSpace s)\<rparr>)
      else (RBool False, s))"
| "spec_step c clk (OpReleaseLease i cid) s =
     (if \<exists>rec. sLeases s i = Some rec \<and> consumer rec = cid
      then (RBool True, spec_release c clk (\<lambda>_. 0) i s)
      else (RBool False, s))"
| "spec_step c clk (OpReleaseConsumer cid) s = spec_release_all c clk (\<lambda>rec. consumer rec = cid) s"
| "spec_step c clk OpDLQReplay s = spec_replay c s"
| "spec_step c clk OpSweepExpired s = spec_sweep c clk s"
| "spec_step c clk OpTick s = (RDone, spec_tick s)"
| "spec_step c clk OpSetNotify s = (RDone, s)"
| "spec_step c clk OpClose s =
     (RDone, if sClosed s then s else s\<lparr>sClosed := True, sSpace := Suc (sSpace s), sStop := True\<rparr>)"

section \<open>Abstraction\<close>

definition broker_abs :: "Broker \<Rightarrow> SpecQ" where
  "broker_abs b = \<lparr>sMain = ring_content (main b), sRetry = sort_key retryKey (retry b),
     sDlq = ring_content (dlq b), sLeases = map_of (leases b), sNext = nextID b, sTicks = ticks b,
     sSpace = spaceCh b, sClosed = closed b, sStop = sweepStop b\<rparr>"

lemma abs_sel [simp]:
  "sMain (broker_abs b) = ring_content (main b)" "sRetry (broker_abs b) = sort_key retryKey (retry b)"
  "sDlq (broker_abs b) = ring_content (dlq b)" "sLeases (broker_abs b) = map_of (leases b)"
  "sNext (broker_abs b) = nextID b" "sTicks (broker_abs b) = ticks b" "sSpace (broker_abs b) = spaceCh b"
  "sClosed (broker_abs b) = closed b" "sStop (broker_abs b) = sweepStop b"
  by (simp_all add: broker_abs_def)

lemma abs_upd [simp]:
  "broker_abs (b\<lparr>rejected := x_rejected\<rparr>) = broker_abs b"
  "broker_abs (b\<lparr>leaseExpired := x_leaseExpired\<rparr>) = broker_abs b"
  "broker_abs (b\<lparr>droppedOverflow := x_dropped\<rparr>) = broker_abs b"
  "broker_abs (b\<lparr>dlqEvicted := x_evicted\<rparr>) = broker_abs b"
  "broker_abs (b\<lparr>deadLettered := x_dead\<rparr>) = broker_abs b"
  "broker_abs (b\<lparr>notify := x_notify\<rparr>) = broker_abs b"
  "broker_abs (b\<lparr>ticks := t\<rparr>) = broker_abs b\<lparr>sTicks := t\<rparr>"
  "broker_abs (b\<lparr>spaceCh := g\<rparr>) = broker_abs b\<lparr>sSpace := g\<rparr>"
  "broker_abs (b\<lparr>closed := cl\<rparr>) = broker_abs b\<lparr>sClosed := cl\<rparr>"
  "broker_abs (b\<lparr>sweepStop := st\<rparr>) = broker_abs b\<lparr>sStop := st\<rparr>"
  "broker_abs (b\<lparr>nextID := n\<rparr>) = broker_abs b\<lparr>sNext := n\<rparr>"
  "broker_abs (b\<lparr>main := d\<rparr>) = broker_abs b\<lparr>sMain := ring_content d\<rparr>"
  "broker_abs (b\<lparr>dlq := r\<rparr>) = broker_abs b\<lparr>sDlq := ring_content r\<rparr>"
  "broker_abs (b\<lparr>retry := h\<rparr>) = broker_abs b\<lparr>sRetry := sort_key retryKey h\<rparr>"
  "broker_abs (b\<lparr>leases := ls\<rparr>) = broker_abs b\<lparr>sLeases := map_of ls\<rparr>"
  by (simp_all add: broker_abs_def)

lemma spec_used_abs: "broker_inv b \<Longrightarrow> spec_used (broker_abs b) = used b"
  by (simp add: spec_used_def used_eq broker_inv_def dom_map_of_conv_image_fst distinct_card
      flip: set_map)

lemma retry_ids_distinct:
  assumes "ids_inv b"
  shows "distinct (map (\<lambda>it. pbId (msg (ri_e it))) (retry b))"
  unfolding distinct_count_atmost_1
proof
  fix i
  have "image_mset (\<lambda>it. pbId (msg (ri_e it))) (mset (retry b)) \<subseteq># all_ids b"
    by (simp add: ids_defs subset_mset.add_increasing subset_mset.add_increasing2)
  then have "count (mset (map (\<lambda>it. pbId (msg (ri_e it))) (retry b))) i \<le> count (all_ids b) i"
    by (simp add: mset_subset_eq_count)
  also have "\<dots> \<le> 1" using assms by (simp add: ids_inv_def)
  finally show "count (mset (map (\<lambda>it. pbId (msg (ri_e it))) (retry b))) i =
      (if i \<in> set (map (\<lambda>it. pbId (msg (ri_e it))) (retry b)) then 1 else 0)"
    by (metis count_greater_eq_one_iff le_antisym not_in_iff set_mset_mset)
qed

lemma retry_inj: "ids_inv b \<Longrightarrow> inj_on retryKey (set (retry b))"
  using retry_ids_distinct [of b] by (auto simp: distinct_map inj_on_def retryKey_def)

lemma sort_heap_Push:
  assumes "heap_inv retryKey h" "inj_on retryKey (insert x (set h))"
  shows "sort_key retryKey (heap_Push retryLess x h) = insort_key retryKey x (sort_key retryKey h)"
proof (rule sort_key_inj_key_eq)
  note p = retry_lane.push_items [OF assms(1), of x]
  then show "mset (heap_Push retryLess x h) = mset (insort_key retryKey x (sort_key retryKey h))"
    by simp
  from p have "set (heap_Push retryLess x h) = insert x (set h)"
    by (metis set_mset_add_mset_insert set_mset_mset)
  with assms(2) show "inj_on retryKey (set (heap_Push retryLess x h))" by simp
qed (simp add: sorted_insort_key)

lemma sort_heap_Pop:
  assumes "heap_inv retryKey h" "inj_on retryKey (set h)" "heap_Pop retryLess h = Some (x, h')"
  shows "sort_key retryKey h = x # sort_key retryKey h'"
proof (rule sort_key_inj_key_eq)
  note p = retry_lane.pop_items [OF assms(1,3)]
  then show "mset h = mset (x # sort_key retryKey h')" by simp
  have "retryKey x \<le> retryKey y" if "y \<in> set h'" for y
    using retry_lane.pop_least [OF assms(1,3), of y] p that by (simp add: p)
  then show "sorted (map retryKey (x # sort_key retryKey h'))" by simp
qed (rule assms(2))

section \<open>Refinement\<close>

lemma newest_snoc:
  assumes "length xs \<le> n" "0 < n"
  shows "newest n (xs @ [x]) = (if length xs = n then tl xs else xs) @ [x]"
  using assms by (cases "length xs = n") (auto simp: newest_def drop_Suc)

lemma requeue_refines:
  assumes "broker_inv b" "pbId (msg e) \<notin> (\<lambda>it. pbId (msg (ri_e it))) ` set (retry b)" "ids_inv b"
    "requeue e delay b = Some b'"
  shows "broker_abs b' = spec_requeue (cfg b) (now b) e delay (broker_abs b)"
proof -
  have r: "ring_inv (dlq b)" and cap: "int (ring_cap (dlq b)) = DLQCapacity (cfg b)"
    and heap: "heap_inv retryKey (retry b)"
    using assms(1) by (simp_all add: broker_inv_def)
  from r show ?thesis
  proof (cases rule: requeue_cases [where e = e and delay = delay])
    case (dead q)
    have n: "nat (DLQCapacity (cfg b)) = ring_cap (dlq b)" using cap by simp
    have "length (ring_content (dlq b)) \<le> ring_cap (dlq b)" by (rule dlq_lane.bounded [OF r])
    note newest_snoc [OF this ring_inv_cap_pos [OF r]]
    with dead assms(4) show ?thesis
      by (cases "rcount (dlq b) = ring_cap (dlq b)") (auto simp: spec_requeue_def Let_def n)
  next
    case again
    let ?x = "\<lparr>ri_e = e, visibleAt = now b (ticks b) + delay\<rparr>"
    have "inj_on retryKey (insert ?x (set (retry b)))"
      using retry_inj [OF assms(3)] assms(2) by (force simp: retryKey_def)
    from sort_heap_Push [OF heap this] again assms(4) show ?thesis
      by (auto simp: spec_requeue_def Let_def)
  qed
qed

lemma ids_inv_move: "ids_inv b \<Longrightarrow> lane_move b b' \<Longrightarrow> ids_inv b'"
  by (rule ids_inv_sub) (auto simp: lane_move_def conserves_def)

lemma ids_inv_delete:
  assumes "broker_inv b" "ids_inv b" "map_of (leases b) i = Some rec"
  shows "ids_inv (b\<lparr>leases := AList.delete i (leases b)\<rparr>)"
    "i \<notin> (\<lambda>it. pbId (msg (ri_e it))) ` set (retry b)"
proof -
  let ?b = "b\<lparr>leases := AList.delete i (leases b)\<rparr>"
  note d = all_ids_delete [OF assms(1,3)]
  show "ids_inv ?b" using assms(2) by (rule ids_inv_sub) (simp_all add: d)
  have "count (all_ids b) i \<le> 1" using assms(2) by (simp add: ids_inv_def)
  then have "i \<notin># all_ids ?b" unfolding d by (simp add: not_in_iff)
  then show "i \<notin> (\<lambda>it. pbId (msg (ri_e it))) ` set (retry b)" by (auto simp: ids_defs)
qed

lemma release_refines:
  assumes "broker_inv b" "ids_inv b" "map_of (leases b) i = Some rec"
    "requeue (lr_e rec) (delay (lr_e rec)) (b\<lparr>leases := AList.delete i (leases b)\<rparr>) = Some b'"
  shows "broker_abs b' = spec_release (cfg b) (now b) delay i (broker_abs b)"
proof -
  let ?b = "b\<lparr>leases := AList.delete i (leases b)\<rparr>"
  have "pbId (msg (lr_e rec)) = i"
    using assms(1) map_of_SomeD [OF assms(3)] by (auto simp: broker_inv_def)
  with ids_inv_delete [OF assms(1-3)] delete_lease(1) [OF assms(1,3)] assms(4)
  have "broker_abs b' = spec_requeue (cfg ?b) (now ?b) (lr_e rec) (delay (lr_e rec)) (broker_abs ?b)"
    by (intro requeue_refines) simp_all
  then show ?thesis using assms(3) by (simp add: spec_release_def map_of_delete_eq)
qed

abbreviation backed_off :: "BrokerConfig \<Rightarrow> entry \<Rightarrow> duration" where
  "backed_off c e \<equiv> backoff c (attempts e)"

lemma requeueLease_refines:
  assumes "broker_inv b" "ids_inv b" "requeueLease i b = Some b'"
  shows "broker_abs b' = spec_release (cfg b) (now b) (backed_off (cfg b)) i (broker_abs b)"
  using assms release_refines [OF assms(1,2), where delay = "backed_off (cfg b)"]
  by (auto simp: requeueLease_def split: Option.bind_splits)

lemma release_loop_refines:
  assumes "broker_inv b" "ids_inv b" "distinct ids" "set ids \<subseteq> fst ` set (leases b)"
    "release_loop ids b = Some b'"
  shows "broker_abs b' = fold (spec_release (cfg b) (now b) (backed_off (cfg b))) ids (broker_abs b)"
  using assms
proof (induction ids arbitrary: b)
  case (Cons i ids)
  from requeueLease_ok [of b i] Cons.prems obtain b1 where
    b1: "requeueLease i b = Some b1" "lane_move b b1" "leases b1 = AList.delete i (leases b)" by auto
  note r = requeueLease_refines [OF Cons.prems(1,2) b1(1)]
  have "set ids \<subseteq> fst ` set (leases b1)" using Cons.prems(3,4) b1(3) by (force simp: delete_set)
  moreover have "broker_inv b1" "ids_inv b1" "cfg b1 = cfg b" "now b1 = now b"
    using b1(2) ids_inv_move [OF Cons.prems(2) b1(2)] by (simp_all add: lane_move_def)
  ultimately show ?case using Cons.IH [of b1] Cons.prems(3,5) b1(1) r by simp
qed simp

lemma sweep_loop_refines:
  assumes "broker_inv b" "ids_inv b" "distinct ids" "set ids \<subseteq> fst ` set (leases b)"
    "sweep_loop ids n b = Some (k, b')"
  shows "broker_abs b' = fold (spec_release (cfg b) (now b) (backed_off (cfg b))) ids (broker_abs b)"
  using assms
proof (induction ids arbitrary: b n)
  case (Cons i ids)
  from requeueLease_ok [of b i] Cons.prems obtain b1 where
    b1: "requeueLease i b = Some b1" "lane_move b b1" "leases b1 = AList.delete i (leases b)" by auto
  let ?b = "b1\<lparr>leaseExpired := leaseExpired b1 + 1\<rparr>"
  have mv: "lane_move b ?b" using b1(2) by (rule lane_move_expired)
  note r = requeueLease_refines [OF Cons.prems(1,2) b1(1)]
  have "set ids \<subseteq> fst ` set (leases ?b)" using Cons.prems(3,4) b1(3) by (force simp: delete_set)
  moreover have "broker_inv ?b" "ids_inv ?b" "cfg ?b = cfg b" "now ?b = now b"
    using mv ids_inv_move [OF Cons.prems(2) mv] unfolding lane_move_def by blast+
  ultimately show ?case using Cons.IH [of ?b "Suc n"] Cons.prems(3,5) b1(1) r by simp
qed simp

lemma sorted_ids_of_map:
  assumes "distinct (map fst ls)"
  shows "sort (map fst (filter (\<lambda>(i, rec). P rec) ls)) =
    sorted_list_of_set {i. \<exists>rec. map_of ls i = Some rec \<and> P rec}"
proof -
  have "{i. \<exists>rec. map_of ls i = Some rec \<and> P rec} = set (map fst (filter (\<lambda>(i, rec). P rec) ls))"
    using assms by (force simp: map_of_eq_Some_iff)
  moreover have "distinct (map fst (filter (\<lambda>(i, rec). P rec) ls))"
    using assms by (rule distinct_map_filter)
  ultimately show ?thesis
    by (simp add: sorted_list_of_set_sort_remdups distinct_remdups_id del: set_map set_filter)
qed

lemma ReleaseConsumer_refines:
  assumes "broker_inv b" "ids_inv b" "ReleaseConsumer cid b = Some (n, b')"
  shows "spec_release_all (cfg b) (now b) (\<lambda>rec. consumer rec = cid) (broker_abs b) = (RCount n, broker_abs b')"
proof -
  have dk: "distinct (map fst (leases b))" using assms(1) by (simp add: broker_inv_def)
  let ?ids = "consumerIds cid (leases b)"
  have ids: "?ids = sorted_list_of_set {i. \<exists>rec. map_of (leases b) i = Some rec \<and> consumer rec = cid}"
    unfolding consumerIds_def by (rule sorted_ids_of_map [OF dk])
  have "distinct ?ids" using dk by (simp add: consumerIds_def distinct_filter_fst)
  moreover have "set ?ids \<subseteq> fst ` set (leases b)" by (force simp: set_consumerIds)
  moreover have "release_loop ?ids b = Some b'" "n = length ?ids"
    using assms(3) by (auto simp: ReleaseConsumer_def Let_def split: Option.bind_splits)
  ultimately show ?thesis
    using release_loop_refines [OF assms(1,2)] by (simp add: spec_release_all_def Let_def flip: ids)
qed

lemma SweepExpired_refines:
  assumes "broker_inv b" "ids_inv b" "SweepExpired b = Some (n, w, b')"
  shows "spec_sweep (cfg b) (now b) (broker_abs b) = (RCount n, broker_abs b')"
proof -
  let ?t = "now b (ticks b)" and ?b = "b\<lparr>ticks := Suc (ticks b)\<rparr>"
  let ?ids = "expiredIds ?t (leases b)"
  have dk: "distinct (map fst (leases b))" using assms(1) by (simp add: broker_inv_def)
  have ids: "?ids = sorted_list_of_set {i. \<exists>rec. map_of (leases b) i = Some rec \<and> deadline rec \<le> ?t}"
    unfolding expiredIds_def not_less by (rule sorted_ids_of_map [OF dk])
  have i: "broker_inv ?b" "ids_inv ?b" using assms(1,2) by (simp_all add: ids_inv_def)
  have "distinct ?ids" using dk by (simp add: expiredIds_def distinct_filter_fst)
  moreover have "set ?ids \<subseteq> fst ` set (leases ?b)" by (force simp: set_expiredIds)
  moreover have sw: "sweep_loop ?ids 0 ?b = Some (n, b')"
    using assms(3) by (auto simp: SweepExpired_def readClock_def Let_def split: Option.bind_splits)
  ultimately have "broker_abs b' = fold (spec_release (cfg b) (now b) (backed_off (cfg b))) ?ids (broker_abs ?b)"
    using sweep_loop_refines [OF i, of ?ids 0 n b'] by simp
  moreover have "n = length ?ids"
    using sweep_loop_ok [OF i(1) \<open>distinct ?ids\<close> \<open>set ?ids \<subseteq> _\<close>, of 0] sw by auto
  ultimately show ?thesis by (simp add: spec_sweep_def spec_release_all_def Let_def flip: ids)
qed

lemma admitted_abs:
  assumes "admitted m b b'"
  shows "spec_admit m (broker_abs b) = (REnq (Admitted (m\<lparr>pbId := nextID b + 1\<rparr>)), broker_abs b')"
proof -
  from assms obtain d where "b' = b\<lparr>nextID := nextID b + 1, main := d\<rparr>"
    "ring_content d = ring_content (main b) @ [\<lparr>msg = m\<lparr>pbId := nextID b + 1\<rparr>, attempts = 0\<rparr>]"
    by (auto simp: admitted_def)
  then show ?thesis by (simp add: spec_admit_def Let_def)
qed

lemma Enqueue_refines:
  assumes "broker_inv b" "Enqueue_pass m b = Some (r, b')"
  shows "spec_Enqueue (cfg b) m (broker_abs b) = (REnq r, broker_abs b')"
  using assms(1)
proof (cases rule: Enqueue_pass_cases [where m = m])
  case (room b1)
  with assms show ?thesis using admitted_abs [OF room(4)] by (simp add: spec_Enqueue_def spec_used_abs)
next
  case (evict e xs d b1 b2)
  have "broker_abs b1 = broker_abs b\<lparr>sMain := tl (sMain (broker_abs b))\<rparr>"
    using evict(4,5,7) by simp
  with evict assms show ?thesis
    using admitted_abs [OF evict(12)] by (simp add: spec_Enqueue_def spec_used_abs)
qed (use assms in \<open>auto simp: spec_Enqueue_def spec_used_abs policy_defs\<close>)

lemma leaseEntry_abs:
  "spec_lease (cfg b) (now b) c e (broker_abs b) =
     (RMsg (fst (leaseEntry c e b)), broker_abs (snd (leaseEntry c e b)))"
  by (simp add: spec_lease_def leaseEntry_snd Let_def update_conv')

lemma abs_visible:
  assumes "broker_inv b" "ids_inv b"
  shows "spec_visible (now b) (broker_abs b) = head_visible b" "broker_abs (b\<lparr>ticks := vis_ticks b\<rparr>) = spec_tick (broker_abs b)"
proof -
  have heap: "heap_inv retryKey (retry b)" using assms(1) by (simp add: broker_inv_def)
  have nil: "sort_key retryKey (retry b) = [] \<longleftrightarrow> retry b = []" by (metis length_sort length_0_conv)
  show "spec_visible (now b) (broker_abs b) = head_visible b"
  proof (cases "retry b = []")
    case False
    from heap_Pop_props [OF retryLess_key heap False] obtain h where
      h: "heap_Pop retryLess (retry b) = Some (retry b ! 0, h)" by blast
    from sort_heap_Pop [OF heap retry_inj [OF assms(2)] h] False show ?thesis
      by (simp add: spec_visible_def head_visible_def hd_conv_nth)
  qed (simp add: spec_visible_def head_visible_def)
  show "broker_abs (b\<lparr>ticks := vis_ticks b\<rparr>) = spec_tick (broker_abs b)"
    by (simp add: spec_tick_def vis_ticks_def nil)
qed

lemma Lease_refines:
  assumes "broker_inv b" "ids_inv b" "Lease c b = Some (r, b')"
  shows "spec_Lease (cfg b) (now b) c (broker_abs b) = (RMsg r, broker_abs b')"
proof -
  note vis = abs_visible [OF assms(1,2)]
  show ?thesis using assms(1)
  proof (cases rule: Lease_cases [where c = c])
    case (retried it h)
    let ?b = "b\<lparr>ticks := vis_ticks b, retry := h\<rparr>"
    have "heap_inv retryKey (retry b)" using assms(1) by (simp add: broker_inv_def)
    note sp = sort_heap_Pop [OF this retry_inj [OF assms(2)] retried(2)]
    have "broker_abs ?b = spec_tick (broker_abs b)\<lparr>sRetry := tl (sRetry (broker_abs b))\<rparr>"
      using vis(2) sp by simp
    moreover have "leaseEntry c (ri_e it) ?b = (r, b')" using retried(3) assms(3) by simp
    ultimately show ?thesis using leaseEntry_abs [of ?b c "ri_e it"] retried(1) vis(1) sp
      by (simp add: spec_Lease_def)
  next
    case (fresh e xs d)
    let ?b = "b\<lparr>ticks := vis_ticks b, main := d\<rparr>"
    have "broker_abs ?b = spec_tick (broker_abs b)\<lparr>sMain := xs\<rparr>" using vis(2) fresh(4) by simp
    moreover have "leaseEntry c e ?b = (r, b')" using fresh(6) assms(3) by simp
    ultimately show ?thesis using leaseEntry_abs [of ?b c e] fresh(1,2) vis(1)
      by (simp add: spec_Lease_def)
  next
    case idle
    with vis assms(3) show ?thesis by (auto simp: spec_Lease_def simp del: ring_content_empty_iff)
  qed
qed

lemma Ack_refines:
  assumes "broker_inv b"
  shows "spec_step c clk (OpAck i cid) (broker_abs b) = (RBool (fst (Ack i cid b)), broker_abs (snd (Ack i cid b)))"
  by (auto simp: Ack_def signalSpace_def map_of_delete_eq split: option.splits)

lemma ReleaseLease_refines:
  assumes "broker_inv b" "ids_inv b" "ReleaseLease i cid b = Some (r, b')"
  shows "spec_step (cfg b) (now b) (OpReleaseLease i cid) (broker_abs b) = (RBool r, broker_abs b')"
proof (cases "\<exists>rec. map_of (leases b) i = Some rec \<and> consumer rec = cid")
  case True
  then obtain rec where rec: "map_of (leases b) i = Some rec" "consumer rec = cid" by blast
  with assms(3) have "requeue (lr_e rec) 0 (b\<lparr>leases := AList.delete i (leases b)\<rparr>) = Some b'" "r"
    by (auto simp: ReleaseLease_def split: Option.bind_splits)
  with release_refines [OF assms(1,2) rec(1), where delay = "\<lambda>_. 0"] rec show ?thesis by simp
next
  case False
  then have "ReleaseLease i cid b = Some (False, b)" by (auto simp: ReleaseLease_def split: option.splits)
  with False assms(3) show ?thesis by simp
qed

lemma DLQReplay_refines:
  assumes "broker_inv b" "DLQReplay b = Some (n, b')"
  shows "spec_replay (cfg b) (broker_abs b) = (RCount n, broker_abs b')"
proof -
  have rc: "min (rcount (dlq b)) (nat (Capacity (cfg b)) - used b) = replay_count b"
    by (simp add: replay_count_def dlqRing_len_def)
  from DLQReplay_ok [OF assms(1)] obtain d r where
    "n = replay_count b" "b' = b\<lparr>dlq := r, main := d\<rparr>"
    "ring_content d = ring_content (main b) @ map fresh_start (take (replay_count b) (ring_content (dlq b)))"
    "ring_content r = drop (replay_count b) (ring_content (dlq b))"
    using assms(2) by (metis Pair_inject option.inject)
  then show ?thesis
    by (simp add: spec_replay_def Let_def spec_used_abs [OF assms(1)] fresh_start_def [abs_def] rc)
qed

lemma sweeper_check_refines:
  assumes "broker_inv b" "ids_inv b"
  shows "spec_step (cfg b) (now b) OpTick (broker_abs b) = (RDone, broker_abs (snd (sweeper_check b)))"
  using abs_visible(2) [OF assms] by (simp add: sweeper_check_def headVisible_eq)

lemma exec_refines:
  assumes "broker_inv b" "ids_inv b" "exec p b = Some (r, b')"
  shows "spec_step (cfg b) (now b) p (broker_abs b) = (r, broker_abs b')"
  using assms
proof (cases p)
  case (OpAck i c)
  then show ?thesis using assms Ack_refines [OF assms(1)] by (cases "Ack i c b") simp
qed (auto simp: Enqueue_refines Lease_refines ReleaseLease_refines ReleaseConsumer_refines
    DLQReplay_refines SweepExpired_refines sweeper_check_refines SetNotify_def Close_def signalSpace_def Enqueue_wake_def
    simp del: spec_step.simps(5,9))

section \<open>Trace equivalence\<close>

definition spec_init :: SpecQ where
  "spec_init = \<lparr>sMain = [], sRetry = [], sDlq = [], sLeases = Map.empty, sNext = 0, sTicks = 0,
     sSpace = 0, sClosed = False, sStop = False\<rparr>"

fun spec_ops :: "BrokerConfig \<Rightarrow> (nat \<Rightarrow> gotime) \<Rightarrow> op list \<Rightarrow> history \<times> SpecQ \<Rightarrow> history \<times> SpecQ" where
  "spec_ops c clk [] s = s"
| "spec_ops c clk (p # ps) s =
     (case spec_step c clk p (snd s) of (r, q) \<Rightarrow> spec_ops c clk ps ((p, r) # fst s, q))"

lemma NewBroker_abs: "NewBroker tn c = Some b \<Longrightarrow> broker_abs b = spec_init"
  by (auto simp: NewBroker_def Let_def broker_abs_def spec_init_def newDeque_def newDLQRing_def empty_ring_def split: if_splits)

lemma run_ops_refines:
  assumes "broker_run tn c h b" "length h + length ps < 2 ^ 64"
  shows "\<exists>h' b'. run_ops ps (h, b) = Some (h', b') \<and>
    spec_ops (cfg b) (now b) ps (h, broker_abs b) = (h', broker_abs b')"
  using assms
proof (induction ps arbitrary: h b)
  case (Cons p ps)
  note inv = run_inv [OF Cons.prems(1)]
  from exec_ok [of b p] inv obtain r b1 where
    e: "exec p b = Some (r, b1)" "good_step (admits (p, r)) (acks (p, r)) b b1" by auto
  have "length h < 2 ^ 64 - 1" using Cons.prems(2) by simp
  from run_ledger [OF Cons.prems(1) this] have "ids_inv b" by (simp add: ledger_def)
  from exec_refines [OF _ this e(1)] inv
  have s: "spec_step (cfg b) (now b) p (broker_abs b) = (r, broker_abs b1)" by simp
  have "cfg b1 = cfg b" "now b1 = now b" using e(2) by (simp_all add: good_step_def)
  with Cons.IH [OF broker_run.step [OF Cons.prems(1) e(1)]] Cons.prems(2) e(1) s show ?case by simp
qed simp

text \<open>C4. Refinement: the broker built on ring buffers, a binary heap and a lease table is
  indistinguishable from the abstract queue. From a new broker, any sequence of operations (fewer
  than \<open>2^64\<close> of them) runs to completion and returns, operation by operation, exactly the results of
  the specification, which keeps plain lists, a retry list sorted by visibility and id, and a map of
  leases.\<close>

theorem broker_refines_spec:
  assumes "NewBroker tn c = Some b0" "length ps < 2 ^ 64"
  shows "\<exists>h b. run_ops ps ([], b0) = Some (h, b) \<and>
    spec_ops (applyDefaults tn c) (the (Clock (applyDefaults tn c))) ps ([], spec_init) = (h, broker_abs b)"
proof -
  have run: "broker_run tn c [] b0" using assms(1) by (rule broker_run.init)
  from run_ops_refines [OF run, of ps] run_inv [OF run] NewBroker_abs [OF assms(1)] assms(2)
  show ?thesis by simp
qed

theorem broker_refines_spec_witness:
  "\<exists>h b. run_ops demo_ops ([], demo_start) = Some (h, b) \<and> used b = 2 \<and>
     spec_used (snd (spec_ops (applyDefaults demo_clock demo_cfg)
       (the (Clock (applyDefaults demo_clock demo_cfg))) demo_ops ([], spec_init))) = 2"
proof -
  note demo_start_new
  moreover have "length demo_ops < 2 ^ 64" by (simp add: demo_ops_def)
  ultimately obtain h b where r: "run_ops demo_ops ([], demo_start) = Some (h, b)"
    "spec_ops (applyDefaults demo_clock demo_cfg) (the (Clock (applyDefaults demo_clock demo_cfg)))
       demo_ops ([], spec_init) = (h, broker_abs b)"
    using broker_refines_spec [of demo_clock demo_cfg demo_start demo_ops] by blast
  have "b = snd demo_state" by (simp add: demo_state_def r(1))
  moreover have "used (snd demo_state) = 2" by code_simp
  ultimately have "used b = 2" "broker_inv b" using run_inv [OF demo_run] by simp_all
  with r show ?thesis by (simp add: spec_used_abs)
qed

end
