(* ===== verification/Broker_Delivery.thy ===== *)
theory Broker_Delivery
  imports Broker_Spec
begin

text \<open>
  Progress of the broker: nothing that waits for delivery starves. Once the backoff windows have passed,
  polling hands out every message of the retry lane and of the main lane, each once, redeliveries first by
  visibility and id, then the main lane in order of admission. The proof runs on the abstract queue of \<open>Broker_Spec\<close>.
\<close>

section \<open>Polling\<close>

text \<open>\<open>n\<close> polls by one consumer, ending early when nothing is deliverable.\<close>

fun take_leases :: "uint64 \<Rightarrow> nat \<Rightarrow> Broker \<Rightarrow> (TelemetryMessage list \<times> Broker) option" where
  "take_leases c 0 b = Some ([], b)"
| "take_leases c (Suc n) b = do {
     (r, b) \<leftarrow> Lease c b;
     (case r of
        None \<Rightarrow> Some ([], b)
      | Some m \<Rightarrow> do { (ms, b) \<leftarrow> take_leases c n b; Some (m # ms, b) })
   }"

definition delivery :: "entry \<Rightarrow> TelemetryMessage" where
  "delivery e = (msg e)\<lparr>pbDeliveryAttempts := attempts e + 1\<rparr>"

definition deliverable :: "Broker \<Rightarrow> entry list" where
  "deliverable b = map ri_e (sort_key retryKey (retry b)) @ ring_content (main b)"

text \<open>Every redelivery is visible at every later reading of the clock.\<close>

definition due :: "Broker \<Rightarrow> bool" where
  "due b \<longleftrightarrow> (\<forall>it \<in> set (retry b). \<forall>t \<ge> ticks b. visibleAt it \<le> now b t)"

section \<open>One poll\<close>

lemma sort_key_Nil_iff [simp]: "sort_key f xs = [] \<longleftrightarrow> xs = []"
  by (metis length_0_conv length_sort)

lemma spec_Lease_due:
  assumes "spec_Lease cf clk c s = (RMsg r, s')" "\<forall>it \<in> set (sRetry s). visibleAt it \<le> clk (sTicks s)"
  shows "case map ri_e (sRetry s) @ sMain s of
      [] \<Rightarrow> r = None \<and> sRetry s' = [] \<and> sMain s' = []
    | e # es \<Rightarrow> r = Some (delivery e) \<and> map ri_e (sRetry s') @ sMain s' = es \<and> set (sRetry s') \<subseteq> set (sRetry s)"
proof (cases "sRetry s")
  case Nil
  with assms(1) show ?thesis
    by (cases "sMain s") (auto simp: spec_Lease_def spec_visible_def spec_lease_def spec_tick_def delivery_def Let_def)
next
  case (Cons it its)
  with assms show ?thesis
    by (auto simp: spec_Lease_def spec_visible_def spec_lease_def spec_tick_def delivery_def Let_def)
qed

lemma Lease_due:
  assumes "broker_inv b" "ids_inv b" "due b"
  obtains r b' where "Lease c b = Some (r, b')" "broker_inv b'" "ids_inv b'" "due b'" "all_ids b' = all_ids b"
    "case deliverable b of [] \<Rightarrow> r = None \<and> deliverable b' = []
     | e # es \<Rightarrow> r = Some (delivery e) \<and> deliverable b' = es"
proof -
  from Lease_ok [OF assms(1), of c] assms(2) obtain r b' where
    l: "Lease c b = Some (r, b')" "broker_inv b'" "lane_move b b'" "all_ids b' = all_ids b" by blast
  have vis: "\<forall>it \<in> set (sRetry (broker_abs b)). visibleAt it \<le> now b (sTicks (broker_abs b))"
    using assms(3) by (simp add: due_def)
  note step = spec_Lease_due [OF Lease_refines [OF assms(1,2) l(1)] vis]
  have now: "now b' = now b" "ticks b \<le> ticks b'" using l(3) by (simp_all add: lane_move_def)
  have sub: "set (retry b') \<subseteq> set (retry b)" using step by (auto split: list.splits)
  have "due b'"
    using assms(3) sub now by (auto simp: due_def intro: le_trans)
  then show ?thesis
    using step by (intro that [OF l(1,2) ids_inv_move [OF assms(2) l(3)] _ l(4)])
      (auto simp: deliverable_def simp del: ring_content_empty_iff split: list.splits)
qed

lemma take_leases_due:
  assumes "broker_inv b" "ids_inv b" "due b"
  shows "\<exists>b'. take_leases c n b = Some (map delivery (take n (deliverable b)), b') \<and>
    broker_inv b' \<and> all_ids b' = all_ids b \<and> deliverable b' = drop n (deliverable b)"
  using assms
proof (induction n arbitrary: b)
  case (Suc n)
  from Lease_due [OF Suc.prems, of c] obtain r b1 where
    l: "Lease c b = Some (r, b1)" "broker_inv b1" "ids_inv b1" "due b1" "all_ids b1 = all_ids b"
      "case deliverable b of [] \<Rightarrow> r = None \<and> deliverable b1 = [] | e # es \<Rightarrow> r = Some (delivery e) \<and> deliverable b1 = es" .
  show ?case
  proof (cases "deliverable b")
    case Nil
    with l show ?thesis by simp
  next
    case (Cons e es)
    with l(6) have r: "r = Some (delivery e)" "deliverable b1 = es" by simp_all
    from Suc.IH [OF l(2-4)] obtain b' where "take_leases c n b1 = Some (map delivery (take n es), b')"
      "broker_inv b'" "all_ids b' = all_ids b1" "deliverable b' = drop n es" unfolding r(2) by blast
    with l(1,5) r(1) Cons show ?thesis by simp
  qed
qed simp

section \<open>Nothing starves\<close>

text \<open>C12. Progress: from any reachable state in which the backoff windows have passed, \<open>n\<close> polls hand out the first
  \<open>n\<close> deliverable messages, redeliveries by visibility and id and then the main lane in order of admission, each with its
  attempts counted up; as many polls as there are messages empty both lanes, no message is lost on
  the way, and a further poll finds nothing.\<close>

theorem polling_delivers_everything:
  assumes "broker_run tn c h b" "length h < 2 ^ 64 - 1" "\<forall>it \<in> set (retry b). \<forall>t \<ge> ticks b. visibleAt it \<le> now b t"
  shows "\<exists>b'. take_leases k n b = Some (map delivery (take n (map ri_e (sort_key retryKey (retry b)) @ ring_content (main b))), b') \<and>
    all_ids b' = all_ids b \<and>
    (stDepth (Inspect b) + stRetryDepth (Inspect b) \<le> n \<longrightarrow>
       stDepth (Inspect b') = 0 \<and> stRetryDepth (Inspect b') = 0 \<and> (\<exists>b''. Lease k b' = Some (None, b'')))"
proof -
  have inv: "broker_inv b" using run_inv [OF assms(1)] by simp
  have ids: "ids_inv b" using run_ledger [OF assms(1,2)] by (simp add: ledger_def)
  have d: "due b" using assms(3) by (simp add: due_def)
  from take_leases_due [OF inv ids d, of k n] obtain b' where
    t: "take_leases k n b = Some (map delivery (take n (deliverable b)), b')" "broker_inv b'" "all_ids b' = all_ids b"
      "deliverable b' = drop n (deliverable b)" by blast
  have len: "length (deliverable x) = stDepth (Inspect x) + stRetryDepth (Inspect x)" for x
    by (simp add: deliverable_def Inspect_def Let_def deque_len_def)
  have emptied: "stDepth (Inspect b') = 0 \<and> stRetryDepth (Inspect b') = 0 \<and> (\<exists>b''. Lease k b' = Some (None, b''))"
    if "stDepth (Inspect b) + stRetryDepth (Inspect b) \<le> n"
  proof -
    have e: "deliverable b' = []" using t(4) that len [of b] by simp
    then have "retry b' = []" "ring_content (main b') = []" by (simp_all add: deliverable_def del: ring_content_empty_iff)
    with t(2) have "\<exists>b''. Lease k b' = Some (None, b'')"
      by (cases rule: Lease_cases [OF t(2), where c = k]) (simp_all add: head_visible_def)
    with e len [of b'] show ?thesis by simp
  qed
  show ?thesis using t(1,3) emptied by (intro exI [of _ b']) (simp add: deliverable_def)
qed

definition demo_redelivery :: "history \<times> Broker" where
  "demo_redelivery = the (run_ops [OpEnqueue (demo_msg ''0''), OpEnqueue (demo_msg ''1''), OpLease 7, OpReleaseLease 1 7] ([], demo_start))"

lemma demo_redelivery_run: "broker_run demo_clock demo_cfg (fst demo_redelivery) (snd demo_redelivery)"
  unfolding demo_redelivery_def by (rule run_ops_run(1) [OF demo_init])

theorem polling_delivers_everything_witness:
  "\<exists>ms b'. take_leases 9 2 (snd demo_redelivery) = Some (ms, b') \<and> map pbId ms = [1, 2] \<and>
     stDepth (Inspect b') = 0 \<and> stRetryDepth (Inspect b') = 0 \<and> all_ids b' = all_ids (snd demo_redelivery)"
proof -
  let ?b = "snd demo_redelivery"
  have f: "map visibleAt (retry ?b) = [1]" "ticks ?b = 2" "length (fst demo_redelivery) = 4"
    "map (pbId \<circ> delivery) (map ri_e (sort_key retryKey (retry ?b)) @ ring_content (main ?b)) = [1, 2]"
    "stDepth (Inspect ?b) + stRetryDepth (Inspect ?b) = 2" by code_simp+
  have now: "now ?b = demo_clock" using run_inv [OF demo_redelivery_run] by (simp add: demo_cfg_def applyDefaults_def Let_def)
  have "\<forall>it \<in> set (retry ?b). visibleAt it = 1" using f(1) by (metis (no_types) empty_iff imageI list.set(1,2) list.set_map insert_iff)
  then have "\<forall>it \<in> set (retry ?b). \<forall>t \<ge> ticks ?b. visibleAt it \<le> now ?b t" by (simp add: now f(2) demo_clock_def)
  from polling_delivers_everything [OF demo_redelivery_run _ this, of 9 2] f(3) f(5) obtain b' where
    b': "take_leases 9 2 ?b = Some (map delivery (take 2 (map ri_e (sort_key retryKey (retry ?b)) @ ring_content (main ?b))), b')"
      "all_ids b' = all_ids ?b" "stDepth (Inspect b') = 0" "stRetryDepth (Inspect b') = 0" by auto
  have "map pbId (map delivery (take 2 (map ri_e (sort_key retryKey (retry ?b)) @ ring_content (main ?b)))) = take 2 [1, 2]"
    unfolding f(4) [symmetric] by (simp only: map_map take_map)
  with b' show ?thesis by auto
qed

end
