(* ===== verification/Broker_Props.thy ===== *)
theory Broker_Props
  imports Broker_Safety
begin

text \<open>
  What the message queue promises, over every run of the broker: the capacity budget, the absence
  of panics, the ledger of message ids, at-least-once delivery without eviction, the bounds on
  delivery attempts, the delivery order, ownership of acknowledgements, and that no producer
  parked by the block policy misses the signal for a freed slot.
\<close>

section \<open>Budget and panics\<close>



text \<open>C6. No panic: in every reachable state every operation of the broker returns (the strict
  main-lane \<open>pushBack\<close> never hits its full-buffer panic, no nil entry is dereferenced, no index is
  out of range), and the state it leaves is reachable again.\<close>

theorem no_panic:
  assumes "broker_run tn c h b"
  shows "\<exists>r b'. exec p b = Some (r, b') \<and> broker_run tn c ((p, r) # h) b'"
  using exec_ok [of b p] run_inv [OF assms] broker_run.step [OF assms] by blast

theorem no_panic_witness:
  "\<exists>r b'. exec (OpReleaseLease 2 8) (snd demo_state) = Some (r, b') \<and>
     broker_run demo_clock demo_cfg ((OpReleaseLease 2 8, r) # fst demo_state) b'"
  using no_panic [OF demo_run] .

section \<open>The ledger of message ids\<close>

text \<open>C7. The ledger: over every run of fewer than \<open>2^64 - 1\<close> steps, the ids handed out by
  \<open>Enqueue\<close> are exactly \<open>1, 2, \<dots>, nextID\<close>, each once, and every one of them is in exactly one
  place: held by one lane (main, retry, lease table or DLQ), acknowledged, or evicted; and the
  evictions are exactly as many as the counters \<open>droppedOverflow\<close> and \<open>dlqEvicted\<close> report.\<close>

theorem message_ledger:
  assumes "broker_run tn c h b" "length h < 2 ^ 64 - 1"
  shows "admitted_ids h = mset (map of_nat [1..<Suc (unat (nextID b))]) \<and>
    (\<forall>i. count (admitted_ids h) i \<le> 1) \<and>
    (\<exists>evicted. admitted_ids h = all_ids b + acked_ids h + evicted \<and>
       int (size evicted) = stDroppedOverflow (Inspect b) + stDLQEvictedTotal (Inspect b))"
proof (intro conjI)
  from run_ledger [OF assms] have l: "ledger h b" by simp
  then show "admitted_ids h = mset (map of_nat [1..<Suc (unat (nextID b))])"
    unfolding ledger_def by blast
  show "\<forall>i. count (admitted_ids h) i \<le> 1" using ledger_unique(1) [OF l] by blast
  from l obtain evicted where "admitted_ids h = all_ids b + acked_ids h + evicted"
    "int (size evicted) = droppedOverflow b + dlqEvicted b" unfolding ledger_def by blast
  then show "\<exists>evicted. admitted_ids h = all_ids b + acked_ids h + evicted \<and>
      int (size evicted) = stDroppedOverflow (Inspect b) + stDLQEvictedTotal (Inspect b)"
    by (intro exI [of _ evicted]) (simp add: Inspect_def)
qed

theorem message_ledger_witness:
  "admitted_ids (fst demo_state) = {#1, 2, 3#} \<and> acked_ids (fst demo_state) = {#1#} \<and>
   (\<exists>evicted. {#1, 2, 3#} = all_ids (snd demo_state) + {#1#} + evicted \<and> size evicted = 0)"
proof -
  have *: "admitted_ids (fst demo_state) = {#1, 2, 3#}" "acked_ids (fst demo_state) = {#1#}"
    "stDroppedOverflow (Inspect (snd demo_state)) + stDLQEvictedTotal (Inspect (snd demo_state)) = 0"
    by code_simp+
  with message_ledger [OF demo_run demo_length] show ?thesis by auto
qed

text \<open>C8. At-least-once: under the reject and block policies, as long as the dead-letter ring has
  not overflowed, an admitted message is never lost: at every moment it is either acknowledged or
  still held by the broker, and never both. No message is held twice or acknowledged twice.\<close>

theorem at_least_once:
  assumes "broker_run tn c h b" "length h < 2 ^ 64 - 1"
    "Policy c = PolicyReject \<or> Policy c = PolicyBlock" "stDLQEvictedTotal (Inspect b) = 0"
    "i \<in># admitted_ids h"
  shows "(i \<in># all_ids b) \<noteq> (i \<in># acked_ids h) \<and> count (all_ids b) i + count (acked_ids h) i = 1"
proof -
  from run_ledger [OF assms(1,2)] have l: "ledger h b" by simp
  have "Policy (cfg b) \<noteq> PolicyDropOldest"
    using assms(3) run_inv [OF assms(1)] by (auto simp: applyDefaults_def policy_defs)
  from run_no_overflow [OF assms(1,2) this] assms(4) have "droppedOverflow b + dlqEvicted b = 0"
    by (simp add: Inspect_def)
  from ledger_lossless [OF l this] assms(5) have "1 \<le> count (all_ids b) i + count (acked_ids h) i"
    by (metis count_union less_one linorder_not_less not_in_iff)
  with ledger_unique(2) [OF l, of i] have "count (all_ids b) i + count (acked_ids h) i = 1" by linarith
  then show ?thesis by (auto simp: not_in_iff simp flip: count_greater_zero_iff)
qed

theorem at_least_once_witness:
  "3 \<in># all_ids (snd demo_state) \<and> 3 \<notin># acked_ids (fst demo_state)"
proof -
  have *: "3 \<in># admitted_ids (fst demo_state)" "acked_ids (fst demo_state) = {#1#}"
    "stDLQEvictedTotal (Inspect (snd demo_state)) = 0" by code_simp+
  with at_least_once [OF demo_run demo_length _ *(3,1)] show ?thesis by (simp add: demo_cfg_def)
qed

section \<open>Delivery attempts and acknowledgement\<close>

lemma Lease_msg:
  assumes "broker_inv b" "attempts_inv b" "Lease c b = Some (Some m, b')"
  shows "\<exists>e. m = (msg e)\<lparr>pbDeliveryAttempts := attempts e + 1\<rparr> \<and> attempts e < MaxDeliveries (cfg b) \<and>
     (e \<in> ri_e ` set (retry b) \<or> e \<in> set (ring_content (main b)))"
  using assms(1)
proof (cases rule: Lease_cases [where c = c])
  case (retried it h)
  have "m = (msg (ri_e it))\<lparr>pbDeliveryAttempts := attempts (ri_e it) + 1\<rparr>"
    using retried(3) assms(3) by (simp add: leaseEntry_def readClock_def Let_def)
  moreover note pop_retry(5) [OF assms(1) retried(2)]
  moreover from this have "attempts (ri_e it) < MaxDeliveries (cfg b)"
    using assms(2) by (simp add: attempts_inv_def)
  ultimately show ?thesis by blast
next
  case (fresh e xs d)
  then have "m = (msg e)\<lparr>pbDeliveryAttempts := attempts e + 1\<rparr>" "attempts e = 0"
    using assms(2,3) by (simp_all add: leaseEntry_def readClock_def Let_def attempts_inv_def)
  moreover have "MaxDeliveries (cfg b) \<noteq> 0" using assms(1) by (simp add: broker_inv_def)
  ultimately show ?thesis using fresh(2) by (intro exI [of _ e]) (simp add: word_gt_0)
next
  case idle
  with assms(3) show ?thesis by simp
qed

text \<open>C14. Delivery attempts: every message handed to a consumer carries an attempt count between 1
  and \<open>MaxDeliveries\<close> (the \<open>uint32\<close> counter never wraps), and every dead letter that can be listed
  has used up exactly \<open>MaxDeliveries\<close> deliveries.\<close>

theorem delivery_attempts_bounded:
  assumes "broker_run tn c h b"
  shows "(Lease cid b = Some (Some m, b') \<longrightarrow>
      1 \<le> unat (pbDeliveryAttempts m) \<and> unat (pbDeliveryAttempts m) \<le> unat (MaxDeliveries (cfg b))) \<and>
    (DLQList limit b = Some es \<longrightarrow> (\<forall>e \<in> set es. dAttempts e = MaxDeliveries (cfg b)))"
proof (intro conjI impI)
  note inv = run_inv [OF assms]
  then have bi: "broker_inv b" and ai: "attempts_inv b" by simp_all
  assume "Lease cid b = Some (Some m, b')"
  from Lease_msg [OF bi ai this] obtain e :: entry where
    e: "m = (msg e)\<lparr>pbDeliveryAttempts := attempts e + 1\<rparr>" "attempts e < MaxDeliveries (cfg b)" by blast
  from unat_succ [OF word_succ_nonzero [OF e(2)]] e(2)
  show "1 \<le> unat (pbDeliveryAttempts m)" "unat (pbDeliveryAttempts m) \<le> unat (MaxDeliveries (cfg b))"
    by (simp_all add: e(1) word_less_nat_alt)
next
  note inv = run_inv [OF assms]
  assume "DLQList limit b = Some es"
  then have "set es \<subseteq> toDLQEntry ` set (ring_content (dlq b))"
    using DLQList_ok [of b limit] inv by (auto split: if_splits intro!: imageI dest: in_set_takeD)
  then show "\<forall>e \<in> set es. dAttempts e = MaxDeliveries (cfg b)"
    using inv by (auto simp: attempts_inv_def toDLQEntry_def)
qed

theorem delivery_attempts_bounded_witness:
  "map_option (map_option (unat \<circ> pbDeliveryAttempts) \<circ> fst) (Lease 9 (snd demo_state)) = Some (Some 2) \<and>
   2 \<le> unat (MaxDeliveries (cfg (snd demo_state)))"
proof -
  have e: "map_option (map_option (unat \<circ> pbDeliveryAttempts) \<circ> fst) (Lease 9 (snd demo_state)) = Some (Some 2)"
    by code_simp
  then obtain m b' where "Lease 9 (snd demo_state) = Some (Some m, b')" "unat (pbDeliveryAttempts m) = 2"
    by auto
  with e delivery_attempts_bounded [OF demo_run, of 9 m b'] show ?thesis by auto
qed

lemma leased_held: "i \<in> fst ` set (leases b) \<Longrightarrow> i \<in># all_ids b"
  by (auto simp: ids_defs)

lemma Lease_msg_held:
  assumes "broker_inv b" "attempts_inv b" "Lease c b = Some (Some m, b')"
  shows "pbId m \<in># all_ids b"
  using Lease_msg [OF assms] by (auto simp: ids_defs)

text \<open>C13. Acknowledgement: \<open>Ack\<close> succeeds exactly when the lease table holds the id for that very
  consumer (foreign, double and revoked acks are no-ops); an id is acknowledged at most once over a
  whole run, and a message that has been acknowledged is never delivered again.\<close>

theorem ack_once_and_owned:
  assumes "broker_run tn c h b" "length h < 2 ^ 64 - 1"
  shows "(fst (Ack i cid b) \<longleftrightarrow> (\<exists>r. map_of (leases b) i = Some r \<and> consumer r = cid)) \<and>
    (\<not> fst (Ack i cid b) \<longrightarrow> snd (Ack i cid b) = b) \<and>
    count (acked_ids h) i \<le> 1 \<and>
    (i \<in># acked_ids h \<longrightarrow> \<not> fst (Ack i cid b) \<and>
       (\<forall>m b'. Lease cid b = Some (Some m, b') \<longrightarrow> pbId m \<noteq> i))"
proof -
  note inv = run_inv [OF assms(1)]
  from run_ledger [OF assms] have l: "ledger h b" by simp
  have a: "fst (Ack i cid b) \<longleftrightarrow> (\<exists>r. map_of (leases b) i = Some r \<and> consumer r = cid)"
    by (auto simp: Ack_def split: option.splits)
  have no: "i \<notin># all_ids b" if "i \<in># acked_ids h"
    using ledger_unique(2) [OF l, of i] that by (auto simp: not_in_iff simp flip: count_greater_zero_iff)
  have "\<not> fst (Ack i cid b)" if "i \<in># acked_ids h"
    using no [OF that] leased_held [of i b] map_of_SomeD [of "leases b" i] a by force
  moreover have "pbId m \<noteq> i" if "i \<in># acked_ids h" "Lease cid b = Some (Some m, b')" for m b'
    using no [OF that(1)] Lease_msg_held [OF _ _ that(2)] inv by auto
  moreover have "count (acked_ids h) i \<le> 1" using ledger_unique(2) [OF l, of i] by linarith
  ultimately show ?thesis using a Ack_ok(5) [of b i cid] inv by blast
qed

theorem ack_once_and_owned_witness:
  "\<not> fst (Ack 1 7 (snd demo_state)) \<and> snd (Ack 1 7 (snd demo_state)) = snd demo_state \<and>
   count (acked_ids (fst demo_state)) 1 = 1"
proof -
  have "acked_ids (fst demo_state) = {#1#}" by code_simp
  with ack_once_and_owned [OF demo_run demo_length, of 1 7] show ?thesis by auto
qed

section \<open>Delivery order\<close>

lemma head_visible_iff:
  assumes "broker_inv b"
  shows "head_visible b \<longleftrightarrow> (\<exists>it \<in> set (retry b). visibleAt it \<le> now b (ticks b))"
proof
  show "head_visible b \<Longrightarrow> \<exists>it \<in> set (retry b). visibleAt it \<le> now b (ticks b)"
    by (auto simp: head_visible_def)
next
  assume "\<exists>it \<in> set (retry b). visibleAt it \<le> now b (ticks b)"
  then obtain k where k: "k < length (retry b)" "visibleAt (retry b ! k) \<le> now b (ticks b)"
    by (auto simp: in_set_conv_nth)
  have "retryKey (retry b ! 0) \<le> retryKey (retry b ! k)"
    using assms k(1) by (intro heap_inv_root) (simp add: broker_inv_def)
  then have "visibleAt (retry b ! 0) \<le> visibleAt (retry b ! k)"
    by (auto simp: retryKey_def less_eq_prod_def)
  with k show "head_visible b" by (cases "retry b") (auto simp: head_visible_def)
qed

lemma pop_visible:
  assumes "broker_inv b" "head_visible b" "heap_Pop retryLess (retry b) = Some (it, h)"
  shows "it \<in> set (retry b)" "visibleAt it \<le> now b (ticks b)" "\<forall>it' \<in> set (retry b). retryKey it \<le> retryKey it'"
proof -
  have heap: "heap_inv retryKey (retry b)" using assms(1) by (simp add: broker_inv_def)
  show "\<forall>it' \<in> set (retry b). retryKey it \<le> retryKey it'"
    using retry_lane.pop_least [OF heap assms(3)] by simp
  show "it \<in> set (retry b)" by (rule pop_retry(5) [OF assms(1,3)])
  from heap_Pop_props [OF retryLess_key heap] assms(2,3)
  have "it = hd (retry b)" by (auto simp: head_visible_def hd_conv_nth)
  with assms(2) show "visibleAt it \<le> now b (ticks b)" by (simp add: head_visible_def)
qed

text \<open>C11. Delivery order: \<open>Lease\<close> hands out the redelivery with the earliest visibility time (ties by
  the smaller id) when one is visible now; otherwise the oldest message of the main lane; and it
  returns nothing only when the main lane is empty and every redelivery is still in its backoff
  window. The message is leased to the caller until now plus \<open>LeaseTTL\<close>.\<close>

theorem lease_order:
  assumes "broker_run tn c h b" "Lease cid b = Some (r, b')"
  shows "case r of
      Some m \<Rightarrow>
        (\<exists>e. m = (msg e)\<lparr>pbDeliveryAttempts := attempts e + 1\<rparr> \<and>
          map_of (leases b') (pbId m) = Some \<lparr>lr_e = \<lparr>msg = m, attempts = attempts e + 1\<rparr>, consumer = cid,
              deadline = now b (vis_ticks b) + LeaseTTL (cfg b)\<rparr> \<and>
          (if \<exists>it \<in> set (retry b). visibleAt it \<le> now b (ticks b)
           then \<exists>it \<in> set (retry b). ri_e it = e \<and> visibleAt it \<le> now b (ticks b) \<and>
                 (\<forall>it' \<in> set (retry b). (visibleAt it, pbId (msg e)) \<le> (visibleAt it', pbId (msg (ri_e it'))))
           else ring_content (main b) = e # ring_content (main b')))
    | None \<Rightarrow> ring_content (main b) = [] \<and> (\<forall>it \<in> set (retry b). now b (ticks b) < visibleAt it)"
proof -
  have inv: "broker_inv b" using run_inv [OF assms(1)] by simp
  note vis = head_visible_iff [OF inv]
  show ?thesis using inv
  proof (cases rule: Lease_cases [where c = cid])
    case (retried it hp)
    note p = pop_visible [OF inv retried(1,2)]
    have "(visibleAt it, pbId (msg (ri_e it))) \<le> (visibleAt it', pbId (msg (ri_e it')))"
      if "it' \<in> set (retry b)" for it' using p(3) that by (simp add: retryKey_def)
    with retried assms(2) vis p show ?thesis
      by (auto simp: leaseEntry_def readClock_def Let_def update_conv)
  next
    case (fresh e xs d)
    with assms(2) vis show ?thesis
      by (auto simp: leaseEntry_def readClock_def Let_def update_conv)
  next
    case idle
    with assms(2) vis show ?thesis by (auto simp: not_le)
  qed
qed

theorem lease_order_witness:
  "\<exists>m b'. Lease 9 (snd demo_state) = Some (Some m, b') \<and> pbId m = 2 \<and>
     (\<exists>r. map_of (leases b') 2 = Some r \<and> consumer r = 9)"
proof -
  have e: "map_option (map_option pbId \<circ> fst) (Lease 9 (snd demo_state)) = Some (Some 2)" by code_simp
  then obtain m b' where m: "Lease 9 (snd demo_state) = Some (Some m, b')" "pbId m = 2" by auto
  from lease_order [OF demo_run m(1)] m(2) have "\<exists>r. map_of (leases b') 2 = Some r \<and> consumer r = 9"
    by auto
  with m show ?thesis by blast
qed

section \<open>Parked producers\<close>

lemma run_ops_space:
  assumes "broker_run tn c (fst s) (snd s)" "run_ops ps s = Some s'" "length (fst s') < 2 ^ 64 - 1"
  shows "spaceCh (snd s) \<le> spaceCh (snd s') \<and>
    (spaceCh (snd s') = spaceCh (snd s) \<longrightarrow>
       used (snd s) \<le> used (snd s') \<and> closed (snd s') = closed (snd s))"
  using assms
proof (induction ps arbitrary: s)
  case (Cons p ps)
  from exec_ok [of "snd s" p] run_inv [OF Cons.prems(1)] obtain r b where
    e: "exec p (snd s) = Some (r, b)" "good_step (admits (p, r)) (acks (p, r)) (snd s) b" by auto
  let ?s = "((p, r) # fst s, b)"
  have run: "broker_run tn c (fst ?s) (snd ?s)" using broker_run.step [OF Cons.prems(1) e(1)] by simp
  from Cons.prems(2) e(1) have ops: "run_ops ps ?s = Some s'" by simp
  from run_ops_total [OF run, of ps] ops have "length (fst s') = length ps + length (fst ?s)" by simp
  with Cons.prems(3) have "length (fst s) < 2 ^ 64 - 1" by simp
  from run_ledger [OF Cons.prems(1) this] e(2)
  have so: "step_ok (admits (p, r)) (acks (p, r)) (snd s) b" by (simp add: good_step_def ledger_def)
  from Cons.IH [OF run ops Cons.prems(3)] so show ?case
    unfolding step_ok_def by (auto simp: not_less)
qed simp

text \<open>C9. No lost wake-up under the block policy: when \<open>Enqueue\<close> parks on a generation of the space
  channel, then whatever the other goroutines do, as long as that generation has not been closed
  the budget is still full and the broker still open; so a producer is never left waiting next to a
  free slot.\<close>

theorem no_lost_wakeup:
  assumes "broker_run tn c h b" "Enqueue_pass m b = Some (Parked g, b0)"
    "run_ops ps (h, b0) = Some (h', b')" "length h' < 2 ^ 64 - 1" "spaceCh b' = g"
  shows "int (used b') = Capacity (cfg b') \<and> \<not> closed b'"
proof -
  have inv: "broker_inv b" using run_inv [OF assms(1)] by simp
  then have p: "\<not> closed b" "int (used b) = Capacity (cfg b)" "b0 = b" "g = spaceCh b"
    using assms(2) by (cases rule: Enqueue_pass_cases [where m = m]; simp)+
  from run_ops_total [of tn c "(h, b)" ps] assms(1,3) p(3) have run': "broker_run tn c h' b'" by simp
  from run_ops_space [of tn c "(h, b)" ps "(h', b')"] assms p
  have u: "used b \<le> used b'" "closed b' = closed b" by simp_all
  have "cfg b' = cfg b" using run_inv [OF assms(1)] run_inv [OF run'] by simp
  moreover have "int (used b') \<le> Capacity (cfg b')" using run_inv [OF run'] unfolding broker_inv_def by blast
  ultimately show ?thesis using u p by simp
qed

definition block_cfg :: BrokerConfig where
  "block_cfg = demo_cfg\<lparr>Policy := PolicyBlock\<rparr>"

definition block_state :: "history \<times> Broker" where
  "block_state = the (run_ops [OpEnqueue (demo_msg ''0''), OpEnqueue (demo_msg ''1'')]
     ([], the (NewBroker demo_clock block_cfg)))"

lemma block_run: "broker_run demo_clock block_cfg (fst block_state) (snd block_state)"
proof -
  have "broker_run demo_clock block_cfg [] (the (NewBroker demo_clock block_cfg))"
  proof (rule broker_run.init)
    have "\<exists>b. NewBroker demo_clock block_cfg = Some b"
      unfolding NewBroker_Some by (simp add: block_cfg_def demo_cfg_def applyDefaults_def)
    then show "NewBroker demo_clock block_cfg = Some (the (NewBroker demo_clock block_cfg))" by auto
  qed
  then show ?thesis unfolding block_state_def by (rule run_ops_run(1))
qed

theorem no_lost_wakeup_witness:
  "\<exists>h' b'. run_ops [OpLease 3, OpReleaseLease 1 3] (fst block_state, snd block_state) = Some (h', b') \<and>
     spaceCh b' = spaceCh (snd block_state) \<and> int (used b') = Capacity (cfg b') \<and> \<not> closed b'"
proof -
  let ?ops = "[OpLease 3, OpReleaseLease 1 3]"
  have "\<not> closed (snd block_state)" "int (used (snd block_state)) = Capacity (cfg (snd block_state))"
    "Policy (cfg (snd block_state)) = PolicyBlock" by code_simp+
  then have p: "Enqueue_pass (demo_msg ''2'') (snd block_state) =
      Some (Parked (spaceCh (snd block_state)), snd block_state)"
    by (simp add: Enqueue_pass.simps policy_defs)
  have "map_option (\<lambda>(h, b). (length h, spaceCh b)) (run_ops ?ops block_state) = Some (4, 0)"
    by code_simp
  then obtain h' b' where r: "run_ops ?ops (fst block_state, snd block_state) = Some (h', b')"
    "length h' = 4" "spaceCh b' = 0" by auto
  have sp: "spaceCh (snd block_state) = 0" by code_simp
  from no_lost_wakeup [OF block_run p r(1)] r sp show ?thesis by auto
qed

lemma Enqueue_pass_total:
  assumes "broker_inv b"
  shows "\<exists>r b'. Enqueue_pass m b = Some (r, b') \<and> broker_inv b'"
  using exec_ok [OF assms, of "OpEnqueue m"] by (auto simp: good_step_def)

text \<open>What a parked producer ends with, once its timer is armed for the instant \<open>d\<close>.\<close>

definition wait_over :: "gotime \<Rightarrow> parked_event \<Rightarrow> bool" where
  "wait_over d ev \<longleftrightarrow> (case ev of (t, w, f) \<Rightarrow> w = TimedOut \<and> d \<le> t \<or> (\<exists>e. w = CtxDone e))"

definition timer_fires :: "gotime \<Rightarrow> parked_event \<Rightarrow> bool" where
  "timer_fires d ev \<longleftrightarrow> (case ev of (t, w, f) \<Rightarrow> w = TimedOut \<and> d \<le> t)"

definition others_safe :: "parked_event list \<Rightarrow> bool" where
  "others_safe evs \<longleftrightarrow> (\<forall>(t, w, f) \<in> set evs. \<forall>b. broker_inv b \<longrightarrow> broker_inv (f b) \<and> cfg (f b) = cfg b)"

definition enqueue_outcome :: "gotime \<Rightarrow> parked_event list \<Rightarrow> Broker \<Rightarrow> (enq_pass \<times> Broker) option \<Rightarrow> bool" where
  "enqueue_outcome d evs b out \<longleftrightarrow> (\<exists>r b'. out = Some (r, b') \<and> broker_inv b' \<and> cfg b' = cfg b \<and>
     ((\<exists>ev \<in> set evs. wait_over d ev) \<longrightarrow> (\<forall>g. r \<noteq> Parked g)) \<and>
     (Policy (cfg b) = PolicyBlock \<and> r = Refused ErrFull \<longrightarrow> (\<exists>ev \<in> set evs. timer_fires d ev)))"

lemma Enqueue_pass_block:
  assumes "broker_inv b"
  shows "\<exists>r b'. Enqueue_pass m b = Some (r, b') \<and> broker_inv b' \<and> cfg b' = cfg b \<and>
    (Policy (cfg b) = PolicyBlock \<longrightarrow> r \<noteq> Refused ErrFull)"
proof -
  from exec_ok [OF assms, of "OpEnqueue m"] obtain r b' where
    "Enqueue_pass m b = Some (r, b')" "broker_inv b'" "cfg b' = cfg b" by (auto simp: good_step_def)
  moreover have "Policy (cfg b) = PolicyBlock \<longrightarrow> r \<noteq> Refused ErrFull"
    using calculation(1) by (auto simp: Enqueue_pass.simps [of m b] admit_def Let_def policy_defs split: if_splits Option.bind_splits)
  ultimately show ?thesis by blast
qed

lemma Enqueue_wake_outcome:
  assumes "broker_inv b" "wake_ready (Some d) g t w b"
  obtains (parked) g' b' where "w = SpaceFreed" "Enqueue_wake w m b = Some (Parked g', b')" "broker_inv b'" "cfg b' = cfg b"
  | (returned) r b' where "Enqueue_wake w m b = Some (r, b')" "\<And>g. r \<noteq> Parked g" "broker_inv b'" "cfg b' = cfg b"
      "Policy (cfg b) = PolicyBlock \<and> r = Refused ErrFull \<longrightarrow> w = TimedOut \<and> d \<le> t"
proof (cases w)
  case SpaceFreed
  from Enqueue_pass_block [OF assms(1), of m] obtain r b' where
    p: "Enqueue_pass m b = Some (r, b')" "broker_inv b'" "cfg b' = cfg b" "Policy (cfg b) = PolicyBlock \<longrightarrow> r \<noteq> Refused ErrFull" by blast
  then show ?thesis using SpaceFreed parked returned by (cases r) (auto simp: Enqueue_wake_def)
next
  case TimedOut
  with assms show ?thesis
    by (intro returned [of "Refused ErrFull" "b\<lparr>rejected := rejected b + 1\<rparr>"]) (auto simp: Enqueue_wake_def wake_ready_def)
next
  case (CtxDone e)
  with assms show ?thesis by (intro returned [of "Refused (ErrCtx e)" b]) (auto simp: Enqueue_wake_def)
qed

lemma Enqueue_parked_outcome:
  "broker_inv b \<Longrightarrow> others_safe evs \<Longrightarrow> enqueue_outcome d evs b (Enqueue_parked evs m (Some d) g b)"
proof (induction evs arbitrary: b g)
  case Nil
  then show ?case by (simp add: enqueue_outcome_def)
next
  case (Cons ev evs)
  obtain t w f where ev: "ev = (t, w, f)" by (metis prod.exhaust)
  have fb: "broker_inv (f b)" "cfg (f b) = cfg b" and safe: "others_safe evs" using Cons.prems ev by (auto simp: others_safe_def)
  show ?case
  proof (cases "wake_ready (Some d) g t w (f b)")
    case False
    then have "\<not> wait_over d ev" using ev by (auto simp: wake_ready_def wait_over_def)
    moreover have "enqueue_outcome d evs (f b) (Enqueue_parked (ev # evs) m (Some d) g b)"
      using Cons.IH [OF fb(1) safe, of g] False ev by simp
    ultimately show ?thesis using fb(2) unfolding enqueue_outcome_def by auto
  next
    case True
    from fb(1) True show ?thesis
    proof (cases rule: Enqueue_wake_outcome [where m = m])
      case (parked g' b')
      have "enqueue_outcome d evs b' (Enqueue_parked (ev # evs) m (Some d) g b)"
        using Cons.IH [OF parked(3) safe, of g'] True ev parked(2) by (simp add: arm_timer_def)
      moreover have "\<not> wait_over d ev" using parked(1) ev by (simp add: wait_over_def)
      ultimately show ?thesis using parked(4) fb(2) unfolding enqueue_outcome_def by auto
    next
      case (returned r b')
      then have "Enqueue_parked (ev # evs) m (Some d) g b = Some (r, b')"
        using True ev by (cases r) auto
      with returned ev fb(2) show ?thesis unfolding enqueue_outcome_def by (auto simp: timer_fires_def)
    qed
  qed
qed

lemma Enqueue_outcome:
  assumes "broker_inv b" "others_safe evs"
  shows "enqueue_outcome (t0 + BlockTimeout (cfg b)) evs b (Enqueue (t0, evs) m b)"
proof -
  from Enqueue_pass_block [OF assms(1), of m] obtain r b' where
    p: "Enqueue_pass m b = Some (r, b')" "broker_inv b'" "cfg b' = cfg b" "Policy (cfg b) = PolicyBlock \<longrightarrow> r \<noteq> Refused ErrFull" by blast
  show ?thesis
  proof (cases "\<exists>g. r = Parked g")
    case True
    with p Enqueue_parked_outcome [OF p(2) assms(2)] show ?thesis
      by (auto simp: Enqueue_def arm_timer_def enqueue_outcome_def)
  next
    case False
    then have "Enqueue (t0, evs) m b = Some (r, b')" using p(1) by (cases r) (auto simp: Enqueue_def)
    with p False show ?thesis by (auto simp: enqueue_outcome_def)
  qed
qed

text \<open>C10. A blocked \<open>Enqueue\<close> waits for \<open>BlockTimeout\<close> and no longer: the timer runs from the moment the call first
  parks, and space signals that wake the producer in vain do not start it again. Whatever the other
  goroutines do in between, the call never panics; it has returned once the \<open>select\<close> takes the timer at or after
  that moment plus \<open>BlockTimeout\<close>, or the context ends; and under the block policy it reports a full queue only
  then, never earlier.\<close>

theorem enqueue_returns:
  assumes "broker_inv b" "\<forall>(t, w, f) \<in> set evs. \<forall>b. broker_inv b \<longrightarrow> broker_inv (f b) \<and> cfg (f b) = cfg b"
    "d = t0 + BlockTimeout (cfg b)"
  shows "\<exists>r b'. Enqueue (t0, evs) m b = Some (r, b') \<and> broker_inv b' \<and>
    ((\<exists>(t, w, f) \<in> set evs. w = TimedOut \<and> d \<le> t \<or> (\<exists>e. w = CtxDone e)) \<longrightarrow> (\<forall>g. r \<noteq> Parked g)) \<and>
    (Policy (cfg b) = PolicyBlock \<and> r = Refused ErrFull \<longrightarrow> (\<exists>(t, w, f) \<in> set evs. w = TimedOut \<and> d \<le> t))"
  using Enqueue_outcome [OF assms(1) assms(2) [folded others_safe_def], of t0 m]
  unfolding enqueue_outcome_def wait_over_def timer_fires_def assms(3) [symmetric] by (elim exE conjE) (intro exI conjI)

text \<open>A space signal wakes the producer in vain half way; the timer of the first pass still ends the call.\<close>

definition vain_wakeup :: "parked_event list" where
  "vain_wakeup = [(500000000, SpaceFreed, signalSpace), (1000000000, TimedOut, SetNotify)]"

theorem enqueue_returns_witness:
  "\<exists>r b'. Enqueue (0, vain_wakeup) (demo_msg ''2'') (snd block_state) = Some (r, b') \<and>
     broker_inv b' \<and> (\<forall>g. r \<noteq> Parked g)"
proof -
  have inv: "broker_inv (snd block_state)" using run_inv [OF block_run] by simp
  have safe: "\<forall>(t, w, f) \<in> set vain_wakeup. \<forall>b. broker_inv b \<longrightarrow> broker_inv (f b) \<and> cfg (f b) = cfg b"
    by (simp add: vain_wakeup_def SetNotify_def signalSpace_def)
  have d: "1000000000 = 0 + BlockTimeout (cfg (snd block_state))" by code_simp
  have over: "\<exists>(t, w, f) \<in> set vain_wakeup. w = TimedOut \<and> (1000000000 :: int) \<le> t \<or> (\<exists>e. w = CtxDone e)"
    by (simp add: vain_wakeup_def)
  from enqueue_returns [OF inv safe d, of "demo_msg ''2''"] obtain r b' where
    "Enqueue (0, vain_wakeup) (demo_msg ''2'') (snd block_state) = Some (r, b')" "broker_inv b'"
    "(\<exists>(t, w, f) \<in> set vain_wakeup. w = TimedOut \<and> (1000000000 :: int) \<le> t \<or> (\<exists>e. w = CtxDone e)) \<longrightarrow> (\<forall>g. r \<noteq> Parked g)"
    by (elim exE conjE) (rule that)
  with over show ?thesis by (intro exI conjI) simp_all
qed

section \<open>Releasing, sweeping and replaying\<close>

lemma requeue_main: "requeue e delay b = Some b' \<Longrightarrow> main b' = main b"
  by (auto simp: requeue_def readClock_def signalSpace_def Let_def split: if_splits Option.bind_splits)

lemma release_loop_main: "release_loop ids b = Some b' \<Longrightarrow> main b' = main b"
  by (induction ids arbitrary: b) (auto simp: requeueLease_def dest!: requeue_main split: Option.bind_splits)

text \<open>C15. Disconnect: \<open>ReleaseConsumer\<close> gives up exactly the leases of that consumer and reports
  their number; the other leases and the main lane are untouched, nothing is evicted from the main
  budget, and every released message is in the retry lane or the dead-letter lane afterwards (the
  only loss possible is a counted overflow of the dead-letter ring).\<close>

theorem release_consumer_complete:
  assumes "broker_run tn c h b"
  shows "\<exists>n b'. ReleaseConsumer cid b = Some (n, b') \<and>
    n = length (filter (\<lambda>(i, r). consumer r = cid) (leases b)) \<and>
    leases b' = filter (\<lambda>(i, r). consumer r \<noteq> cid) (leases b) \<and> main b' = main b \<and>
    droppedOverflow b' = droppedOverflow b \<and> used b' \<le> used b \<and>
    (\<exists>lost. all_ids b = all_ids b' + lost \<and> int (size lost) = dlqEvicted b' - dlqEvicted b)"
proof -
  have "broker_inv b" using run_inv [OF assms] by simp
  from ReleaseConsumer_ok [OF this, of cid] obtain b' where
    b': "ReleaseConsumer cid b = Some (length (filter (\<lambda>(i, r). consumer r = cid) (leases b)), b')"
    "lane_move b b'" "leases b' = filter (\<lambda>(i, r). consumer r \<noteq> cid) (leases b)" by blast
  from b'(2) obtain ev where "all_ids b = all_ids b' + ev"
    "int (size ev) = dlqEvicted b' - dlqEvicted b" "droppedOverflow b' = droppedOverflow b" "used b' \<le> used b"
    by (auto simp: lane_move_def conserves_def)
  moreover have "main b' = main b"
    using b'(1) by (auto simp: ReleaseConsumer_def Let_def dest: release_loop_main split: Option.bind_splits)
  ultimately show ?thesis using b' by blast
qed

definition demo_leased :: "history \<times> Broker" where
  "demo_leased = the (run_ops (take 5 demo_ops) ([], demo_start))"

lemma demo_leased_run: "broker_run demo_clock demo_cfg (fst demo_leased) (snd demo_leased)"
  unfolding demo_leased_def by (rule run_ops_run(1) [OF demo_init])

theorem release_consumer_complete_witness:
  "\<exists>n b'. ReleaseConsumer 8 (snd demo_leased) = Some (n, b') \<and> n = 1 \<and> length (leases b') = 1"
proof -
  have "length (filter (\<lambda>(i, r). consumer r = 8) (leases (snd demo_leased))) = 1"
    "length (filter (\<lambda>(i, r). consumer r \<noteq> 8) (leases (snd demo_leased))) = 1" by code_simp+
  with release_consumer_complete [OF demo_leased_run, of 8] show ?thesis by auto
qed

text \<open>C16. Lease expiry: \<open>SweepExpired\<close> reclaims exactly the leases whose deadline has passed at the
  clock reading it takes, counts them, keeps every other lease, and calls the wake-up hook exactly
  when it reclaimed something and a hook is set; a later acknowledgement of a reclaimed lease is a
  no-op.\<close>

theorem sweep_reclaims_expired:
  assumes "broker_run tn c h b"
  shows "\<exists>n w b'. SweepExpired b = Some (n, w, b') \<and>
    n = length (filter (\<lambda>(i, r). deadline r \<le> now b (ticks b)) (leases b)) \<and>
    w = (0 < n \<and> notify b) \<and>
    leases b' = filter (\<lambda>(i, r). now b (ticks b) < deadline r) (leases b) \<and>
    leaseExpired b' = leaseExpired b + int n \<and>
    (\<forall>(i, r) \<in> set (leases b). deadline r \<le> now b (ticks b) \<longrightarrow> Ack i (consumer r) b' = (False, b'))"
proof -
  let ?t = "now b (ticks b)"
  have inv: "broker_inv b" using run_inv [OF assms] by simp
  from SweepExpired_ok [OF inv] obtain b' where
    b': "SweepExpired b = Some (length (expiredIds ?t (leases b)),
            expiredIds ?t (leases b) \<noteq> [] \<and> notify b, b')"
    "leases b' = filter (\<lambda>(i, r). ?t < deadline r) (leases b)"
    "leaseExpired b' = leaseExpired b + int (length (expiredIds ?t (leases b)))" by blast
  have len: "length (expiredIds ?t (leases b)) = length (filter (\<lambda>(i, r). deadline r \<le> ?t) (leases b))"
    by (simp add: expiredIds_def not_less)
  have dk: "distinct (map fst (leases b))" using inv by (simp add: broker_inv_def)
  have "map_of (leases b') i = None" if "(i, r) \<in> set (leases b)" "deadline r \<le> ?t" for i r
    unfolding b'(2) map_of_eq_None_iff
    using eq_key_imp_eq_value [OF dk that(1)] that(2) by auto
  then have "\<forall>(i, r) \<in> set (leases b). deadline r \<le> ?t \<longrightarrow> Ack i (consumer r) b' = (False, b')"
    by (auto simp: Ack_def)
  moreover have "expiredIds ?t (leases b) \<noteq> [] \<longleftrightarrow> 0 < length (expiredIds ?t (leases b))" by simp
  ultimately show ?thesis
    using b' len
    by (intro exI [of _ "length (expiredIds ?t (leases b))"] exI [of _ "expiredIds ?t (leases b) \<noteq> [] \<and> notify b"]
        exI [of _ b'] conjI) (simp_all only:)
qed

definition demo_due :: "history \<times> Broker" where
  "demo_due = the (run_ops (take 5 demo_ops @ replicate 8 OpSweepExpired) ([], demo_start))"

lemma demo_due_run: "broker_run demo_clock demo_cfg (fst demo_due) (snd demo_due)"
  unfolding demo_due_def by (rule run_ops_run(1) [OF demo_init])

theorem sweep_reclaims_expired_witness:
  "\<exists>w b'. SweepExpired (snd demo_due) = Some (1, w, b') \<and> length (leases b') = 1 \<and> Ack 1 7 b' = (False, b')"
proof -
  have e: "length (filter (\<lambda>(i, r). deadline r \<le> now (snd demo_due) (ticks (snd demo_due))) (leases (snd demo_due))) = 1"
    "length (filter (\<lambda>(i, r). now (snd demo_due) (ticks (snd demo_due)) < deadline r) (leases (snd demo_due))) = 1"
    "map_option (\<lambda>r. (consumer r, deadline r)) (map_of (leases (snd demo_due)) 1) = Some (7, 10)"
    "now (snd demo_due) (ticks (snd demo_due)) = 10"
    by code_simp+
  then obtain r where r: "(1, r) \<in> set (leases (snd demo_due))" "consumer r = 7"
      "deadline r \<le> now (snd demo_due) (ticks (snd demo_due))"
    by (auto dest: map_of_SomeD)
  with sweep_reclaims_expired [OF demo_due_run] e show ?thesis by fastforce
qed

text \<open>C17. Replay: \<open>DLQReplay\<close> moves as many dead letters as the free budget holds, oldest first, to
  the back of the main lane with their ids kept and their attempts reset; the rest stay
  dead-lettered in order, and no message is lost or duplicated.\<close>

theorem dlq_replay_moves_oldest:
  assumes "broker_run tn c h b"
  shows "\<exists>n b'. DLQReplay b = Some (n, b') \<and>
    n = min (stDLQDepth (Inspect b)) (nat (Capacity c) - used b) \<and>
    ring_content (main b') = ring_content (main b) @
      map (\<lambda>it. (di_e it)\<lparr>attempts := 0\<rparr>) (take n (ring_content (dlq b))) \<and>
    ring_content (dlq b') = drop n (ring_content (dlq b)) \<and>
    leases b' = leases b \<and> retry b' = retry b \<and> all_ids b' = all_ids b \<and> used b' = used b + n"
proof -
  from run_inv [OF assms] have inv: "broker_inv b" and cap: "Capacity (cfg b) = Capacity c"
    by (simp_all add: applyDefaults_def)
  from DLQReplay_ok [OF inv] obtain d r b' where b': "DLQReplay b = Some (replay_count b, b')"
    "b' = b\<lparr>dlq := r, main := d\<rparr>" "all_ids b' = all_ids b" "used b' = used b + replay_count b"
    "ring_content d = ring_content (main b) @ map fresh_start (take (replay_count b) (ring_content (dlq b)))"
    "ring_content r = drop (replay_count b) (ring_content (dlq b))" by metis
  have "replay_count b = min (stDLQDepth (Inspect b)) (nat (Capacity c) - used b)"
    by (simp add: replay_count_def Inspect_def cap)
  moreover have "main b' = d" "dlq b' = r" "leases b' = leases b" "retry b' = retry b" using b'(2) by simp_all
  ultimately show ?thesis
    using b'(1,3-6) by (intro exI [of _ "replay_count b"] exI [of _ b']) (simp add: fresh_start_def [abs_def])
qed

definition demo_dead :: "history \<times> Broker" where
  "demo_dead = the (run_ops (demo_ops @ [OpLease 9, OpReleaseLease 2 9]) ([], demo_start))"

lemma demo_dead_run: "broker_run demo_clock demo_cfg (fst demo_dead) (snd demo_dead)"
  unfolding demo_dead_def by (rule run_ops_run(1) [OF demo_init])

theorem dlq_replay_moves_oldest_witness:
  "\<exists>b'. DLQReplay (snd demo_dead) = Some (1, b') \<and> used b' = 2 \<and> all_ids b' = {#2, 3#}"
proof -
  have "stDLQDepth (Inspect (snd demo_dead)) = 1" "used (snd demo_dead) = 1" "all_ids (snd demo_dead) = {#2, 3#}"
    by code_simp+
  with dlq_replay_moves_oldest [OF demo_dead_run] show ?thesis by (auto simp: demo_cfg_def)
qed

section \<open>Backoff\<close>

lemma backoff_loop_exact:
  assumes "0 < d" "d < 2 ^ 62" "0 < dmax" "dmax \<le> 2 ^ 62"
  shows "backoff_loop dmax n d = min (d * 2 ^ n) dmax"
  using assms
proof (induction n arbitrary: d)
  case (Suc n)
  then have w: "wrap64 (d * 2) = d * 2" by (intro wrap64_id) simp_all
  show ?case
  proof (cases "dmax \<le> d * 2")
    case True
    have "d * 2 * 1 \<le> d * 2 * 2 ^ n" using Suc.prems(1) by (intro mult_left_mono) simp_all
    with True w show ?thesis by (simp add: Let_def min_def)
  next
    case False
    with Suc w show ?thesis by (simp add: Let_def ac_simps)
  qed
qed (simp add: min_def)

text \<open>C18. Redelivery delay: a message delivered \<open>n\<close> times waits \<open>base * 2^(n-1)\<close>, capped at the
  maximum, whenever the configured base and maximum are at most about 146 years (below \<open>2^62\<close>
  nanoseconds): the doubling loop neither overflows nor overshoots.\<close>

theorem backoff_exponential:
  assumes "0 < RetryBackoffBase c" "RetryBackoffBase c < 2 ^ 62"
    "0 < RetryBackoffMax c" "RetryBackoffMax c \<le> 2 ^ 62" "0 < n"
  shows "backoff c n = min (RetryBackoffBase c * 2 ^ (unat n - 1)) (RetryBackoffMax c)"
  unfolding backoff_def by (rule backoff_loop_exact [OF assms(1-4)])

theorem backoff_exponential_witness:
  "backoff (applyDefaults demo_clock (demo_cfg\<lparr>RetryBackoffBase := 0, RetryBackoffMax := 0\<rparr>)) 4 = 4000000000 \<and>
   backoff (applyDefaults demo_clock (demo_cfg\<lparr>RetryBackoffBase := 0, RetryBackoffMax := 0\<rparr>)) 9 = 30000000000"
  using backoff_exponential [of "applyDefaults demo_clock (demo_cfg\<lparr>RetryBackoffBase := 0, RetryBackoffMax := 0\<rparr>)" 4]
    backoff_exponential [of "applyDefaults demo_clock (demo_cfg\<lparr>RetryBackoffBase := 0, RetryBackoffMax := 0\<rparr>)" 9]
  by (simp add: applyDefaults_def demo_cfg_def Millisecond_def Second_def)

text \<open>With a larger cap the \<open>int64\<close> doubling wraps and the delay becomes negative.\<close>

lemma backoff_overflows:
  "backoff (demo_cfg\<lparr>RetryBackoffBase := 2 ^ 62, RetryBackoffMax := MaxInt64\<rparr>) 2 = - (2 ^ 63)"
  by code_simp

end
