(* ===== verification/MQ_Server.thy ===== *)
theory MQ_Server
  imports Broker_Props
begin

text \<open>
  The gRPC service of the message queue (\<open>internal/server/server.go\<close>): the unary calls, the drain
  and shutdown switches and the statistics. The server owns its store; a call is a function from the
  server to its reply and the new server. The channels are their observable state: \<open>notifyCh\<close> is the
  generation of the broadcast channel (closing and replacing it is one increment), \<open>drainCh\<close> and
  \<open>shutdownCh\<close> say whether the channel is closed. A reply carries the gRPC status code; the
  human-readable status texts are left out.
\<close>

section \<open>State and replies\<close>

record MQServer =
  store :: Broker
  defaultCredit :: int
  notifyCh :: nat
  consumerSeq :: uint64
  produced :: int
  srv_rejected :: int
  consumed :: int
  delivered :: int
  redelivered :: int
  activeC :: int
  drainCh :: bool
  shutdownCh :: bool

datatype code =
    InvalidArgument | ResourceExhausted | Unavailable | CodeCanceled | CodeDeadlineExceeded | Internal

text \<open>\<open>Blocked\<close>: the call has not returned, its \<open>Enqueue\<close> is still parked.\<close>

datatype 'a rpc = Reply 'a | Status code | Blocked

definition NewMQServer :: "Broker \<Rightarrow> int \<Rightarrow> MQServer" where
  "NewMQServer b credit = \<lparr>store = SetNotify b, defaultCredit = (if credit \<le> 0 then 20 else credit),
     notifyCh = 0, consumerSeq = 0, produced = 0, srv_rejected = 0, consumed = 0, delivered = 0,
     redelivered = 0, activeC = 0, drainCh = False, shutdownCh = False\<rparr>"

definition NotifyAll :: "MQServer \<Rightarrow> MQServer" where
  "NotifyAll s = s\<lparr>notifyCh := Suc (notifyCh s)\<rparr>"

definition server_DLQList :: "int \<Rightarrow> MQServer \<Rightarrow> DLQEntry list option" where
  "server_DLQList limit s = DLQList limit (store s)"

definition server_DLQReplay :: "MQServer \<Rightarrow> (nat \<times> MQServer) option" where
  "server_DLQReplay s = do {
     (n, b) \<leftarrow> DLQReplay (store s);
     let s = s\<lparr>store := b\<rparr>;
     Some (n, if n > 0 then NotifyAll s else s)
   }"

definition BeginDrain :: "MQServer \<Rightarrow> MQServer" where
  "BeginDrain s = s\<lparr>drainCh := True\<rparr>"

definition Drained :: "MQServer \<Rightarrow> bool" where
  "Drained s = (let st = Inspect (store s) in stDepth st = 0 \<and> stRetryDepth st = 0 \<and> stInFlight st = 0)"

definition Shutdown :: "MQServer \<Rightarrow> MQServer" where
  "Shutdown s = (BeginDrain s)\<lparr>shutdownCh := True\<rparr>"

definition IsShuttingDown :: "MQServer \<Rightarrow> bool" where
  "IsShuttingDown s \<longleftrightarrow> drainCh s \<or> shutdownCh s"

section \<open>Produce\<close>

definition ctx_code :: "ctx_error \<Rightarrow> code" where
  "ctx_code e = (case e of Canceled \<Rightarrow> CodeCanceled | DeadlineExceeded \<Rightarrow> CodeDeadlineExceeded)"

definition Produce :: "waits \<Rightarrow> TelemetryMessage option \<Rightarrow> MQServer \<Rightarrow> (bool rpc \<times> MQServer) option" where
  "Produce ws req s =
     (case req of
        None \<Rightarrow> Some (Status InvalidArgument, s)
      | Some m \<Rightarrow>
          if IsShuttingDown s then Some (Status Unavailable, s)
          else do {
            (r, b) \<leftarrow> Enqueue ws m (store s);
            let s = s\<lparr>store := b\<rparr>;
            Some (case r of
                Refused ErrFull \<Rightarrow> (Status ResourceExhausted, s\<lparr>srv_rejected := srv_rejected s + 1\<rparr>)
              | Refused ErrClosed \<Rightarrow> (Status Unavailable, s)
              | Refused (ErrCtx e) \<Rightarrow> (Status (ctx_code e), s)
              | Parked g \<Rightarrow> (Blocked, s)
              | Admitted m \<Rightarrow> (Reply True, NotifyAll (s\<lparr>produced := produced s + 1\<rparr>)))
          })"

section \<open>ProduceBatch\<close>

definition maxBatchSize :: nat where "maxBatchSize = 1000"

text \<open>
  Every message of a batch is a call of \<open>Enqueue\<close> of its own, so other goroutines run between two of
  them. The environment of a batch gives for message \<open>i\<close> what they do to the server before its
  \<open>Enqueue\<close>, and what happens while that call is parked.
\<close>

type_synonym batch_env = "nat \<Rightarrow> (MQServer \<Rightarrow> MQServer) \<times> waits"

text \<open>
  The admission loop: how many messages were accepted, and whether the loop is still parked in an
  \<open>Enqueue\<close>. A refusal for a full queue counts one rejection and ends the loop, as do a closed store
  and a finished context.
\<close>

fun batch_loop :: "batch_env \<Rightarrow> nat \<Rightarrow> TelemetryMessage list \<Rightarrow> MQServer \<Rightarrow> (nat \<times> bool \<times> MQServer) option" where
  "batch_loop env accepted [] s = Some (accepted, False, s)"
| "batch_loop env accepted (m # ms) s = do {
     let s = fst (env accepted) s;
     (r, b) \<leftarrow> Enqueue (snd (env accepted)) m (store s);
     let s = s\<lparr>store := b\<rparr>;
     (case r of
        Refused ErrFull \<Rightarrow> Some (accepted, False, s\<lparr>srv_rejected := srv_rejected s + 1\<rparr>)
      | Refused _ \<Rightarrow> Some (accepted, False, s)
      | Parked g \<Rightarrow> Some (accepted, True, s)
      | Admitted m \<Rightarrow> batch_loop env (Suc accepted) ms s)
   }"

definition ProduceBatch :: "batch_env \<Rightarrow> TelemetryMessage option list \<Rightarrow> MQServer \<Rightarrow>
    ((uint32 \<times> uint32) rpc \<times> MQServer) option" where
  "ProduceBatch env msgs s =
     (if msgs = [] then Some (Status InvalidArgument, s)
      else if length msgs > maxBatchSize then Some (Status InvalidArgument, s)
      else if None \<in> set msgs then Some (Status InvalidArgument, s)
      else if IsShuttingDown s then Some (Status Unavailable, s)
      else do {
        (accepted, parked, s) \<leftarrow> batch_loop env 0 (map the msgs) s;
        if parked then Some (Blocked, s)
        else do {
          let s = (if accepted > 0 then NotifyAll (s\<lparr>produced := produced s + int accepted\<rparr>) else s);
          Some (Reply (of_nat accepted, of_nat (length msgs - accepted)), s)
        }
      })"

section \<open>Credit and statistics\<close>

definition creditCeilingConst :: int where "creditCeilingConst = 1000"

definition creditCeiling :: "MQServer \<Rightarrow> int" where
  "creditCeiling s =
     (let cap = stCapacity (Inspect (store s)) in
      if cap < 0 then creditCeilingConst
      else if cap > creditCeilingConst then cap
      else creditCeilingConst)"

definition consumeCredit :: "int \<Rightarrow> MQServer \<Rightarrow> int" where
  "consumeCredit requested s =
     (let credit = (if requested \<le> 0 then defaultCredit s else requested);
          ceiling = creditCeiling s
      in if credit > ceiling then ceiling else credit)"

record ServerStats =
  ssProduced :: int
  ssRejected :: int
  ssConsumed :: int
  ssDelivered :: int
  ssRedelivered :: int
  ssInFlight :: int
  ssActiveConsumers :: int
  ssDepth :: nat
  ssRetryDepth :: nat
  ssDLQDepth :: nat
  ssCapacity :: int
  ssDroppedOverflow :: int
  ssDroppedRequeue :: int
  ssDropped :: int
  ssDeadLettered :: int
  ssLeaseExpired :: int

definition Stats :: "MQServer \<Rightarrow> ServerStats" where
  "Stats s = (let st = Inspect (store s) in \<lparr>
     ssProduced = produced s, ssRejected = srv_rejected s, ssConsumed = consumed s,
     ssDelivered = delivered s, ssRedelivered = redelivered s, ssInFlight = stInFlight st,
     ssActiveConsumers = activeC s, ssDepth = stDepth st, ssRetryDepth = stRetryDepth st,
     ssDLQDepth = stDLQDepth st, ssCapacity = stCapacity st, ssDroppedOverflow = stDroppedOverflow st,
     ssDroppedRequeue = stDroppedRequeue st, ssDropped = stDropped st,
     ssDeadLettered = stDeadLetteredTotal st, ssLeaseExpired = stLeaseExpiredTotal st\<rparr>)"

section \<open>Correctness of the unary calls\<close>

lemma Enqueue_now:
  assumes "Policy (cfg b) \<noteq> PolicyBlock" "broker_inv b"
  shows "Enqueue ws m b = Enqueue_pass m b"
  using assms(2)
proof (cases rule: Enqueue_pass_cases [where m = m])
  case park
  with assms(1) show ?thesis by simp
qed (simp_all add: Enqueue_def)

text \<open>What one admission does, at the moment it happens: the message is the last of the main lane under the next
  id, and at most the oldest queued message made room for it, under drop-oldest at a full budget.\<close>

definition appends :: "TelemetryMessage \<Rightarrow> Broker \<Rightarrow> Broker \<Rightarrow> bool" where
  "appends m b b' \<longleftrightarrow> (\<exists>j. (j = 0 \<or> j = 1 \<and> Policy (cfg b) = PolicyDropOldest \<and> int (used b) = Capacity (cfg b)) \<and>
     ring_content (main b') = drop j (ring_content (main b)) @ [\<lparr>msg = m\<lparr>pbId := nextID b + 1\<rparr>, attempts = 0\<rparr>] \<and>
     nextID b' = nextID b + 1 \<and> retry b' = retry b \<and> leases b' = leases b \<and> dlq b' = dlq b)"

lemma Enqueue_pass_outcome:
  assumes "broker_inv b"
  obtains (ok) m' b' where "Enqueue_pass m b = Some (Admitted m', b')" "broker_inv b'" "cfg b' = cfg b" "appends m b b'"
  | (closed) "Enqueue_pass m b = Some (Refused ErrClosed, b)" "closed b"
  | (full) "Enqueue_pass m b = Some (Refused ErrFull, b\<lparr>rejected := rejected b + 1\<rparr>)" "int (used b) = Capacity (cfg b)"
  | (park) "Enqueue_pass m b = Some (Parked (spaceCh b), b)" "Policy (cfg b) = PolicyBlock"
  using assms
proof (cases rule: Enqueue_pass_cases [where m = m])
  case (room b')
  then have "appends m b b'" unfolding appends_def by (intro exI [of _ 0]) (auto simp: admitted_def)
  moreover have "cfg b' = cfg b" "broker_inv b'" using room by (auto simp: admitted_def)
  ultimately show ?thesis using room(3) by (intro ok)
next
  case (evict e xs d b1 b')
  then have "appends m b b'" unfolding appends_def by (intro exI [of _ 1]) (auto simp: admitted_def)
  moreover have "cfg b' = cfg b" "broker_inv b'" using evict by (auto simp: admitted_def)
  ultimately show ?thesis using evict(11) by (intro ok)
next
  case closed
  then show ?thesis by (intro that(2))
next
  case exhausted
  then show ?thesis by (intro full)
next
  case park
  then show ?thesis by (intro that(4))
next
  case reject
  then show ?thesis by (intro full)
qed

section \<open>Interference\<close>

text \<open>
  What a call may rely on of the other goroutines: a relation between the broker before and after any number of
  their locked sections, which keeps the broker's invariant and its configuration.
\<close>

locale rely =
  fixes R :: "Broker \<Rightarrow> Broker \<Rightarrow> bool"
  assumes R_refl: "R b b" and R_trans: "R b b1 \<Longrightarrow> R b1 b2 \<Longrightarrow> R b b2"
    and R_safe: "R b b' \<Longrightarrow> broker_inv b \<Longrightarrow> broker_inv b' \<and> cfg b' = cfg b"

definition parked_within :: "(Broker \<Rightarrow> Broker \<Rightarrow> bool) \<Rightarrow> parked_event list \<Rightarrow> bool" where
  "parked_within R evs \<longleftrightarrow> (\<forall>(t, w, f) \<in> set evs. \<forall>b. R b (f b))"

definition batch_within :: "(Broker \<Rightarrow> Broker \<Rightarrow> bool) \<Rightarrow> batch_env \<Rightarrow> bool" where
  "batch_within R env \<longleftrightarrow> (\<forall>i. (\<forall>s. R (store s) (store (fst (env i) s))) \<and> parked_within R (snd (snd (env i))))"

definition gives_up :: "parked_event list \<Rightarrow> bool" where
  "gives_up evs \<longleftrightarrow> (\<exists>(t, w, f) \<in> set evs. w \<noteq> SpaceFreed)"

text \<open>Messages admitted one after the other, with interference before, between and after them.\<close>

inductive admitted_in_order :: "(Broker \<Rightarrow> Broker \<Rightarrow> bool) \<Rightarrow> Broker \<Rightarrow> TelemetryMessage list \<Rightarrow> Broker \<Rightarrow> bool" for R where
  nothing: "R b b' \<Longrightarrow> admitted_in_order R b [] b'"
| message: "R b b1 \<Longrightarrow> appends m b1 b2 \<Longrightarrow> admitted_in_order R b2 ms b' \<Longrightarrow> admitted_in_order R b (m # ms) b'"

text \<open>The outcome of one \<open>Enqueue\<close>, seen from its caller.\<close>

definition refused_at :: "Broker \<Rightarrow> Broker \<Rightarrow> bool" where
  "refused_at b b' \<longleftrightarrow> b' = b \<or> b' = b\<lparr>rejected := rejected b + 1\<rparr>"

definition enqueued :: "(Broker \<Rightarrow> Broker \<Rightarrow> bool) \<Rightarrow> parked_event list \<Rightarrow> TelemetryMessage \<Rightarrow> Broker \<Rightarrow> enq_pass \<times> Broker \<Rightarrow> bool" where
  "enqueued R evs m b out \<longleftrightarrow> (case out of (r, b') \<Rightarrow> broker_inv b' \<and> cfg b' = cfg b \<and> (\<exists>b1. R b b1 \<and>
     (case r of
        Admitted m' \<Rightarrow> appends m b1 b'
      | Refused e \<Rightarrow> refused_at b1 b' \<and> (closed b1 \<or> int (used b1) = Capacity (cfg b1) \<or> gives_up evs)
      | Parked g \<Rightarrow> b' = b1 \<and> Policy (cfg b) = PolicyBlock)))"

context rely
begin

lemma enqueued_later:
  assumes "R b b1" "broker_inv b" "enqueued R evs m b1 out" "set evs \<subseteq> set evs'"
  shows "enqueued R evs' m b out"
proof -
  have "cfg b1 = cfg b" using R_safe [OF assms(1,2)] by simp
  moreover have "gives_up evs \<Longrightarrow> gives_up evs'" using assms(4) by (auto simp: gives_up_def)
  moreover obtain r b' where "out = (r, b')" by (cases out)
  ultimately show ?thesis using assms(3) R_trans [OF assms(1)]
    unfolding enqueued_def by (cases r) (simp_all, blast+)
qed

lemma Enqueue_pass_enqueued:
  assumes "broker_inv b"
  shows "\<exists>out. Enqueue_pass m b = Some out \<and> enqueued R evs m b out"
  using assms
proof (cases rule: Enqueue_pass_outcome [where m = m])
  case (ok m' b')
  then show ?thesis using R_refl [of b] by (auto simp: enqueued_def)
next
  case closed
  then show ?thesis using R_refl [of b] assms by (auto simp: enqueued_def refused_at_def)
next
  case full
  then show ?thesis using R_refl [of b] assms by (auto simp: enqueued_def refused_at_def)
next
  case park
  then show ?thesis using R_refl [of b] assms by (auto simp: enqueued_def)
qed

lemma Enqueue_wake_enqueued:
  assumes "broker_inv b" "w = SpaceFreed \<or> gives_up evs"
  shows "\<exists>out. Enqueue_wake w m b = Some out \<and> enqueued R evs m b out"
proof (cases "w = SpaceFreed")
  case True
  then show ?thesis using Enqueue_pass_enqueued [OF assms(1)] by (simp add: Enqueue_wake_def)
next
  case False
  with assms R_refl [of b] show ?thesis by (cases w) (auto simp: Enqueue_wake_def enqueued_def refused_at_def)
qed

lemma Enqueue_parked_enqueued:
  "broker_inv b \<Longrightarrow> Policy (cfg b) = PolicyBlock \<Longrightarrow> parked_within R evs \<Longrightarrow>
     \<exists>out. Enqueue_parked evs m timeout g b = Some out \<and> enqueued R evs m b out"
proof (induction evs arbitrary: b timeout g)
  case Nil
  then show ?case using R_refl [of b] by (simp add: enqueued_def)
next
  case (Cons ev evs)
  obtain t w f where ev: "ev = (t, w, f)" by (metis prod.exhaust)
  have step: "R b (f b)" and within: "parked_within R evs" using Cons.prems(3) ev by (auto simp: parked_within_def)
  note fb = R_safe [OF step Cons.prems(1)]
  note later = enqueued_later [OF step Cons.prems(1)]
  have rest: "\<exists>out. Enqueue_parked evs m to g' b' = Some out \<and> enqueued R evs m b' out"
    if "broker_inv b'" "cfg b' = cfg b" for b' to g' using Cons.IH [OF that(1) _ within] that(2) Cons.prems(2) by simp
  show ?case
  proof (cases "wake_ready timeout g t w (f b)")
    case False
    then have "Enqueue_parked (ev # evs) m timeout g b = Enqueue_parked evs m timeout g (f b)" using ev by simp
    with rest [of "f b" timeout g] fb later show ?thesis by (metis set_subset_Cons)
  next
    case True
    have "w = SpaceFreed \<or> gives_up (ev # evs)" using ev by (auto simp: gives_up_def)
    from Enqueue_wake_enqueued [OF _ this, of "f b" m] fb obtain r b' where
      wk: "Enqueue_wake w m (f b) = Some (r, b')" "enqueued R (ev # evs) m (f b) (r, b')" by auto
    show ?thesis
    proof (cases "\<exists>g. r = Parked g")
      case parked: True
      then obtain g' where g': "r = Parked g'" by blast
      from wk(2) g' have b': "R (f b) b'" "broker_inv b'" "cfg b' = cfg (f b)" by (auto simp: enqueued_def)
      have "Enqueue_parked (ev # evs) m timeout g b = Enqueue_parked evs m (arm_timer timeout t b') g' b'"
        using True ev wk(1) g' by simp
      with rest [of b' "arm_timer timeout t b'" g'] b' fb enqueued_later [OF R_trans [OF step b'(1)] Cons.prems(1)]
      show ?thesis by (metis set_subset_Cons)
    next
      case False
      then have "Enqueue_parked (ev # evs) m timeout g b = Some (r, b')" using True ev wk(1) by (cases r) auto
      with wk(2) later show ?thesis by blast
    qed
  qed
qed

lemma Enqueue_enqueued:
  assumes "broker_inv b" "parked_within R (snd ws)"
  shows "\<exists>out. Enqueue ws m b = Some out \<and> enqueued R (snd ws) m b out"
proof -
  from Enqueue_pass_enqueued [OF assms(1), of m "snd ws"] obtain r b' where
    p: "Enqueue_pass m b = Some (r, b')" "enqueued R (snd ws) m b (r, b')" by auto
  show ?thesis
  proof (cases "\<exists>g. r = Parked g")
    case True
    then obtain g where g: "r = Parked g" by blast
    with p(2) have b': "R b b'" "broker_inv b'" "cfg b' = cfg b" "Policy (cfg b) = PolicyBlock" by (auto simp: enqueued_def)
    from Enqueue_parked_enqueued [OF b'(2) _ assms(2)] b'(3,4) obtain out where
      "Enqueue_parked (snd ws) m (arm_timer None (fst ws) b') g b' = Some out" "enqueued R (snd ws) m b' out" by metis
    with p(1) g enqueued_later [OF b'(1) assms(1)] show ?thesis by (auto simp: Enqueue_def)
  next
    case False
    then have "Enqueue ws m b = Some (r, b')" using p(1) by (cases r) (auto simp: Enqueue_def)
    with p(2) show ?thesis by blast
  qed
qed

text \<open>What the admission loop ends with: \<open>k\<close> messages of the batch admitted, then a refusal, a wait, or nothing.\<close>

definition batch_outcome ::
  "batch_env \<Rightarrow> nat \<Rightarrow> TelemetryMessage list \<Rightarrow> Broker \<Rightarrow> nat \<times> bool \<times> MQServer \<Rightarrow> bool" where
  "batch_outcome env a ms b out \<longleftrightarrow> (case out of (n, parked, s1) \<Rightarrow> \<exists>k b1. n = a + k \<and> k \<le> length ms \<and>
     admitted_in_order R b (take k ms) b1 \<and> refused_at b1 (store s1) \<and> broker_inv (store s1) \<and> cfg (store s1) = cfg b \<and>
     (parked \<longrightarrow> k < length ms \<and> Policy (cfg b) = PolicyBlock \<and> store s1 = b1) \<and>
     (k = length ms \<longrightarrow> store s1 = b1) \<and>
     (k < length ms \<and> \<not> parked \<longrightarrow> closed b1 \<or> int (used b1) = Capacity (cfg b1) \<or> gives_up (snd (snd (env (a + k))))))"

lemma batch_outcome_stop:
  assumes "R b b1" "refused_at b1 (store s1)" "broker_inv (store s1)" "cfg (store s1) = cfg b" "ms \<noteq> []"
    "if parked then Policy (cfg b) = PolicyBlock \<and> store s1 = b1
     else closed b1 \<or> int (used b1) = Capacity (cfg b1) \<or> gives_up (snd (snd (env a)))"
  shows "batch_outcome env a ms b (a, parked, s1)"
  unfolding batch_outcome_def using assms by (auto intro!: exI [of _ b1] admitted_in_order.nothing split: if_splits)

lemma batch_outcome_admitted:
  assumes "R b b1" "appends m b1 b2" "cfg b2 = cfg b" "batch_outcome env (Suc a) ms b2 out"
  shows "batch_outcome env a (m # ms) b out"
proof -
  obtain n parked s1 where out: "out = (n, parked, s1)" by (metis prod.exhaust)
  from assms(4) [unfolded batch_outcome_def out prod.case] obtain k b3 where
    o: "n = Suc a + k" "k \<le> length ms" "admitted_in_order R b2 (take k ms) b3" "refused_at b3 (store s1)"
    "broker_inv (store s1)" "cfg (store s1) = cfg b2"
    "parked \<longrightarrow> k < length ms \<and> Policy (cfg b2) = PolicyBlock \<and> store s1 = b3" "k = length ms \<longrightarrow> store s1 = b3"
    "k < length ms \<and> \<not> parked \<longrightarrow> closed b3 \<or> int (used b3) = Capacity (cfg b3) \<or> gives_up (snd (snd (env (Suc a + k))))"
    by (elim exE conjE) (rule that)
  have "admitted_in_order R b (take (Suc k) (m # ms)) b3" using admitted_in_order.message [OF assms(1,2) o(3)] by simp
  with o assms(3) show ?thesis unfolding batch_outcome_def out prod.case
    by (intro exI [of _ "Suc k"] exI [of _ b3] conjI) simp_all
qed

lemma batch_loop_outcome:
  assumes "broker_inv (store s)" "batch_within R env"
  shows "\<exists>out. batch_loop env a ms s = Some out \<and> batch_outcome env a ms (store s) out"
  using assms(1)
proof (induction ms arbitrary: a s)
  case Nil
  have "batch_outcome env a [] (store s) (a, False, s)"
    unfolding batch_outcome_def refused_at_def using Nil R_refl [of "store s"]
    by (auto intro!: exI [of _ "store s"] admitted_in_order.nothing)
  then show ?case by simp
next
  case (Cons m ms)
  let ?s = "fst (env a) s"
  have within: "R (store s) (store ?s)" "parked_within R (snd (snd (env a)))" using assms(2) by (auto simp: batch_within_def)
  note inv = R_safe [OF within(1) Cons.prems]
  from Enqueue_enqueued [OF _ within(2), of "store ?s" m] inv obtain r b' where
    e: "Enqueue (snd (env a)) m (store ?s) = Some (r, b')" "enqueued R (snd (snd (env a))) m (store ?s) (r, b')" by auto
  from enqueued_later [OF within(1) Cons.prems e(2)] obtain b1 where b1:
    "broker_inv b'" "cfg b' = cfg (store s)" "R (store s) b1"
    "(case r of
        Admitted m' \<Rightarrow> appends m b1 b'
      | Refused e \<Rightarrow> refused_at b1 b' \<and> (closed b1 \<or> int (used b1) = Capacity (cfg b1) \<or> gives_up (snd (snd (env a))))
      | Parked g \<Rightarrow> b' = b1 \<and> Policy (cfg (store s)) = PolicyBlock)" by (auto simp: enqueued_def)
  have refused: "batch_outcome env a (m # ms) (store s) (a, False, s1)" if "store s1 = b'" "r = Refused q" for s1 q
    using batch_outcome_stop [OF b1(3), of s1 "m # ms" False env a] b1 that by simp
  show ?case
  proof (cases r)
    case (Admitted m')
    from Cons.IH [of "?s\<lparr>store := b'\<rparr>" "Suc a"] b1(1) obtain out where
      "batch_loop env (Suc a) ms (?s\<lparr>store := b'\<rparr>) = Some out" "batch_outcome env (Suc a) ms b' out" by auto
    with batch_outcome_admitted [OF b1(3) _ b1(2)] b1(4) e(1) Admitted show ?thesis by auto
  next
    case (Refused q)
    with e(1) refused show ?thesis by (cases q) (auto simp: Let_def)
  next
    case (Parked g)
    with e(1) b1 batch_outcome_stop [OF b1(3), of "?s\<lparr>store := b'\<rparr>" "m # ms" True env a] show ?thesis
      by (auto simp: refused_at_def)
  qed
qed

end

text \<open>The reply of \<open>ProduceBatch\<close> to a batch it does not turn away at once.\<close>

definition batch_reply_ok ::
  "(Broker \<Rightarrow> Broker \<Rightarrow> bool) \<Rightarrow> batch_env \<Rightarrow> TelemetryMessage list \<Rightarrow> MQServer \<Rightarrow> (uint32 \<times> uint32) rpc \<times> MQServer \<Rightarrow> bool" where
  "batch_reply_ok R env ms s out \<longleftrightarrow> (\<exists>k s1 b1. k \<le> length ms \<and> admitted_in_order R (store s) (take k ms) b1 \<and>
     refused_at b1 (store s1) \<and> broker_inv (store s1) \<and> (k = length ms \<longrightarrow> store s1 = b1) \<and>
     (case fst out of
        Reply (a, r) \<Rightarrow> unat a = k \<and> unat r = length ms - k \<and>
          snd out = (if k > 0 then NotifyAll (s1\<lparr>produced := produced s1 + int k\<rparr>) else s1) \<and>
          (k < length ms \<longrightarrow> closed b1 \<or> int (used b1) = Capacity (cfg b1) \<or> gives_up (snd (snd (env k))))
      | Blocked \<Rightarrow> snd out = s1 \<and> store s1 = b1 \<and> k < length ms \<and> Policy (cfg (store s)) = PolicyBlock
      | Status c \<Rightarrow> False))"

lemma ProduceBatch_reply:
  assumes "rely R" "batch_within R env" "broker_inv (store s)" "\<not> IsShuttingDown s" "ms \<noteq> []" "length ms \<le> 1000"
  shows "\<exists>out. ProduceBatch env (map Some ms) s = Some out \<and> batch_reply_ok R env ms s out"
proof -
  from rely.batch_loop_outcome [OF assms(1,3,2), of 0 ms] obtain n parked s1 where
    l: "batch_loop env 0 ms s = Some (n, parked, s1)" "rely.batch_outcome R env 0 ms (store s) (n, parked, s1)" by auto
  from l(2) [unfolded rely.batch_outcome_def [OF assms(1)] prod.case add_0] obtain k b1 where
    o: "n = k" "k \<le> length ms" "admitted_in_order R (store s) (take k ms) b1" "refused_at b1 (store s1)"
    "broker_inv (store s1)" "cfg (store s1) = cfg (store s)"
    "parked \<longrightarrow> k < length ms \<and> Policy (cfg (store s)) = PolicyBlock \<and> store s1 = b1" "k = length ms \<longrightarrow> store s1 = b1"
    "k < length ms \<and> \<not> parked \<longrightarrow> closed b1 \<or> int (used b1) = Capacity (cfg b1) \<or> gives_up (snd (snd (env k)))"
    by (elim exE conjE) (rule that)
  have u: "unat (of_nat k :: uint32) = k" "unat (of_nat (length ms - k) :: uint32) = length ms - k"
    using assms(6) o(2) by (intro unat_of_nat_small; simp; linarith)+
  let ?out = "if parked then (Blocked, s1)
    else (Reply (of_nat k, of_nat (length ms - k)), if k > 0 then NotifyAll (s1\<lparr>produced := produced s1 + int k\<rparr>) else s1)"
  have "ProduceBatch env (map Some ms) s = Some ?out"
    using assms(4-6) l(1) o(1) by (auto simp: ProduceBatch_def maxBatchSize_def Let_def comp_def)
  moreover have "batch_reply_ok R env ms s ?out"
    unfolding batch_reply_ok_def using o u by (intro exI [of _ k] exI [of _ s1] exI [of _ b1]) auto
  ultimately show ?thesis by blast
qed


text \<open>The operations of the broker are such interference.\<close>

inductive broker_steps :: "Broker \<Rightarrow> Broker \<Rightarrow> bool" where
  none: "broker_steps b b"
| more: "broker_steps b b1 \<Longrightarrow> exec p b1 = Some (r, b2) \<Longrightarrow> broker_steps b b2"

lemma broker_steps_trans: "broker_steps b1 b2 \<Longrightarrow> broker_steps b b1 \<Longrightarrow> broker_steps b b2"
  by (induction rule: broker_steps.induct) (auto intro: broker_steps.more)

lemma broker_steps_safe: "broker_steps b b' \<Longrightarrow> broker_inv b \<Longrightarrow> broker_inv b' \<and> cfg b' = cfg b"
proof (induction rule: broker_steps.induct)
  case (more b b1 p r b2)
  with exec_ok [of b1 p] show ?case by (auto simp: good_step_def)
qed simp

interpretation others: rely broker_steps
proof
  show "broker_steps b b" for b by (rule broker_steps.none)
  show "broker_steps b b2" if "broker_steps b b1" "broker_steps b1 b2" for b b1 b2 using that(2,1) by (rule broker_steps_trans)
  show "broker_inv b' \<and> cfg b' = cfg b" if "broker_steps b b'" "broker_inv b" for b b' using that by (rule broker_steps_safe)
qed

text \<open>A consumer takes a message and acknowledges it.\<close>

definition demo_consume :: "MQServer \<Rightarrow> MQServer" where
  "demo_consume s = (case Lease 7 (store s) of
      Some (Some m, b) \<Rightarrow> s\<lparr>store := snd (Ack (pbId m) 7 b)\<rparr>
    | Some (None, b) \<Rightarrow> s\<lparr>store := b\<rparr>
    | None \<Rightarrow> s)"

lemma demo_consume_steps: "broker_steps (store s) (store (demo_consume s))"
proof (cases "Lease 7 (store s)")
  case None
  then show ?thesis by (simp add: demo_consume_def broker_steps.none)
next
  case (Some out)
  obtain r b where out: "out = (r, b)" by (cases out)
  have l: "broker_steps (store s) b"
    by (rule broker_steps.more [OF broker_steps.none, of "OpLease 7" _ "RMsg r"]) (simp add: Some out)
  show ?thesis
  proof (cases r)
    case (Some m)
    have "broker_steps (store s) (snd (Ack (pbId m) 7 b))"
      by (rule broker_steps.more [OF l, of "OpAck (pbId m) 7" "RBool (fst (Ack (pbId m) 7 b))"]) (simp add: apfst_def map_prod_def split_beta)
    with Some \<open>Lease 7 (store s) = Some out\<close> out show ?thesis by (simp add: demo_consume_def)
  qed (use l \<open>Lease 7 (store s) = Some out\<close> out in \<open>simp add: demo_consume_def\<close>)
qed

definition demo_server :: MQServer where
  "demo_server = NewMQServer demo_start 0"

lemma demo_server_ok: "broker_inv (store demo_server)" "\<not> IsShuttingDown demo_server"
proof -
  have "broker_inv demo_start" using run_inv [OF demo_init] by simp
  then show "broker_inv (store demo_server)" by (simp add: demo_server_def NewMQServer_def SetNotify_def)
qed code_simp

text \<open>The queue has room for two messages; a consumer takes one before the third is tried.\<close>

definition demo_env :: batch_env where
  "demo_env i = (if i = 2 then demo_consume else id, 0, [])"

lemma demo_env_within: "batch_within broker_steps demo_env"
  by (simp add: batch_within_def demo_env_def parked_within_def demo_consume_steps broker_steps.none)

definition demo_batch :: "TelemetryMessage list" where
  "demo_batch = [demo_msg ''0'', demo_msg ''1'', demo_msg ''2'']"


text \<open>Draining: once \<open>BeginDrain\<close> or \<open>Shutdown\<close> has been called, \<open>Produce\<close> and every valid
  \<open>ProduceBatch\<close> are refused with \<open>Unavailable\<close> and leave the server as it is, so the backlog only
  shrinks; both switches are idempotent and nothing turns them back.\<close>

theorem draining_refuses_work:
  "Produce ws (Some m) (BeginDrain s) = Some (Status Unavailable, BeginDrain s) \<and>
   Produce ws (Some m) (Shutdown s) = Some (Status Unavailable, Shutdown s) \<and>
   (msgs \<noteq> [] \<longrightarrow> length msgs \<le> 1000 \<longrightarrow> None \<notin> set msgs \<longrightarrow>
      ProduceBatch env msgs (BeginDrain s) = Some (Status Unavailable, BeginDrain s)) \<and>
   BeginDrain (BeginDrain s) = BeginDrain s \<and> Shutdown (Shutdown s) = Shutdown s \<and>
   IsShuttingDown (BeginDrain s) \<and> store (Shutdown s) = store s"
  by (auto simp: Produce_def ProduceBatch_def IsShuttingDown_def BeginDrain_def Shutdown_def maxBatchSize_def)

theorem draining_refuses_work_witness:
  "ProduceBatch demo_env [Some (demo_msg ''0'')] (BeginDrain demo_server) =
     Some (Status Unavailable, BeginDrain demo_server)"
  using draining_refuses_work [of "(0, [])" "demo_msg ''0''" demo_server "[Some (demo_msg ''0'')]" demo_env] by simp

end
