(* ===== verification/MQ_Stream.thy ===== *)
theory MQ_Stream
  imports MQ_Server
begin

text \<open>
  The bidirectional \<open>Consume\<close> call (\<open>internal/server/server.go\<close>): credit tokens, the receive
  goroutine, the send loop and the deferred cleanup. Every stream is a small machine whose program
  counter names the point of the send loop it is at; its steps interleave with those of the other
  streams, the producers, the sweeper and the operator; a call whose first receive fails takes a stream id and
  returns. The store is reached through the contract
  \<open>lease_store\<close>, which the broker is shown to satisfy.
\<close>

section \<open>The contract of the store\<close>

text \<open>
  \<open>held c b\<close> is the number of leases consumer \<open>c\<close> holds. A window of \<open>credit\<close> is kept when the
  tokens left in the semaphore and the leases held never exceed it together.
\<close>

locale lease_store =
  fixes invar :: "'b \<Rightarrow> bool"
    and held :: "uint64 \<Rightarrow> 'b \<Rightarrow> nat"
    and lease :: "uint64 \<Rightarrow> 'b \<Rightarrow> (TelemetryMessage option \<times> 'b) option"
    and ack :: "uint64 \<Rightarrow> uint64 \<Rightarrow> 'b \<Rightarrow> bool \<times> 'b"
    and releaseLease :: "uint64 \<Rightarrow> uint64 \<Rightarrow> 'b \<Rightarrow> (bool \<times> 'b) option"
    and releaseConsumer :: "uint64 \<Rightarrow> 'b \<Rightarrow> (nat \<times> 'b) option"
  assumes lease_total: "invar b \<Longrightarrow> \<exists>r b'. lease c b = Some (r, b')"
    and lease_invar: "invar b \<Longrightarrow> lease c b = Some (r, b') \<Longrightarrow> invar b'"
    and lease_one: "invar b \<Longrightarrow> lease c b = Some (r, b') \<Longrightarrow>
        held c' b' \<le> held c' b + (if c' = c \<and> r \<noteq> None then 1 else 0)"
    and ack_invar: "invar b \<Longrightarrow> invar (snd (ack i c b))"
    and ack_held: "invar b \<Longrightarrow> held c' b = held c' (snd (ack i c b)) + (if c' = c \<and> fst (ack i c b) then 1 else 0)"
    and releaseLease_total: "invar b \<Longrightarrow> \<exists>r b'. releaseLease i c b = Some (r, b')"
    and releaseLease_invar: "invar b \<Longrightarrow> releaseLease i c b = Some (q, b') \<Longrightarrow> invar b'"
    and releaseLease_held: "invar b \<Longrightarrow> releaseLease i c b = Some (q, b') \<Longrightarrow> held c' b' \<le> held c' b"
    and releaseConsumer_total: "invar b \<Longrightarrow> \<exists>n b'. releaseConsumer c b = Some (n, b')"
    and releaseConsumer_invar: "invar b \<Longrightarrow> releaseConsumer c b = Some (n, b') \<Longrightarrow> invar b'"
    and releaseConsumer_held: "invar b \<Longrightarrow> releaseConsumer c b = Some (n, b') \<Longrightarrow>
        held c' b' = (if c' = c then 0 else held c' b)"
begin

definition window :: "nat \<Rightarrow> nat \<Rightarrow> uint64 \<Rightarrow> 'b \<Rightarrow> bool" where
  "window credit tokens c b \<longleftrightarrow> tokens + held c b \<le> credit"

lemma window_mono: "window credit tokens c b \<Longrightarrow> held c b' \<le> held c b \<Longrightarrow> window credit tokens c b'"
  by (simp add: window_def)

lemma window_lease:
  assumes "invar b" "lease c b = Some (r, b')" "window credit (Suc tokens) c b"
  shows "window credit (if r = None then Suc tokens else tokens) c b'"
  using lease_one [OF assms(1,2), of c] assms(3) by (auto simp: window_def split: if_splits)

lemma window_lease_other:
  assumes "invar b" "lease c b = Some (r, b')" "c' \<noteq> c" "window credit tokens c' b"
  shows "window credit tokens c' b'"
  using lease_one [OF assms(1,2), of c'] assms(3,4) by (auto simp: window_def)

lemma window_ack:
  assumes "invar b" "window credit tokens c b" "fst (ack i c b)"
  shows "tokens < credit" "window credit (Suc tokens) c (snd (ack i c b))"
  using ack_held [OF assms(1), of c i c] assms(2,3) by (auto simp: window_def)

lemma ack_held_le: "invar b \<Longrightarrow> held c' (snd (ack i c b)) \<le> held c' b"
  using ack_held [of b c' i c] by simp

end

section \<open>The broker satisfies it\<close>

definition leases_of :: "uint64 \<Rightarrow> Broker \<Rightarrow> nat" where
  "leases_of c b = length (filter (\<lambda>(i, r). consumer r = c) (leases b))"

lemma filter_update:
  "length (filter (\<lambda>(i, r). P r) (AList.update k v ls)) \<le>
     length (filter (\<lambda>(i, r). P r) ls) + (if P v then 1 else 0)"
  by (induction ls) auto

lemma filter_delete:
  assumes "distinct (map fst ls)" "map_of ls k = Some v"
  shows "length (filter (\<lambda>(i, r). P r) ls) =
     length (filter (\<lambda>(i, r). P r) (AList.delete k ls)) + (if P v then 1 else 0)"
  using assms
proof (induction ls)
  case (Cons x ls)
  obtain i r where x: "x = (i, r)" by (cases x)
  show ?case
  proof (cases "i = k")
    case True
    then have "AList.delete k ls = ls" using Cons.prems(1) x by (force simp: AList.delete_eq filter_id_conv)
    with True Cons.prems(2) x show ?thesis by simp
  next
    case False
    with Cons x show ?thesis by simp
  qed
qed simp

lemma filter_consumer:
  "filter (\<lambda>(i, r). consumer r = c') (filter (\<lambda>(i, r). consumer r \<noteq> c) ls) =
     (if c' = c then [] else filter (\<lambda>(i, r). consumer r = c') ls)"
  by (induction ls) auto

lemma leases_of_upd [simp]:
  "leases_of c (b\<lparr>ticks := x_ticks\<rparr>) = leases_of c b"
  "leases_of c (b\<lparr>spaceCh := x_space\<rparr>) = leases_of c b"
  "leases_of c (b\<lparr>main := x_main\<rparr>) = leases_of c b"
  "leases_of c (b\<lparr>retry := x_retry\<rparr>) = leases_of c b"
  by (simp_all add: leases_of_def)

lemma leases_of_lease:
  "leases_of c' (snd (leaseEntry c e b)) \<le> leases_of c' b + (if c' = c then 1 else 0)"
proof -
  define v where "v = \<lparr>lr_e = \<lparr>msg = (msg e)\<lparr>pbDeliveryAttempts := attempts e + 1\<rparr>, attempts = attempts e + 1\<rparr>,
        consumer = c, deadline = now b (ticks b) + LeaseTTL (cfg b)\<rparr>"
  have "leases (snd (leaseEntry c e b)) = AList.update (pbId (msg e)) v (leases b)" "consumer v = c"
    by (simp_all add: leaseEntry_snd v_def)
  with filter_update [of "\<lambda>r. consumer r = c'" "pbId (msg e)" v "leases b"] show ?thesis
    by (auto simp: leases_of_def)
qed

lemma Lease_leases_of:
  assumes "broker_inv b" "Lease c b = Some (r, b')"
  shows "leases_of c' b' \<le> leases_of c' b + (if c' = c \<and> r \<noteq> None then 1 else 0)"
  using assms(1)
proof (cases rule: Lease_cases [where c = c])
  case (retried it h)
  let ?b = "b\<lparr>ticks := vis_ticks b, retry := h\<rparr>"
  have "(r, b') = leaseEntry c (ri_e it) ?b" using retried(3) assms(2) by simp
  then have "b' = snd (leaseEntry c (ri_e it) ?b)" "r \<noteq> None"
    using leaseEntry_snd(2) [of c "ri_e it" ?b] by (metis snd_conv, metis fst_conv option.distinct(1))
  with leases_of_lease [of c' c "ri_e it" ?b] show ?thesis by simp
next
  case (fresh e xs d)
  let ?b = "b\<lparr>ticks := vis_ticks b, main := d\<rparr>"
  have "(r, b') = leaseEntry c e ?b" using fresh(6) assms(2) by simp
  then have "b' = snd (leaseEntry c e ?b)" "r \<noteq> None"
    using leaseEntry_snd(2) [of c e ?b] by (metis snd_conv, metis fst_conv option.distinct(1))
  with leases_of_lease [of c' c e ?b] show ?thesis by simp
next
  case idle
  with assms(2) show ?thesis by auto
qed

lemma Ack_leases_of:
  assumes "broker_inv b"
  shows "leases_of c' b = leases_of c' (snd (Ack i c b)) + (if c' = c \<and> fst (Ack i c b) then 1 else 0)"
proof -
  have "distinct (map fst (leases b))" using assms by (simp add: broker_inv_def)
  note fd = filter_delete [OF this, of i _ "\<lambda>r. consumer r = c'"]
  show ?thesis
    unfolding Ack_ok(1) [OF assms] using fd by (auto simp: leases_of_def split: option.splits)
qed

lemma ReleaseLease_leases_of:
  assumes "broker_inv b" "ReleaseLease i c b = Some (r, b')"
  shows "leases_of c' b' \<le> leases_of c' b"
proof (cases "\<exists>rec. map_of (leases b) i = Some rec \<and> consumer rec = c")
  case True
  then obtain rec where rec: "map_of (leases b) i = Some rec" "consumer rec = c" by blast
  have "requeue (lr_e rec) 0 (b\<lparr>leases := AList.delete i (leases b)\<rparr>) = Some b'"
    using rec assms(2) by (auto simp: ReleaseLease_def split: Option.bind_splits)
  from requeueLease_move [OF assms(1) rec(1) this] have "leases b' = AList.delete i (leases b)" by simp
  moreover have "distinct (map fst (leases b))" using assms(1) by (simp add: broker_inv_def)
  ultimately show ?thesis using filter_delete [OF _ rec(1), of "\<lambda>r. consumer r = c'"] by (simp add: leases_of_def)
next
  case False
  then have "ReleaseLease i c b = Some (False, b)" by (auto simp: ReleaseLease_def split: option.splits)
  with assms(2) show ?thesis by simp
qed

interpretation broker_store: lease_store broker_inv leases_of Lease Ack ReleaseLease ReleaseConsumer
proof unfold_locales
  fix b b' :: Broker and c c' i :: uint64 and r :: "TelemetryMessage option" and q :: bool and n :: nat
  assume inv: "broker_inv b"
  show "\<exists>r b'. Lease c b = Some (r, b')" using Lease_ok [OF inv, of c] by blast
  show "broker_inv b'" if "Lease c b = Some (r, b')" using Lease_ok [OF inv, of c] that by auto
  show "leases_of c' b' \<le> leases_of c' b + (if c' = c \<and> r \<noteq> None then 1 else 0)"
    if "Lease c b = Some (r, b')" by (rule Lease_leases_of [OF inv that])
  show "broker_inv (snd (Ack i c b))" by (rule Ack_ok(2) [OF inv])
  show "leases_of c' b = leases_of c' (snd (Ack i c b)) + (if c' = c \<and> fst (Ack i c b) then 1 else 0)"
    by (rule Ack_leases_of [OF inv])
  show "\<exists>r b'. ReleaseLease i c b = Some (r, b')" using ReleaseLease_ok [OF inv, of i c] by blast
  show "broker_inv b'" if "ReleaseLease i c b = Some (q, b')"
    using ReleaseLease_ok [OF inv, of i c] that by (auto simp: lane_move_def)
  show "leases_of c' b' \<le> leases_of c' b" if "ReleaseLease i c b = Some (q, b')"
    by (rule ReleaseLease_leases_of [OF inv that])
  note rc = ReleaseConsumer_ok [OF inv, of c]
  show "\<exists>n b'. ReleaseConsumer c b = Some (n, b')" using rc by blast
  show "broker_inv b'" if "ReleaseConsumer c b = Some (n, b')" using rc that by (auto simp: lane_move_def)
  show "leases_of c' b' = (if c' = c then 0 else leases_of c' b)" if "ReleaseConsumer c b = Some (n, b')"
  proof -
    have "leases b' = filter (\<lambda>(i, r). consumer r \<noteq> c) (leases b)" using rc that by auto
    then show ?thesis unfolding leases_of_def by (simp only: filter_consumer) simp
  qed
qed

section \<open>A stream\<close>

text \<open>
  Where the send loop is: draining acknowledgements, waiting for a token, holding one, having
  captured the notify channel, parked on the generation it captured, sending, in the deferred
  cleanup, returned. \<open>ackCh\<close> is the content of the buffered acknowledgement channel and \<open>recvDone\<close>
  says that the receive goroutine has ended and closed it.
\<close>

datatype stream_pc =
    DrainAcks | AcquireToken | HaveToken | Captured nat | Waiting nat
  | Sending TelemetryMessage | Cleanup | Exited

text \<open>
  What the handler returns: no error, the error of the receive goroutine, of the stream's context or
  of the failed send, or status \<open>Unavailable\<close>. The receive goroutine leaves its own final error in
  \<open>recvFinal\<close>: nothing for a half-close (\<open>io.EOF\<close>) or when it gave up on a finished context.
\<close>

datatype stream_ret = RetNil | RetRecvErr | RetCtxErr | RetUnavailable | RetSendErr

record Stream =
  cid :: uint64
  credit :: nat
  sem :: nat
  ackCh :: "uint64 list"
  recvDone :: bool
  recvFinal :: stream_ret
  pc :: stream_pc
  ret :: stream_ret

definition open_stream :: "int \<Rightarrow> MQServer \<Rightarrow> Stream \<times> MQServer" where
  "open_stream requested s =
     (let s = s\<lparr>activeC := activeC s + 1, consumerSeq := consumerSeq s + 1\<rparr>;
          n = nat (consumeCredit requested s)
      in (\<lparr>cid = consumerSeq s, credit = n, sem = n, ackCh = [], recvDone = False, recvFinal = RetNil,
            pc = DrainAcks, ret = RetNil\<rparr>, s))"

text \<open>Putting a token back: \<open>None\<close> when the semaphore channel is full and the send would block.\<close>

definition put_token :: "Stream \<Rightarrow> Stream option" where
  "put_token st = (if sem st < credit st then Some (st\<lparr>sem := Suc (sem st)\<rparr>) else None)"

definition apply_ack :: "uint64 \<Rightarrow> Stream \<Rightarrow> MQServer \<Rightarrow> bool \<times> MQServer" where
  "apply_ack i st s =
     (let (ok, b) = Ack i (cid st) (store s) in
      (ok, if ok then s\<lparr>store := b, consumed := consumed s + 1\<rparr> else s\<lparr>store := b\<rparr>))"

definition ack_step :: "uint64 \<Rightarrow> Stream \<Rightarrow> MQServer \<Rightarrow> (Stream \<times> MQServer) option" where
  "ack_step i st s =
     (let (ok, s) = apply_ack i st s in
      if ok then map_option (\<lambda>st. (st, s)) (put_token st) else Some (st, s))"

definition fail_send :: "TelemetryMessage \<Rightarrow> Stream \<Rightarrow> MQServer \<Rightarrow> MQServer option" where
  "fail_send m st s = do {
     (ok, b) \<leftarrow> ReleaseLease (pbId m) (cid st) (store s);
     let s = s\<lparr>store := b\<rparr>;
     Some (if ok then NotifyAll (s\<lparr>redelivered := redelivered s + 1\<rparr>) else s)
   }"

definition release_all :: "Stream \<Rightarrow> MQServer \<Rightarrow> MQServer option" where
  "release_all st s = do {
     (n, b) \<leftarrow> ReleaseConsumer (cid st) (store s);
     let s = s\<lparr>store := b, activeC := activeC s - 1\<rparr>;
     Some (if n > 0 then NotifyAll (s\<lparr>redelivered := redelivered s + int n\<rparr>) else s)
   }"

inductive stream_step :: "Stream \<times> MQServer \<Rightarrow> Stream \<times> MQServer \<Rightarrow> bool" where
  recv_ack: "\<not> recvDone st \<Longrightarrow> i \<noteq> 0 \<Longrightarrow> length (ackCh st) < credit st \<Longrightarrow>
    stream_step (st, s) (st\<lparr>ackCh := ackCh st @ [i]\<rparr>, s)"
| recv_eof: "\<not> recvDone st \<Longrightarrow> stream_step (st, s) (st\<lparr>recvDone := True, recvFinal := RetNil\<rparr>, s)"
| recv_error: "\<not> recvDone st \<Longrightarrow> stream_step (st, s) (st\<lparr>recvDone := True, recvFinal := RetRecvErr\<rparr>, s)"
| drain_ack: "pc st = DrainAcks \<Longrightarrow> ackCh st = i # js \<Longrightarrow> ack_step i (st\<lparr>ackCh := js\<rparr>) s = Some (st', s') \<Longrightarrow>
    stream_step (st, s) (st', s')"
| drain_gone: "pc st = DrainAcks \<Longrightarrow> ackCh st = [] \<Longrightarrow> recvDone st \<Longrightarrow>
    stream_step (st, s) (st\<lparr>pc := Cleanup, ret := recvFinal st\<rparr>, s)"
| drain_done: "pc st = DrainAcks \<Longrightarrow> ackCh st = [] \<Longrightarrow> \<not> recvDone st \<Longrightarrow>
    stream_step (st, s) (st\<lparr>pc := AcquireToken\<rparr>, s)"
| take_token: "pc st = AcquireToken \<Longrightarrow> 0 < sem st \<Longrightarrow>
    stream_step (st, s) (st\<lparr>sem := sem st - 1, pc := HaveToken\<rparr>, s)"
| wait_ack: "pc st = AcquireToken \<or> pc st = Waiting g \<Longrightarrow> ackCh st = i # js \<Longrightarrow>
    ack_step i (st\<lparr>ackCh := js, pc := DrainAcks\<rparr>) s = Some (st', s') \<Longrightarrow> stream_step (st, s) (st', s')"
| wait_gone: "pc st = AcquireToken \<or> pc st = Waiting g \<Longrightarrow> ackCh st = [] \<Longrightarrow> recvDone st \<Longrightarrow>
    stream_step (st, s) (st\<lparr>pc := Cleanup, ret := recvFinal st\<rparr>, s)"
| wait_ctx: "pc st = AcquireToken \<or> pc st = Waiting g \<Longrightarrow>
    stream_step (st, s) (st\<lparr>pc := Cleanup, ret := RetCtxErr\<rparr>, s)"
| wait_shutdown: "pc st = AcquireToken \<or> pc st = Waiting g \<Longrightarrow> shutdownCh s \<Longrightarrow>
    stream_step (st, s) (st\<lparr>pc := Cleanup, ret := RetUnavailable\<rparr>, s)"
| capture: "pc st = HaveToken \<Longrightarrow> stream_step (st, s) (st\<lparr>pc := Captured (notifyCh s)\<rparr>, s)"
| lease_msg: "pc st = Captured g \<Longrightarrow> Lease (cid st) (store s) = Some (Some m, b) \<Longrightarrow>
    stream_step (st, s) (st\<lparr>pc := Sending m\<rparr>, s\<lparr>store := b\<rparr>)"
| lease_idle: "pc st = Captured g \<Longrightarrow> Lease (cid st) (store s) = Some (None, b) \<Longrightarrow> put_token st = Some st' \<Longrightarrow>
    stream_step (st, s) (st'\<lparr>pc := Waiting g\<rparr>, s\<lparr>store := b\<rparr>)"
| woken: "pc st = Waiting g \<Longrightarrow> g < notifyCh s \<Longrightarrow> stream_step (st, s) (st\<lparr>pc := DrainAcks\<rparr>, s)"
| send_ok: "pc st = Sending m \<Longrightarrow> stream_step (st, s) (st\<lparr>pc := DrainAcks\<rparr>, s\<lparr>delivered := delivered s + 1\<rparr>)"
| send_fail: "pc st = Sending m \<Longrightarrow> fail_send m st s = Some s' \<Longrightarrow>
    stream_step (st, s) (st\<lparr>pc := Cleanup, ret := RetSendErr\<rparr>, s')"
| cleanup_ack: "pc st = Cleanup \<Longrightarrow> recvDone st \<Longrightarrow> ackCh st = i # js \<Longrightarrow>
    stream_step (st, s) (st\<lparr>ackCh := js\<rparr>, snd (apply_ack i st s))"
| cleanup_release: "pc st = Cleanup \<Longrightarrow> recvDone st \<Longrightarrow> ackCh st = [] \<Longrightarrow> release_all st s = Some s' \<Longrightarrow>
    stream_step (st, s) (st\<lparr>pc := Exited\<rparr>, s')"

text \<open>Tokens a stream owns: those in the semaphore and the one it has taken out.\<close>

definition tokens :: "Stream \<Rightarrow> nat" where
  "tokens st = sem st + (case pc st of HaveToken \<Rightarrow> 1 | Captured _ \<Rightarrow> 1 | _ \<Rightarrow> 0)"

definition stream_inv :: "Stream \<Rightarrow> MQServer \<Rightarrow> bool" where
  "stream_inv st s \<longleftrightarrow>
     broker_store.window (credit st) (tokens st) (cid st) (store s) \<and>
     length (ackCh st) \<le> credit st \<and>
     (pc st = Exited \<longrightarrow> leases_of (cid st) (store s) = 0)"

section \<open>What a stream step keeps\<close>

definition main_empty :: "MQServer \<Rightarrow> bool" where
  "main_empty s \<longleftrightarrow> deque_len (main (store s)) = 0"

text \<open>
  The effect of a stream step on everything but its own stream: the store stays well-formed, no
  other consumer gains a lease, no work appears in the main lane, no notification is taken back.
\<close>

definition server_step :: "uint64 \<Rightarrow> MQServer \<Rightarrow> MQServer \<Rightarrow> bool" where
  "server_step c s s' \<longleftrightarrow>
     broker_inv (store s') \<and> (\<forall>c'. c' \<noteq> c \<longrightarrow> leases_of c' (store s') \<le> leases_of c' (store s)) \<and>
     (main_empty s \<longrightarrow> main_empty s') \<and> notifyCh s \<le> notifyCh s' \<and> consumerSeq s' = consumerSeq s \<and>
     cfg (store s') = cfg (store s)"

lemma server_step_refl: "broker_inv (store s) \<Longrightarrow> server_step c s s"
  by (simp add: server_step_def)

lemma Ack_frame: "main (snd (Ack i c b)) = main b \<and> cfg (snd (Ack i c b)) = cfg b"
  by (auto simp: Ack_def signalSpace_def split: option.splits)

lemma apply_ack_ok:
  assumes "broker_inv (store s)"
  shows "server_step c s (snd (apply_ack i st s))"
    "store (snd (apply_ack i st s)) = snd (Ack i (cid st) (store s))"
    "fst (apply_ack i st s) = fst (Ack i (cid st) (store s))"
    "notifyCh (snd (apply_ack i st s)) = notifyCh s"
proof -
  obtain ok b where a: "Ack i (cid st) (store s) = (ok, b)" by (cases "Ack i (cid st) (store s)")
  show st: "store (snd (apply_ack i st s)) = snd (Ack i (cid st) (store s))"
    "fst (apply_ack i st s) = fst (Ack i (cid st) (store s))" "notifyCh (snd (apply_ack i st s)) = notifyCh s"
    by (simp_all add: apply_ack_def a)
  have "consumerSeq (snd (apply_ack i st s)) = consumerSeq s" by (simp add: apply_ack_def a)
  then show "server_step c s (snd (apply_ack i st s))"
    using broker_store.ack_invar [OF assms] broker_store.ack_held_le [OF assms] Ack_frame [of i "cid st" "store s"]
    by (simp add: server_step_def st main_empty_def)
qed

lemma ack_step_ok:
  assumes "broker_inv (store s)" "broker_store.window (credit st) (sem st) (cid st) (store s)"
  shows "\<exists>k s'. ack_step i st s = Some (st\<lparr>sem := k\<rparr>, s') \<and>
    broker_store.window (credit st) k (cid st) (store s') \<and> server_step c s s' \<and> notifyCh s' = notifyCh s"
proof -
  note a = apply_ack_ok [OF assms(1), where i = i and st = st]
  show ?thesis
  proof (cases "fst (Ack i (cid st) (store s))")
    case True
    from broker_store.window_ack [OF assms True] a True show ?thesis
      by (intro exI [of _ "Suc (sem st)"] exI [of _ "snd (apply_ack i st s)"])
        (simp add: ack_step_def put_token_def split_beta)
  next
    case False
    have "broker_store.window (credit st) (sem st) (cid st) (snd (Ack i (cid st) (store s)))"
      using assms(2) broker_store.ack_held_le [OF assms(1)] by (rule broker_store.window_mono)
    with a False show ?thesis
      by (intro exI [of _ "sem st"] exI [of _ "snd (apply_ack i st s)"]) (simp add: ack_step_def split_beta)
  qed
qed

lemma Lease_main:
  assumes "broker_inv b" "Lease c b = Some (r, b')"
  shows "deque_len (main b) = 0 \<Longrightarrow> deque_len (main b') = 0" "r = None \<Longrightarrow> deque_len (main b') = 0" "cfg b' = cfg b"
proof -
  show "cfg b' = cfg b" using Lease_frame [OF assms(2)] by simp
  have "(deque_len (main b) = 0 \<longrightarrow> deque_len (main b') = 0) \<and> (r = None \<longrightarrow> deque_len (main b') = 0)"
    using assms(1)
  proof (cases rule: Lease_cases [where c = c])
    case (retried it h)
    with assms(2) show ?thesis by (auto simp: leaseEntry_def readClock_def Let_def)
  next
    case (fresh e xs d)
    then have "rcount (main b) \<noteq> 0" by (metis length_Cons length_ring_content nat.distinct(1))
    with fresh assms(2) show ?thesis by (auto simp: leaseEntry_def readClock_def Let_def deque_len_def)
  next
    case idle
    with assms(2) show ?thesis by (auto simp: deque_len_def)
  qed
  then show "deque_len (main b) = 0 \<Longrightarrow> deque_len (main b') = 0" "r = None \<Longrightarrow> deque_len (main b') = 0" by simp_all
qed

lemma ReleaseLease_main: "ReleaseLease i c b = Some (r, b') \<Longrightarrow> main b' = main b"
  by (auto simp: ReleaseLease_def dest!: requeue_main split: option.splits if_splits Option.bind_splits)

lemma ReleaseConsumer_main: "ReleaseConsumer c b = Some (n, b') \<Longrightarrow> main b' = main b"
  by (auto simp: ReleaseConsumer_def Let_def dest: release_loop_main split: Option.bind_splits)

lemma fail_send_ok:
  assumes "broker_inv (store s)" "fail_send m st s = Some s'"
  shows "server_step c s s'" "leases_of (cid st) (store s') \<le> leases_of (cid st) (store s)"
proof -
  from assms(2) obtain ok b where b: "ReleaseLease (pbId m) (cid st) (store s) = Some (ok, b)" "store s' = b"
    "notifyCh s \<le> notifyCh s'" "consumerSeq s' = consumerSeq s"
    by (auto simp: fail_send_def NotifyAll_def Let_def split: Option.bind_splits if_splits)
  have "cfg b = cfg (store s)" using ReleaseLease_ok [OF assms(1), of "pbId m" "cid st"] b(1) by (auto simp: lane_move_def)
  with b show "server_step c s s'" "leases_of (cid st) (store s') \<le> leases_of (cid st) (store s)"
    using broker_store.releaseLease_held [OF assms(1) b(1)] broker_store.releaseLease_invar [OF assms(1) b(1)]
      ReleaseLease_main [OF b(1)] by (simp_all add: server_step_def main_empty_def)
qed

lemma release_all_ok:
  assumes "broker_inv (store s)" "release_all st s = Some s'"
  shows "server_step (cid st) s s'" "leases_of (cid st) (store s') = 0"
proof -
  from assms(2) obtain n b where b: "ReleaseConsumer (cid st) (store s) = Some (n, b)" "store s' = b"
    "notifyCh s \<le> notifyCh s'" "consumerSeq s' = consumerSeq s"
    by (auto simp: release_all_def NotifyAll_def Let_def split: Option.bind_splits if_splits)
  have "cfg b = cfg (store s)" using ReleaseConsumer_ok [OF assms(1), of "cid st"] b(1) by (auto simp: lane_move_def)
  with b show "server_step (cid st) s s'" "leases_of (cid st) (store s') = 0"
    using broker_store.releaseConsumer_held [OF assms(1) b(1)] broker_store.releaseConsumer_invar [OF assms(1) b(1)]
      ReleaseConsumer_main [OF b(1)] by (simp_all add: server_step_def main_empty_def)
qed

lemma Lease_server_step:
  assumes "broker_inv (store s)" "Lease (cid st) (store s) = Some (r, b)"
  shows "server_step (cid st) s (s\<lparr>store := b\<rparr>)"
proof -
  have "leases_of c' b \<le> leases_of c' (store s)" if "c' \<noteq> cid st" for c'
    using broker_store.lease_one [OF assms, of c'] that by simp
  with broker_store.lease_invar [OF assms] Lease_main [OF assms] show ?thesis
    by (simp add: server_step_def main_empty_def)
qed

text \<open>The captured channel is never from the future, and a stream parks only on an empty main lane.\<close>

definition parked_ok :: "Stream \<Rightarrow> MQServer \<Rightarrow> bool \<Rightarrow> bool" where
  "parked_ok st s announced \<longleftrightarrow>
     (\<forall>g. pc st = Captured g \<or> pc st = Waiting g \<longrightarrow> g \<le> notifyCh s) \<and>
     (pc st = Waiting (notifyCh s) \<longrightarrow> main_empty s \<or> announced)"

lemma parked_ok_mono:
  assumes "parked_ok st s a" "server_step c s s'" "a \<Longrightarrow> a'"
  shows "parked_ok st s' a'"
  using assms unfolding parked_ok_def server_step_def
  by (smt (verit) le_antisym le_trans)

lemma parked_ok_moving: "(\<And>g. pc st \<noteq> Captured g \<and> pc st \<noteq> Waiting g) \<Longrightarrow> parked_ok st s a"
  by (simp add: parked_ok_def)

lemma stream_step_ok:
  assumes "stream_step (st, s) (st', s')" "broker_inv (store s)" "stream_inv st s" "parked_ok st s a"
  shows "server_step (cid st) s s' \<and> stream_inv st' s' \<and> cid st' = cid st \<and> credit st' = credit st \<and>
    parked_ok st' s' a \<and> (pc st = Exited \<longrightarrow> pc st' = Exited)"
  using assms(1)
proof (cases rule: stream_step.cases)
  case (drain_ack i js)
  have "broker_store.window (credit st) (sem st) (cid st) (store s)"
    using assms(3) drain_ack(1) by (simp add: stream_inv_def tokens_def)
  from ack_step_ok [OF assms(2), of "st\<lparr>ackCh := js\<rparr>" i "cid st"] this drain_ack obtain k where
    "st' = st\<lparr>ackCh := js, sem := k\<rparr>" "broker_store.window (credit st) k (cid st) (store s')" "server_step (cid st) s s'"
    by auto
  with assms(3) drain_ack show ?thesis by (simp add: stream_inv_def tokens_def parked_ok_def)
next
  case (wait_ack g i js)
  have "broker_store.window (credit st) (sem st) (cid st) (store s)"
    using assms(3) wait_ack(1) by (auto simp: stream_inv_def tokens_def)
  from ack_step_ok [OF assms(2), of "st\<lparr>ackCh := js, pc := DrainAcks\<rparr>" i "cid st"] this wait_ack obtain k where
    "st' = st\<lparr>ackCh := js, pc := DrainAcks, sem := k\<rparr>" "broker_store.window (credit st) k (cid st) (store s')"
    "server_step (cid st) s s'" by auto
  with assms(3) wait_ack show ?thesis by (auto simp: stream_inv_def tokens_def parked_ok_def)
next
  case (lease_msg g m b)
  have "broker_store.window (credit st) (Suc (sem st)) (cid st) (store s)"
    using assms(3) lease_msg(3) by (simp add: stream_inv_def tokens_def)
  from broker_store.window_lease [OF assms(2) lease_msg(4) this] Lease_server_step [OF assms(2) lease_msg(4)] assms(3) lease_msg
  show ?thesis by (simp add: stream_inv_def tokens_def parked_ok_def)
next
  case (lease_idle g b st1)
  have "broker_store.window (credit st) (Suc (sem st)) (cid st) (store s)"
    using assms(3) lease_idle(3) by (simp add: stream_inv_def tokens_def)
  from broker_store.window_lease [OF assms(2) lease_idle(4) this]
  have w: "broker_store.window (credit st) (Suc (sem st)) (cid st) b" by simp
  have "st1 = st\<lparr>sem := Suc (sem st)\<rparr>" using lease_idle(5) by (simp add: put_token_def split: if_splits)
  moreover have "main_empty s'" using Lease_main(2) [OF assms(2) lease_idle(4)] lease_idle(2) by (simp add: main_empty_def)
  moreover have "g \<le> notifyCh s" using assms(4) lease_idle(3) by (simp add: parked_ok_def)
  ultimately show ?thesis
    using w assms(3) lease_idle Lease_server_step [OF assms(2) lease_idle(4)]
    by (simp add: stream_inv_def tokens_def parked_ok_def)
next
  case (send_fail m)
  from fail_send_ok [OF assms(2) send_fail(3)] assms(3) send_fail show ?thesis
    by (auto simp: stream_inv_def tokens_def parked_ok_def intro: broker_store.window_mono)
next
  case (cleanup_ack i js)
  note a = apply_ack_ok [OF assms(2), where i = i and st = st]
  have "leases_of (cid st) (store s') \<le> leases_of (cid st) (store s)"
    using broker_store.ack_held_le [OF assms(2)] a(2) cleanup_ack(2) by simp
  then show ?thesis
    using a(1) assms(3) cleanup_ack by (auto simp: stream_inv_def tokens_def parked_ok_def intro: broker_store.window_mono)
next
  case cleanup_release
  from release_all_ok [OF assms(2) cleanup_release(5)] assms(3) cleanup_release show ?thesis
    by (auto simp: stream_inv_def tokens_def parked_ok_def intro: broker_store.window_mono)
qed (use assms(2-4) in \<open>auto simp: stream_inv_def tokens_def parked_ok_def server_step_def main_empty_def\<close>)

section \<open>The whole service\<close>

text \<open>
  The server with its open streams. \<open>pending\<close> counts the goroutines that have made work available
  and are about to call \<open>NotifyAll\<close> (a producer between its \<open>Enqueue\<close> and its broadcast, an operator
  after a replay, the sweeper); a batch may enqueue several messages before its one broadcast. At
  most \<open>2^64 - 1\<close> streams are opened, so the stream ids do not wrap.
\<close>

record Sys =
  srv :: MQServer
  streams :: "Stream list"
  pending :: nat

inductive sys_from :: "Sys \<Rightarrow> Sys \<Rightarrow> bool" for y0 where
  sys_init: "sys_from y0 y0"
| sys_open: "sys_from y0 y \<Longrightarrow> consumerSeq (srv y) + 1 \<noteq> 0 \<Longrightarrow> open_stream requested (srv y) = (st, s') \<Longrightarrow>
    sys_from y0 (y\<lparr>srv := s', streams := streams y @ [st]\<rparr>)"
| sys_open_failed: "sys_from y0 y \<Longrightarrow> consumerSeq (srv y) + 1 \<noteq> 0 \<Longrightarrow>
    sys_from y0 (y\<lparr>srv := (srv y)\<lparr>consumerSeq := consumerSeq (srv y) + 1\<rparr>\<rparr>)"
| sys_stream: "sys_from y0 y \<Longrightarrow> i < length (streams y) \<Longrightarrow> stream_step (streams y ! i, srv y) (st', s') \<Longrightarrow>
    sys_from y0 (y\<lparr>srv := s', streams := (streams y)[i := st']\<rparr>)"
| sys_produce: "sys_from y0 y \<Longrightarrow> Enqueue_pass m (store (srv y)) = Some (Admitted m', b) \<Longrightarrow>
    p = Suc (pending y) \<or> 0 < pending y \<and> p = pending y \<Longrightarrow>
    sys_from y0 (y\<lparr>srv := (srv y)\<lparr>store := b, produced := produced (srv y) + 1\<rparr>, pending := p\<rparr>)"
| sys_refused: "sys_from y0 y \<Longrightarrow> Enqueue_pass m (store (srv y)) = Some (r, b) \<Longrightarrow> (\<And>m'. r \<noteq> Admitted m') \<Longrightarrow>
    sys_from y0 (y\<lparr>srv := (srv y)\<lparr>store := b\<rparr>\<rparr>)"
| sys_replay: "sys_from y0 y \<Longrightarrow> DLQReplay (store (srv y)) = Some (n, b) \<Longrightarrow>
    sys_from y0 (y\<lparr>srv := (srv y)\<lparr>store := b\<rparr>, pending := pending y + (if n > 0 then 1 else 0)\<rparr>)"
| sys_timeout: "sys_from y0 y \<Longrightarrow> Enqueue_wake TimedOut m (store (srv y)) = Some (r, b) \<Longrightarrow>
    sys_from y0 (y\<lparr>srv := (srv y)\<lparr>store := b\<rparr>\<rparr>)"
| sys_sweep: "sys_from y0 y \<Longrightarrow> SweepExpired (store (srv y)) = Some (n, notified, b) \<Longrightarrow>
    sys_from y0 (y\<lparr>srv := (srv y)\<lparr>store := b\<rparr>, pending := pending y + (if notified then 1 else 0)\<rparr>)"
| sys_check: "sys_from y0 y \<Longrightarrow> sweeper_check (store (srv y)) = (notified, b) \<Longrightarrow>
    sys_from y0 (y\<lparr>srv := (srv y)\<lparr>store := b\<rparr>, pending := pending y + (if notified then 1 else 0)\<rparr>)"
| sys_notify: "sys_from y0 y \<Longrightarrow> 0 < pending y \<Longrightarrow>
    sys_from y0 (y\<lparr>srv := NotifyAll (srv y), pending := pending y - 1\<rparr>)"
| sys_drain: "sys_from y0 y \<Longrightarrow> sys_from y0 (y\<lparr>srv := BeginDrain (srv y)\<rparr>)"
| sys_shutdown: "sys_from y0 y \<Longrightarrow> sys_from y0 (y\<lparr>srv := Shutdown (srv y)\<rparr>)"
| sys_close: "sys_from y0 y \<Longrightarrow> sys_from y0 (y\<lparr>srv := (srv y)\<lparr>store := Close (store (srv y))\<rparr>\<rparr>)"

text \<open>The states the service reaches from its start on an empty broker.\<close>

abbreviation sys_reach :: "Broker \<Rightarrow> int \<Rightarrow> Sys \<Rightarrow> bool" where
  "sys_reach b0 dc \<equiv> sys_from \<lparr>srv = NewMQServer b0 dc, streams = [], pending = 0\<rparr>"

definition credit_ok :: "Stream \<Rightarrow> MQServer \<Rightarrow> bool" where
  "credit_ok st s \<longleftrightarrow> 0 < credit st \<and> int (credit st) \<le> max (Capacity (cfg (store s))) 1000"

definition sys_inv :: "Sys \<Rightarrow> bool" where
  "sys_inv y \<longleftrightarrow>
     broker_inv (store (srv y)) \<and> 0 < defaultCredit (srv y) \<and>
     distinct (map cid (streams y)) \<and>
     (\<forall>st \<in> set (streams y). cid st \<le> consumerSeq (srv y) \<and> stream_inv st (srv y) \<and>
        parked_ok st (srv y) (0 < pending y) \<and> credit_ok st (srv y)) \<and>
     (\<forall>c. consumerSeq (srv y) < c \<longrightarrow> leases_of c (store (srv y)) = 0)"

text \<open>A step of anyone but a consumer: nobody gains a lease.\<close>

definition env_step :: "MQServer \<Rightarrow> MQServer \<Rightarrow> bool" where
  "env_step s s' \<longleftrightarrow>
     broker_inv (store s') \<and> (\<forall>c. leases_of c (store s') \<le> leases_of c (store s)) \<and>
     notifyCh s \<le> notifyCh s' \<and> consumerSeq s' = consumerSeq s \<and> cfg (store s') = cfg (store s) \<and>
     defaultCredit s' = defaultCredit s"

lemma stream_inv_mono:
  assumes "stream_inv st s" "leases_of (cid st) (store s') \<le> leases_of (cid st) (store s)"
  shows "stream_inv st s'"
  using assms broker_store.window_mono [of "credit st" "tokens st" "cid st" "store s" "store s'"]
  by (auto simp: stream_inv_def)

lemma sys_inv_env:
  assumes "sys_inv y" "env_step (srv y) s'" "\<And>st. st \<in> set (streams y) \<Longrightarrow> parked_ok st s' (0 < p)"
  shows "sys_inv (y\<lparr>srv := s', pending := p\<rparr>)"
proof -
  have "leases_of c (store s') = 0" if "leases_of c (store (srv y)) = 0" for c
    using assms(2) that unfolding env_step_def by (metis le_zero_eq)
  moreover have "stream_inv st s' \<and> credit_ok st s'" if "st \<in> set (streams y)" for st
    using assms(1,2) that stream_inv_mono [of st "srv y" s'] by (auto simp: sys_inv_def env_step_def credit_ok_def)
  ultimately show ?thesis using assms by (simp add: sys_inv_def env_step_def)
qed

lemma parked_ok_announce: "parked_ok st s a \<Longrightarrow> notifyCh s \<le> notifyCh s' \<Longrightarrow> parked_ok st s' True"
  by (auto simp: parked_ok_def)

lemma parked_ok_notify: "parked_ok st s a \<Longrightarrow> parked_ok st (NotifyAll s) a'"
  by (auto simp: parked_ok_def NotifyAll_def)

lemma parked_ok_quiet:
  "parked_ok st s a \<Longrightarrow> (main_empty s \<Longrightarrow> main_empty s') \<Longrightarrow> notifyCh s' = notifyCh s \<Longrightarrow> (a \<Longrightarrow> a') \<Longrightarrow> parked_ok st s' a'"
  by (auto simp: parked_ok_def)

lemma Enqueue_pass_leases:
  assumes "broker_inv b" "Enqueue_pass m b = Some (r, b')"
  shows "leases b' = leases b \<and> broker_inv b' \<and> cfg b' = cfg b \<and> ((\<forall>m'. r \<noteq> Admitted m') \<longrightarrow> main b' = main b)"
  using assms(1)
proof (cases rule: Enqueue_pass_cases [where m = m])
  case (room b1)
  then show ?thesis using assms(2) by (auto simp: admitted_def)
next
  case (evict e xs d b1 b2)
  then show ?thesis using assms(2) by (auto simp: admitted_def)
qed (use assms in auto)

lemma sweep_loop_main: "sweep_loop ids n b = Some (k, b') \<Longrightarrow> main b' = main b"
  by (induction ids arbitrary: n b) (auto simp: requeueLease_def dest!: requeue_main split: Option.bind_splits)

lemma SweepExpired_env:
  assumes "broker_inv b" "SweepExpired b = Some (n, notified, b')"
  shows "broker_inv b' \<and> main b' = main b \<and> cfg b' = cfg b \<and> leases_of c b' \<le> leases_of c b"
proof -
  from SweepExpired_ok [OF assms(1)] assms(2) have b': "lane_move b b'"
    "leases b' = filter (\<lambda>(i, r). now b (ticks b) < deadline r) (leases b)" by auto
  have "main b' = main b"
    using assms(2) by (auto simp: SweepExpired_def readClock_def Let_def dest!: sweep_loop_main split: Option.bind_splits)
  moreover have "leases_of c b' \<le> leases_of c b"
    unfolding leases_of_def b'(2) by (rule length_filter_filter_le)
  ultimately show ?thesis using b'(1) by (simp add: lane_move_def)
qed

lemma sweeper_check_env:
  assumes "broker_inv b" "sweeper_check b = (notified, b')"
  shows "broker_inv b' \<and> main b' = main b \<and> cfg b' = cfg b \<and> leases_of c b' \<le> leases_of c b"
  using assms by (auto simp: sweeper_check_def headVisible_eq leases_of_def)

lemma timeout_env:
  assumes "broker_inv b" "Enqueue_wake TimedOut m b = Some (r, b')"
  shows "broker_inv b' \<and> main b' = main b \<and> cfg b' = cfg b \<and> leases_of c b' \<le> leases_of c b"
  using assms by (auto simp: Enqueue_wake_def leases_of_def)

lemma open_stream_ok:
  assumes "open_stream requested s = (st, s')" "0 < defaultCredit s" "leases_of (consumerSeq s + 1) (store s) = 0"
  shows "cid st = consumerSeq s + 1" "credit_ok st s'" "stream_inv st s'" "parked_ok st s' a"
    "consumerSeq s' = consumerSeq s + 1" "store s' = store s" "notifyCh s' = notifyCh s" "defaultCredit s' = defaultCredit s"
proof -
  show f: "cid st = consumerSeq s + 1" "consumerSeq s' = consumerSeq s + 1" "store s' = store s"
    "notifyCh s' = notifyCh s" "defaultCredit s' = defaultCredit s" "parked_ok st s' a"
    using assms(1) by (auto simp: open_stream_def Let_def parked_ok_def)
  have c: "credit st = nat (consumeCredit requested s')" "sem st = credit st" "pc st = DrainAcks" "ackCh st = []"
    using assms(1) by (auto simp: open_stream_def Let_def)
  then show "credit_ok st s'"
    using assms(2) f(5) by (auto simp: credit_ok_def consumeCredit_def creditCeiling_def creditCeilingConst_def
        Inspect_def Let_def)
  show "stream_inv st s'"
    using c f(1,3) assms(3) by (simp add: stream_inv_def tokens_def broker_store.window_def)
qed

lemma sys_inv_stream:
  assumes "sys_inv y" "i < length (streams y)" "stream_step (streams y ! i, srv y) (st', s')"
    "defaultCredit s' = defaultCredit (srv y)"
  shows "sys_inv (y\<lparr>srv := s', streams := (streams y)[i := st']\<rparr>)"
proof -
  let ?st = "streams y ! i"
  have st: "?st \<in> set (streams y)" using assms(2) by simp
  with assms(1) have inv: "broker_inv (store (srv y))" "stream_inv ?st (srv y)"
    "parked_ok ?st (srv y) (0 < pending y)" by (auto simp: sys_inv_def)
  from stream_step_ok [OF assms(3) inv] have
    ok: "server_step (cid ?st) (srv y) s'" "stream_inv st' s'" "cid st' = cid ?st" "credit st' = credit ?st"
      "parked_ok st' s' (0 < pending y)" by simp_all
  have le: "cid ?st \<le> consumerSeq (srv y)" using st assms(1) by (simp add: sys_inv_def)
  have others: "stream_inv st s' \<and> parked_ok st s' (0 < pending y) \<and> credit_ok st s' \<and> cid st \<le> consumerSeq s'"
    if "st \<in> set (streams y)" "cid st \<noteq> cid ?st" for st
    using that assms(1) ok(1) parked_ok_mono [OF _ ok(1), of st] stream_inv_mono [of st "srv y" s']
    by (auto simp: sys_inv_def server_step_def credit_ok_def)
  have new: "credit_ok st' s' \<and> cid st' \<le> consumerSeq s'"
    using st assms(1) ok(1,3,4) by (auto simp: sys_inv_def credit_ok_def server_step_def)
  have cids: "map cid ((streams y)[i := st']) = map cid (streams y)"
    using ok(3) assms(2) by (metis list_update_id map_update nth_map length_map)
  have split: "st = st' \<or> st \<in> set (streams y) \<and> cid st \<noteq> cid ?st" if "st \<in> set ((streams y)[i := st'])" for st
  proof -
    from that obtain j where j: "j < length (streams y)" "(streams y)[i := st'] ! j = st"
      by (metis in_set_conv_nth length_list_update)
    show ?thesis
    proof (cases "j = i")
      case False
      have "distinct (map cid (streams y))" using assms(1) by (simp add: sys_inv_def)
      with False j assms(2) show ?thesis by (auto simp: distinct_conv_nth)
    qed (use j in auto)
  qed
  have "\<forall>st \<in> set ((streams y)[i := st']). cid st \<le> consumerSeq s' \<and> stream_inv st s' \<and>
      parked_ok st s' (0 < pending y) \<and> credit_ok st s'"
    using split others new ok(2,5) by blast
  moreover have "leases_of c (store s') = 0" if "consumerSeq s' < c" for c
  proof -
    have "c \<noteq> cid ?st" using that le ok(1) by (auto simp: server_step_def)
    then have "leases_of c (store s') \<le> leases_of c (store (srv y))" using ok(1) by (simp add: server_step_def)
    with that assms(1) ok(1) show ?thesis by (auto simp: sys_inv_def server_step_def)
  qed
  moreover have "broker_inv (store s')" using ok(1) by (simp add: server_step_def)
  ultimately show ?thesis using assms(1,4) unfolding sys_inv_def by (simp add: cids)
qed

lemma stream_step_default: "stream_step (st, s) (st', s') \<Longrightarrow> defaultCredit s' = defaultCredit s"
  by (erule stream_step.cases)
    (auto simp: ack_step_def apply_ack_def fail_send_def release_all_def NotifyAll_def Let_def split_beta
      split: if_splits option.splits Option.bind_splits)

lemma sys_inv_open:
  assumes "sys_inv y" "consumerSeq (srv y) + 1 \<noteq> 0" "open_stream requested (srv y) = (st, s')"
  shows "sys_inv (y\<lparr>srv := s', streams := streams y @ [st]\<rparr>)"
proof -
  have lt: "consumerSeq (srv y) < consumerSeq (srv y) + 1"
    using unat_succ [OF assms(2)] by (simp add: word_less_nat_alt)
  have "leases_of (consumerSeq (srv y) + 1) (store (srv y)) = 0" "0 < defaultCredit (srv y)"
    using assms(1) lt by (simp_all add: sys_inv_def)
  note o = open_stream_ok [OF assms(3) this(2,1)]
  have "stream_inv x s' \<and> parked_ok x s' (0 < pending y) \<and> credit_ok x s' \<and> cid x < consumerSeq s'"
    if "x \<in> set (streams y)" for x
  proof -
    have x: "cid x \<le> consumerSeq (srv y)" "stream_inv x (srv y)" "parked_ok x (srv y) (0 < pending y)" "credit_ok x (srv y)"
      using that assms(1) by (simp_all add: sys_inv_def)
    then have "cid x < consumerSeq s'" using lt o(5) by simp
    with x o(6,7) show ?thesis
      by (simp add: stream_inv_def parked_ok_def credit_ok_def main_empty_def)
  qed
  moreover have "leases_of c (store s') = 0" if "consumerSeq s' < c" for c
    using that assms(1) lt o(5,6) by (simp add: sys_inv_def)
  moreover have "cid st \<notin> cid ` set (streams y)" using calculation(1) o(1,5) by fastforce
  ultimately show ?thesis
    using assms(1) o by (simp add: sys_inv_def order.strict_implies_order)
qed

lemma sys_inv_store:
  assumes "sys_inv y" "broker_inv b" "\<And>c. leases_of c b \<le> leases_of c (store (srv y))" "cfg b = cfg (store (srv y))"
    "store s' = b" "notifyCh s' = notifyCh (srv y)" "consumerSeq s' = consumerSeq (srv y)"
    "defaultCredit s' = defaultCredit (srv y)"
    "deque_len (main (store (srv y))) = 0 \<and> 0 = pending y \<Longrightarrow> deque_len (main b) = 0 \<or> 0 < p" "pending y \<le> p"
  shows "sys_inv (y\<lparr>srv := s', pending := p\<rparr>)"
  using assms(1)
proof (rule sys_inv_env)
  show "env_step (srv y) s'" using assms by (simp add: env_step_def)
  fix st assume "st \<in> set (streams y)"
  then have "parked_ok st (srv y) (0 < pending y)" using assms(1) by (simp add: sys_inv_def)
  then show "parked_ok st s' (0 < p)"
    using assms(5,6,9,10) by (auto simp: parked_ok_def main_empty_def)
qed

lemma sys_inv_quiet:
  assumes "sys_inv y" "store s' = store (srv y)" "notifyCh s' = notifyCh (srv y)" "consumerSeq s' = consumerSeq (srv y)"
    "defaultCredit s' = defaultCredit (srv y)"
  shows "sys_inv (y\<lparr>srv := s'\<rparr>)"
  using sys_inv_store [OF assms(1), of "store (srv y)" s' "pending y"] assms by (simp add: sys_inv_def)

lemma sys_inv_replay:
  assumes inv: "sys_inv y" and "DLQReplay (store (srv y)) = Some (n, b)"
  shows "broker_inv b" "leases b = leases (store (srv y))" "cfg b = cfg (store (srv y))"
    "deque_len (main b) = deque_len (main (store (srv y))) \<or> 0 < n"
proof -
  have bi: "broker_inv (store (srv y))" using inv by (simp add: sys_inv_def)
  obtain d r where b: "b = (store (srv y))\<lparr>dlq := r, main := d\<rparr>" "n = replay_count (store (srv y))" "broker_inv b"
    "ring_content d = ring_content (main (store (srv y))) @ map fresh_start (take n (ring_content (dlq (store (srv y)))))"
    using DLQReplay_ok [OF bi] assms(2) by (metis Pair_inject option.inject)
  then show "broker_inv b" "leases b = leases (store (srv y))" "cfg b = cfg (store (srv y))" by simp_all
  show "deque_len (main b) = deque_len (main (store (srv y))) \<or> 0 < n"
    using arg_cong [OF b(4), of length] by (auto simp: b(1) deque_len_def)
qed

lemma sys_inv_notify:
  assumes inv: "sys_inv y"
  shows "sys_inv (y\<lparr>srv := NotifyAll (srv y), pending := pending y - 1\<rparr>)"
proof -
  have "broker_inv (store (srv y))" using inv by (simp add: sys_inv_def)
  then have "env_step (srv y) (NotifyAll (srv y))" by (simp add: env_step_def NotifyAll_def)
  moreover have "parked_ok st (NotifyAll (srv y)) (0 < pending y - 1)" if "st \<in> set (streams y)" for st
    using that inv by (intro parked_ok_notify) (auto simp: sys_inv_def)
  ultimately show ?thesis by (intro sys_inv_env [OF inv])
qed

lemma sys_inv_close:
  assumes inv: "sys_inv y"
  shows "sys_inv (y\<lparr>srv := (srv y)\<lparr>store := Close (store (srv y))\<rparr>\<rparr>)"
proof -
  have "leases (Close b) = leases b" "main (Close b) = main b" "cfg (Close b) = cfg b" "broker_inv (Close b) = broker_inv b" for b
    by (simp_all add: Close_def signalSpace_def)
  with inv sys_inv_store [OF inv, of "Close (store (srv y))" "(srv y)\<lparr>store := Close (store (srv y))\<rparr>" "pending y"]
  show ?thesis by (simp add: leases_of_def sys_inv_def)
qed

lemma sys_inv_open_failed:
  assumes "sys_inv y" "consumerSeq (srv y) + 1 \<noteq> 0"
  shows "sys_inv (y\<lparr>srv := (srv y)\<lparr>consumerSeq := consumerSeq (srv y) + 1\<rparr>\<rparr>)"
proof -
  have "consumerSeq (srv y) < consumerSeq (srv y) + 1"
    using unat_succ [OF assms(2)] by (simp add: word_less_nat_alt)
  with assms(1) show ?thesis
    by (auto simp: sys_inv_def stream_inv_def parked_ok_def credit_ok_def main_empty_def)
qed

lemma sys_from_inv:
  assumes "sys_from y0 y" "sys_inv y0"
  shows "sys_inv y"
  using assms
proof (induction rule: sys_from.induct)
  case (sys_open y requested st s')
  then show ?case using sys_inv_open by simp
next
  case (sys_open_failed y)
  then show ?case using sys_inv_open_failed by simp
next
  case (sys_stream y i st' s')
  then show ?case using sys_inv_stream stream_step_default [OF sys_stream.hyps(3)] by simp
next
  case (sys_produce y m m' b p)
  then have inv: "sys_inv y" by simp
  then have "broker_inv (store (srv y))" by (simp add: sys_inv_def)
  from Enqueue_pass_leases [OF this sys_produce.hyps(2)] sys_produce.hyps(3) inv show ?case
    by (intro sys_inv_store [where b = b]) (auto simp: leases_of_def)
next
  case (sys_refused y m r b)
  then have inv: "sys_inv y" by simp
  then have "broker_inv (store (srv y))" by (simp add: sys_inv_def)
  from Enqueue_pass_leases [OF this sys_refused.hyps(2)] sys_refused.hyps(3) inv
    sys_inv_store [of y b "(srv y)\<lparr>store := b\<rparr>" "pending y"] show ?case
    by (auto simp: leases_of_def)
next
  case (sys_replay y n b)
  then have inv: "sys_inv y" by simp
  from sys_inv_replay [OF inv sys_replay.hyps(2)] inv show ?case
    by (intro sys_inv_store [where b = b]) (auto simp: leases_of_def)
next
  case (sys_timeout y m r b)
  then have inv: "sys_inv y" by simp
  then have "broker_inv (store (srv y))" by (simp add: sys_inv_def)
  from timeout_env [OF this sys_timeout.hyps(2)] inv
    sys_inv_store [of y b "(srv y)\<lparr>store := b\<rparr>" "pending y"] show ?case
    by auto
next
  case (sys_sweep y n notified b)
  then have inv: "sys_inv y" by simp
  then have "broker_inv (store (srv y))" by (simp add: sys_inv_def)
  note t = SweepExpired_env [OF this sys_sweep.hyps(2)]
  show ?case by (rule sys_inv_store [where b = b]) (use inv t in auto)
next
  case (sys_check y notified b)
  then have inv: "sys_inv y" by simp
  then have "broker_inv (store (srv y))" by (simp add: sys_inv_def)
  note t = sweeper_check_env [OF this sys_check.hyps(2)]
  show ?case by (rule sys_inv_store [where b = b]) (use inv t in auto)
qed (simp_all del: One_nat_def add: sys_inv_notify sys_inv_close sys_inv_quiet BeginDrain_def Shutdown_def)

section \<open>Properties of the service\<close>

lemma service_inv:
  assumes "NewBroker tn c = Some b0" "sys_reach b0 dc y"
  shows "sys_inv y"
proof -
  have "leases b0 = []" using assms(1) by (auto simp: NewBroker_def newDeque_def newDLQRing_def Let_def split: if_splits)
  then have "sys_inv \<lparr>srv = NewMQServer b0 dc, streams = [], pending = 0\<rparr>"
    using NewBroker_cases(2) [OF assms(1)] by (simp add: sys_inv_def NewMQServer_def SetNotify_def leases_of_def)
  with assms(2) show ?thesis by (rule sys_from_inv)
qed

lemma stream_inv_sem:
  "stream_inv st s \<Longrightarrow> broker_store.window (credit st) (sem st) (cid st) (store s)"
  by (auto simp: stream_inv_def broker_store.window_def tokens_def)

text \<open>C19. Credit window: in every reachable state of the service, with any number of streams,
  producers, sweeps and disconnects interleaved, a consumer never holds more unacknowledged messages
  than its credit, tokens included, and its credit is positive and bounded by the larger of the
  broker capacity and 1000 whatever the client asked for. A stream that has exited holds no lease.\<close>

theorem credit_window:
  assumes "NewBroker tn c = Some b0" "sys_reach b0 dc y" "st \<in> set (streams y)"
  shows "leases_of (cid st) (store (srv y)) + sem st \<le> credit st \<and> 0 < credit st \<and>
    int (credit st) \<le> max (Capacity (cfg (store (srv y)))) 1000 \<and>
    (pc st = Exited \<longrightarrow> leases_of (cid st) (store (srv y)) = 0)"
proof -
  have inv: "stream_inv st (srv y)" "credit_ok st (srv y)"
    using service_inv [OF assms(1,2)] assms(3) by (simp_all add: sys_inv_def)
  from stream_inv_sem [OF inv(1)] inv show ?thesis
    by (simp add: broker_store.window_def credit_ok_def stream_inv_def)
qed

definition demo_sys :: Sys where
  "demo_sys = (let (st, s) = open_stream 3 (NewMQServer demo_start 0) in \<lparr>srv = s, streams = [st], pending = 0\<rparr>)"

lemma demo_sys_reach: "sys_reach demo_start 0 demo_sys"
proof -
  let ?y = "\<lparr>srv = NewMQServer demo_start 0, streams = [], pending = 0\<rparr>"
  obtain st s where o: "open_stream 3 (srv ?y) = (st, s)" by (cases "open_stream 3 (srv ?y)")
  have "consumerSeq (srv ?y) + 1 \<noteq> 0" by (simp add: NewMQServer_def)
  from sys_open [OF sys_init this o] o show ?thesis by (simp add: demo_sys_def)
qed

lemma demo_new: "NewBroker demo_clock demo_cfg = Some demo_start"
  by (rule demo_start_new)

theorem credit_window_witness:
  "\<exists>st \<in> set (streams demo_sys). credit st = 3 \<and> leases_of (cid st) (store (srv demo_sys)) + sem st \<le> 3"
proof -
  have "map credit (streams demo_sys) = [3]" by code_simp
  then obtain st where "st \<in> set (streams demo_sys)" "credit st = 3" by auto
  with credit_window [OF demo_new demo_sys_reach] show ?thesis by metis
qed

text \<open>Tokens never deadlock the send loop: whenever a stream applies an acknowledgement or gives
  back the token of an empty poll, the semaphore channel has room, so putting the token back cannot
  block.\<close>

theorem token_put_never_blocks:
  assumes "NewBroker tn c = Some b0" "sys_reach b0 dc y" "st \<in> set (streams y)"
  shows "(ackCh st = i # js \<and> (pc st = DrainAcks \<or> pc st = AcquireToken \<or> pc st = Waiting g) \<longrightarrow>
      (\<exists>st' s'. ack_step i (st\<lparr>ackCh := js\<rparr>) (srv y) = Some (st', s'))) \<and>
    (pc st = Captured g \<longrightarrow> put_token st \<noteq> None)"
proof -
  have inv: "broker_inv (store (srv y))" "stream_inv st (srv y)"
    using service_inv [OF assms(1,2)] assms(3) by (auto simp: sys_inv_def)
  note w = stream_inv_sem [OF inv(2)]
  have "put_token st \<noteq> None" if "pc st = Captured g"
    using inv(2) that by (auto simp: stream_inv_def broker_store.window_def tokens_def put_token_def)
  moreover have "\<exists>st' s'. ack_step i (st\<lparr>ackCh := js\<rparr>) (srv y) = Some (st', s')"
    using ack_step_ok [OF inv(1), of "st\<lparr>ackCh := js\<rparr>" i "cid st"] w by auto
  ultimately show ?thesis by blast
qed

definition demo_stream :: "nat \<Rightarrow> stream_pc \<Rightarrow> Stream" where
  "demo_stream k p = \<lparr>cid = 1, credit = 3, sem = k, ackCh = [], recvDone = False,
     recvFinal = RetNil, pc = p, ret = RetNil\<rparr>"

definition demo_at :: "nat \<Rightarrow> stream_pc \<Rightarrow> Sys" where
  "demo_at k p = demo_sys\<lparr>streams := [demo_stream k p]\<rparr>"

lemma demo_sys_streams: "streams demo_sys = [demo_stream 3 DrainAcks]"
  by code_simp

lemma demo_step:
  assumes "sys_reach demo_start 0 (demo_at k p)" "stream_step (demo_stream k p, srv demo_sys) (demo_stream k' p', srv demo_sys)"
  shows "sys_reach demo_start 0 (demo_at k' p')"
proof -
  have "sys_reach demo_start 0 ((demo_at k p)\<lparr>srv := srv demo_sys, streams := (streams (demo_at k p))[0 := demo_stream k' p']\<rparr>)"
    by (rule sys_stream [OF assms(1)]) (use assms(2) in \<open>simp_all add: demo_at_def\<close>)
  then show ?thesis by (simp add: demo_at_def)
qed

lemma demo_captured: "sys_reach demo_start 0 (demo_at 2 (Captured 0))"
proof -
  have "demo_at 3 DrainAcks = demo_sys" using demo_sys_streams by (simp add: demo_at_def)
  then have "sys_reach demo_start 0 (demo_at 3 DrainAcks)" using demo_sys_reach by simp
  moreover have "stream_step (demo_stream 3 DrainAcks, s) (demo_stream 3 AcquireToken, s)" for s
    using drain_done [of "demo_stream 3 DrainAcks" s] by (simp add: demo_stream_def)
  moreover have "stream_step (demo_stream 3 AcquireToken, s) (demo_stream 2 HaveToken, s)" for s
    using take_token [of "demo_stream 3 AcquireToken" s] by (simp add: demo_stream_def)
  moreover have "stream_step (demo_stream 2 HaveToken, srv demo_sys) (demo_stream 2 (Captured 0), srv demo_sys)"
    using capture [of "demo_stream 2 HaveToken" "srv demo_sys"]
    by (simp add: demo_stream_def demo_sys_def open_stream_def NewMQServer_def Let_def)
  ultimately show ?thesis by (metis demo_step)
qed

theorem token_put_never_blocks_witness:
  "pc (demo_stream 2 (Captured 0)) = Captured 0 \<and> put_token (demo_stream 2 (Captured 0)) \<noteq> None"
  using token_put_never_blocks [OF demo_new demo_captured, of "demo_stream 2 (Captured 0)" 0 "[]" 0]
  by (simp add: demo_at_def demo_stream_def)

text \<open>C21. No missed wake-up for consumers: when a stream is parked on a notify channel and there is
  work in the main lane, that channel has already been closed, or a producer, replay or sweep that
  made work available is still about to broadcast. Capturing the channel before polling the store is
  what makes this hold.\<close>

theorem no_missed_wakeup:
  assumes "NewBroker tn c = Some b0" "sys_reach b0 dc y" "st \<in> set (streams y)"
    "pc st = Waiting g" "0 < stDepth (Inspect (store (srv y)))"
  shows "g < notifyCh (srv y) \<or> 0 < pending y"
proof -
  have "parked_ok st (srv y) (0 < pending y)"
    using service_inv [OF assms(1,2)] assms(3) by (simp add: sys_inv_def)
  with assms(4,5) show ?thesis
    by (auto simp: parked_ok_def main_empty_def Inspect_def le_less)
qed

definition demo_parked :: Sys where
  "demo_parked = \<lparr>srv = (srv demo_sys)\<lparr>store := snd (the (Lease 1 (store (srv demo_sys))))\<rparr>,
     streams = [demo_stream 3 (Waiting 0)], pending = 0\<rparr>"

lemma demo_parked_reach: "sys_reach demo_start 0 demo_parked"
proof -
  have "map_option fst (Lease 1 (store (srv demo_sys))) = Some None" by code_simp
  then obtain b where b: "Lease 1 (store (srv demo_sys)) = Some (None, b)" by auto
  have "put_token (demo_stream 2 (Captured 0)) = Some (demo_stream 3 (Captured 0))"
    by (simp add: put_token_def demo_stream_def)
  from lease_idle [OF _ _ this, of 0 "srv demo_sys" b] b
  have "stream_step (demo_stream 2 (Captured 0), srv demo_sys) (demo_stream 3 (Waiting 0), (srv demo_sys)\<lparr>store := b\<rparr>)"
    by (simp add: demo_stream_def)
  then have "sys_reach demo_start 0 ((demo_at 2 (Captured 0))\<lparr>srv := (srv demo_sys)\<lparr>store := b\<rparr>,
      streams := (streams (demo_at 2 (Captured 0)))[0 := demo_stream 3 (Waiting 0)]\<rparr>)"
    by (intro sys_stream [OF demo_captured]) (simp_all add: demo_at_def)
  moreover have "demo_sys\<lparr>srv := s, streams := ss\<rparr> = \<lparr>srv = s, streams = ss, pending = 0\<rparr>" for s ss
    by (simp add: demo_sys_def split_beta)
  ultimately show ?thesis using b by (simp add: demo_at_def demo_parked_def)
qed

theorem no_missed_wakeup_witness:
  "\<exists>y. sys_reach demo_start 0 y \<and> streams y = [demo_stream 3 (Waiting 0)] \<and>
     0 < stDepth (Inspect (store (srv y))) \<and> (0 < notifyCh (srv y) \<or> 0 < pending y)"
proof -
  let ?b = "store (srv demo_parked)"
  have "map_option (\<lambda>(r, b). (case r of Admitted _ \<Rightarrow> stDepth (Inspect b) | _ \<Rightarrow> 0)) (Enqueue_pass (demo_msg ''0'') ?b) = Some 1"
    by code_simp
  then obtain r b where rb: "Enqueue_pass (demo_msg ''0'') ?b = Some (r, b)"
    "(case r of Admitted _ \<Rightarrow> stDepth (Inspect b) | _ \<Rightarrow> 0) = 1" by auto
  then obtain m where b: "Enqueue_pass (demo_msg ''0'') ?b = Some (Admitted m, b)" "stDepth (Inspect b) = 1"
    by (cases r) auto
  let ?y = "demo_parked\<lparr>srv := (srv demo_parked)\<lparr>store := b, produced := produced (srv demo_parked) + 1\<rparr>,
      pending := Suc (pending demo_parked)\<rparr>"
  have y: "sys_reach demo_start 0 ?y" by (rule sys_produce [OF demo_parked_reach b(1)]) simp
  have st: "streams ?y = [demo_stream 3 (Waiting 0)]" by (simp add: demo_parked_def)
  have "0 < stDepth (Inspect (store (srv ?y)))" using b(2) by simp
  moreover from no_missed_wakeup [OF demo_new y, of "demo_stream 3 (Waiting 0)" 0] st b(2)
  have "0 < notifyCh (srv ?y) \<or> 0 < pending ?y" by (simp add: demo_stream_def)
  ultimately show ?thesis using y st by blast
qed

section \<open>Leaving\<close>

text \<open>The leases a buffered acknowledgement of a stream still confirms.\<close>

definition confirmed :: "uint64 \<Rightarrow> uint64 list \<Rightarrow> Broker \<Rightarrow> uint64 set" where
  "confirmed c ids b = {i \<in> set ids. \<exists>rec. map_of (leases b) i = Some rec \<and> consumer rec = c}"

lemma finite_confirmed [simp]: "finite (confirmed c ids b)"
  by (simp add: confirmed_def)

lemma Ack_confirms:
  assumes "broker_inv b"
  shows "confirmed c (i # js) b = (if fst (Ack i c b) then insert i (confirmed c js (snd (Ack i c b))) else confirmed c js b)"
    "fst (Ack i c b) \<Longrightarrow> i \<notin> confirmed c js (snd (Ack i c b))"
  by (auto simp: confirmed_def Ack_ok(1) [OF assms] delete_conv' split: option.splits if_splits)

text \<open>What the cleanup of a stream does to the server.\<close>

definition cleaned_up :: "uint64 \<Rightarrow> uint64 set \<Rightarrow> MQServer \<Rightarrow> MQServer \<Rightarrow> bool" where
  "cleaned_up c A s s' \<longleftrightarrow> broker_inv (store s') \<and> leases_of c (store s') = 0 \<and> activeC s' = activeC s - 1 \<and>
     consumed s' = consumed s + int (card A) \<and>
     redelivered s' + int (card A) = redelivered s + int (leases_of c (store s)) \<and>
     (\<exists>ev. all_ids (store s) = all_ids (store s') + mset_set A + ev \<and>
        int (size ev) = dlqEvicted (store s') - dlqEvicted (store s))"

lemma release_all_cleaned:
  assumes "broker_inv (store s)"
  shows "\<exists>s'. release_all st s = Some s' \<and> cleaned_up (cid st) {} s s'"
proof -
  from ReleaseConsumer_ok [OF assms, of "cid st"] obtain b' where
    b': "ReleaseConsumer (cid st) (store s) = Some (leases_of (cid st) (store s), b')"
    "lane_move (store s) b'" by (auto simp: leases_of_def)
  then obtain s' where s': "release_all st s = Some s'" "store s' = b'" "activeC s' = activeC s - 1" "consumed s' = consumed s"
    "redelivered s' = redelivered s + int (leases_of (cid st) (store s))"
    by (auto simp: release_all_def NotifyAll_def Let_def)
  with release_all_ok [OF assms s'(1)] b'(2) show ?thesis
    by (auto simp: cleaned_up_def lane_move_def conserves_def)
qed

lemma ack_then_cleaned:
  assumes "broker_inv (store s)" "cleaned_up (cid st) (confirmed (cid st) js (store (snd (apply_ack i st s)))) (snd (apply_ack i st s)) s'"
  shows "cleaned_up (cid st) (confirmed (cid st) (i # js) (store s)) s s'"
proof -
  let ?c = "cid st" and ?s = "snd (apply_ack i st s)"
  obtain ok b where a: "Ack i ?c (store s) = (ok, b)" by (cases "Ack i ?c (store s)")
  have s: "store ?s = b" "activeC ?s = activeC s" "redelivered ?s = redelivered s" "consumed ?s = consumed s + (if ok then 1 else 0)"
    by (simp_all add: apply_ack_def a)
  note held = broker_store.ack_held [OF assms(1), of ?c i ?c, unfolded a]
  note conf = Ack_confirms [OF assms(1), where c = ?c and i = i and js = js, unfolded a]
  note ids = Ack_ok(4,5) [OF assms(1), of i ?c, unfolded a]
  show ?thesis
  proof (cases ok)
    case False
    with assms(2) s conf ids show ?thesis by (simp add: cleaned_up_def)
  next
    case True
    let ?A = "confirmed ?c js b"
    from assms(2) s True obtain ev where ev: "all_ids b = all_ids (store s') + mset_set ?A + ev"
      "int (size ev) = dlqEvicted (store s') - dlqEvicted b" by (auto simp: cleaned_up_def)
    have "dlqEvicted b = dlqEvicted (store s)"
      using a by (auto simp: Ack_def signalSpace_def split: option.splits if_splits)
    moreover have "all_ids (store s) = all_ids (store s') + mset_set (insert i ?A) + ev"
      using ids(1) ev(1) True conf(2) by simp
    ultimately show ?thesis using assms(2) s conf True held ev(2) by (auto simp: cleaned_up_def)
  qed
qed

text \<open>Every run from \<open>x\<close> can only go on to \<open>z\<close>, where it ends.\<close>

definition ends_in :: "Stream \<times> MQServer \<Rightarrow> Stream \<times> MQServer \<Rightarrow> bool" where
  "ends_in x z \<longleftrightarrow> stream_step\<^sup>*\<^sup>* x z \<and> (\<forall>y. stream_step\<^sup>*\<^sup>* x y \<longrightarrow> stream_step\<^sup>*\<^sup>* y z) \<and> (\<nexists>y. stream_step z y)"

lemma ends_in_step:
  assumes "stream_step x x'" "\<And>y. stream_step x y \<Longrightarrow> y = x'" "ends_in x' z"
  shows "ends_in x z"
proof -
  have xz: "stream_step\<^sup>*\<^sup>* x z"
    using assms(1,3) by (auto simp: ends_in_def intro: converse_rtranclp_into_rtranclp)
  have "stream_step\<^sup>*\<^sup>* y z" if "stream_step\<^sup>*\<^sup>* x y" for y
    using that
  proof (cases rule: converse_rtranclpE)
    case base
    with xz show ?thesis by simp
  next
    case (step x1)
    with assms(2) [OF step(1)] assms(3) show ?thesis unfolding ends_in_def by blast
  qed
  with xz assms(3) show ?thesis by (simp add: ends_in_def)
qed

lemma exited_stuck: "pc st = Exited \<Longrightarrow> recvDone st \<Longrightarrow> \<not> stream_step (st, s) y"
  by (auto elim: stream_step.cases)

lemma exited_ends:
  assumes "pc st = Exited" "recvDone st"
  shows "ends_in (st, s) (st, s)"
proof -
  have "y = (st, s)" if "stream_step\<^sup>*\<^sup>* (st, s) y" for y
    using that exited_stuck [OF assms] by (cases rule: converse_rtranclpE) auto
  then show ?thesis using exited_stuck [OF assms] by (auto simp: ends_in_def)
qed

lemma cleanup_step_unique:
  assumes "stream_step (st, s) y" "pc st = Cleanup" "recvDone st"
  shows "case ackCh st of i # js \<Rightarrow> y = (st\<lparr>ackCh := js\<rparr>, snd (apply_ack i st s))
    | [] \<Rightarrow> \<exists>s'. release_all st s = Some s' \<and> y = (st\<lparr>pc := Exited\<rparr>, s')"
  using assms by (cases rule: stream_step.cases) auto

text \<open>C22. Clean exit: once the receiving goroutine of a stream has exited (its \<open>Recv\<close> failed, ended, or the context is
  done) and the handler is in its deferred cleanup, every run of the stream ends, in one final state. There
  every buffered acknowledgement of a lease the stream still held has been applied, each counted as consumed
  once, and its message is gone from the broker: it is not redelivered. Every other lease of the consumer has
  been released for redelivery and counted, nothing of it stays in flight, and no message is lost but what the
  bounded dead-letter ring evicted.\<close>

theorem cleanup_releases_everything:
  assumes "broker_inv (store s)" "pc st = Cleanup" "recvDone st"
    "A = {i \<in> set (ackCh st). \<exists>rec. map_of (leases (store s)) i = Some rec \<and> consumer rec = cid st}"
  shows "\<exists>st' s'. stream_step\<^sup>*\<^sup>* (st, s) (st', s') \<and>
    (\<forall>y. stream_step\<^sup>*\<^sup>* (st, s) y \<longrightarrow> stream_step\<^sup>*\<^sup>* y (st', s')) \<and> (\<nexists>y. stream_step (st', s') y) \<and>
    pc st' = Exited \<and> ackCh st' = [] \<and> broker_inv (store s') \<and> leases_of (cid st) (store s') = 0 \<and>
    activeC s' = activeC s - 1 \<and> consumed s' = consumed s + int (card A) \<and>
    redelivered s' + int (card A) = redelivered s + int (leases_of (cid st) (store s)) \<and>
    (\<exists>ev. all_ids (store s) = all_ids (store s') + mset_set A + ev \<and>
       int (size ev) = dlqEvicted (store s') - dlqEvicted (store s))"
proof -
  have "\<exists>st' s'. ends_in (st, s) (st', s') \<and> pc st' = Exited \<and> ackCh st' = [] \<and>
      cleaned_up (cid st) (confirmed (cid st) (ackCh st) (store s)) s s'"
    using assms(1-3)
  proof (induction "ackCh st" arbitrary: st s)
    case Nil
    from release_all_cleaned [OF Nil.prems(1)] obtain s' where
      s': "release_all st s = Some s'" "cleaned_up (cid st) {} s s'" by blast
    have step: "stream_step (st, s) (st\<lparr>pc := Exited\<rparr>, s')"
      by (rule cleanup_release [OF Nil.prems(2,3) _ s'(1)]) (simp add: Nil.hyps)
    have "ends_in (st, s) (st\<lparr>pc := Exited\<rparr>, s')"
      by (rule ends_in_step [OF step _ exited_ends])
        (use cleanup_step_unique [OF _ Nil.prems(2,3)] Nil s'(1) in \<open>auto simp flip: Nil.hyps\<close>)
    moreover have "ackCh (st\<lparr>pc := Exited\<rparr>) = []" "confirmed (cid st) (ackCh st) (store s) = {}"
      using Nil.hyps by (simp_all add: confirmed_def flip: Nil.hyps)
    ultimately show ?case using s'(2)
      by (intro exI [of _ "st\<lparr>pc := Exited\<rparr>"] exI [of _ s']) simp
  next
    case (Cons i js)
    let ?st = "st\<lparr>ackCh := js\<rparr>" and ?s = "snd (apply_ack i st s)"
    have step: "stream_step (st, s) (?st, ?s)"
      by (rule cleanup_ack [OF Cons.prems(2,3)]) (simp flip: Cons.hyps(2))
    have unique: "y = (?st, ?s)" if "stream_step (st, s) y" for y
      using cleanup_step_unique [OF that Cons.prems(2,3)] by (simp flip: Cons.hyps(2))
    have "broker_inv (store ?s)" using apply_ack_ok(1) [OF Cons.prems(1)] by (simp add: server_step_def)
    with Cons.hyps(1) [of ?st ?s] Cons.prems(2,3) obtain st' s' where
      *: "ends_in (?st, ?s) (st', s')" "pc st' = Exited" "ackCh st' = []"
        "cleaned_up (cid st) (confirmed (cid st) js (store ?s)) ?s s'" by auto
    from ends_in_step [OF step unique *(1)] *(2,3) ack_then_cleaned [OF Cons.prems(1) *(4)] show ?case
      by (auto simp flip: Cons.hyps(2))
  qed
  then obtain st' s' where e: "ends_in (st, s) (st', s')" "pc st' = Exited" "ackCh st' = []"
    "cleaned_up (cid st) A s s'" by (auto simp: assms(4) confirmed_def)
  from e(1,4) show ?thesis unfolding ends_in_def cleaned_up_def
    by (intro exI [of _ st'] exI [of _ s'] conjI) (use e in auto)
qed

text \<open>A consumer leaves with two leases, of which it has confirmed one.\<close>

definition demo_leaving :: Stream where
  "demo_leaving = (demo_stream 2 Cleanup)\<lparr>cid := 8, ackCh := [2, 9], recvDone := True\<rparr>"

theorem cleanup_releases_everything_witness:
  "\<exists>st' s'. stream_step\<^sup>*\<^sup>* (demo_leaving, NewMQServer (snd demo_leased) 0) (st', s') \<and>
     pc st' = Exited \<and> leases_of 8 (store s') = 0 \<and> consumed s' = 1 \<and> 2 \<notin># all_ids (store s')"
proof -
  let ?s = "NewMQServer (snd demo_leased) 0"
  let ?A = "{i \<in> set (ackCh demo_leaving). \<exists>rec. map_of (leases (store ?s)) i = Some rec \<and> consumer rec = cid demo_leaving}"
  have inv: "broker_inv (store ?s)"
    using run_inv [OF demo_leased_run] by (simp add: NewMQServer_def SetNotify_def)
  have st: "pc demo_leaving = Cleanup" "recvDone demo_leaving" "cid demo_leaving = 8" by (simp_all add: demo_leaving_def demo_stream_def)
  have f: "map_option consumer (map_of (leases (store ?s)) 2) = Some 8" "map_of (leases (store ?s)) 9 = None"
    "consumed ?s = 0" by code_simp+
  have one: "count (all_ids (store ?s)) 2 \<le> 1" by (simp add: ids_defs NewMQServer_def SetNotify_def) code_simp
  have A: "?A = {2}" using f(1,2) by (auto simp: demo_leaving_def demo_stream_def)
  from cleanup_releases_everything [OF inv st(1,2) refl] obtain st' s' ev where
    r: "stream_step\<^sup>*\<^sup>* (demo_leaving, ?s) (st', s')" "pc st' = Exited" "leases_of (cid demo_leaving) (store s') = 0"
      "consumed s' = consumed ?s + int (card ?A)"
      "all_ids (store ?s) = all_ids (store s') + mset_set ?A + ev"
    by (elim exE conjE) (rule that)
  from arg_cong [OF r(5), of "\<lambda>M. count M 2"] one A have "count (all_ids (store s')) 2 = 0" by simp
  with r(1-4) A f(3) st(3) show ?thesis
    by (intro exI [of _ st'] exI [of _ s']) (simp add: not_in_iff)
qed

end
