(* ===== verification/Stream_Credit.thy ===== *)
theory Stream_Credit
  imports MQ_Stream
begin

text \<open>
  What becomes of the credit of a \<open>Consume\<close> stream (\<open>internal/server/server.go\<close>) over time. The window of a
  stream, its tokens and its leases, only shrinks: a lease that the sweeper revokes takes its token along, and
  the late acknowledgement does not bring it back. A stream that has lost its whole window is therefore
  never served again, however long it stays connected. An executable stepper gives a run in which this happens
  to a client that is merely slow.
\<close>

section \<open>The window only shrinks\<close>

definition window_size :: "Stream \<Rightarrow> MQServer \<Rightarrow> nat" where
  "window_size st s = tokens st + leases_of (cid st) (store s)"

lemma ack_step_window:
  assumes "broker_inv (store s)" "ack_step i st s = Some (st', s')"
  shows "sem st' + leases_of (cid st) (store s') = sem st + leases_of (cid st) (store s)"
    "cid st' = cid st" "pc st' = pc st"
  using assms(2) apply_ack_ok(2,3) [OF assms(1), of i st] Ack_leases_of [OF assms(1), of "cid st" i "cid st"]
  by (auto simp: ack_step_def put_token_def split_beta split: if_splits)

lemma stream_step_window:
  assumes "stream_step (st, s) (st', s')" "broker_inv (store s)"
  shows "cid st' = cid st \<and> window_size st' s' \<le> window_size st s"
  using assms(1)
proof (cases rule: stream_step.cases)
  case (drain_ack i js)
  from ack_step_window [OF assms(2) drain_ack(3)] drain_ack(1) show ?thesis by (simp add: window_size_def tokens_def)
next
  case (wait_ack g i js)
  from ack_step_window [OF assms(2) wait_ack(3)] wait_ack(1) show ?thesis by (auto simp: window_size_def tokens_def)
next
  case (lease_msg g m b)
  from broker_store.lease_one [OF assms(2) lease_msg(4), of "cid st"] lease_msg(1-3) show ?thesis
    by (simp add: window_size_def tokens_def)
next
  case (lease_idle g b st1)
  from broker_store.lease_one [OF assms(2) lease_idle(4), of "cid st"] lease_idle show ?thesis
    by (auto simp: window_size_def tokens_def put_token_def split: if_splits)
next
  case (send_fail m)
  from fail_send_ok(2) [OF assms(2) send_fail(3)] send_fail(1,2) show ?thesis by (simp add: window_size_def tokens_def)
next
  case (cleanup_ack i js)
  have "leases_of (cid st) (store s') \<le> leases_of (cid st) (store s)"
    using broker_store.ack_held_le [OF assms(2)] apply_ack_ok(2) [OF assms(2), of i st] cleanup_ack(2) by simp
  then show ?thesis using cleanup_ack by (simp add: window_size_def tokens_def)
next
  case cleanup_release
  from release_all_ok(2) [OF assms(2) cleanup_release(5)] cleanup_release(1,2) show ?thesis
    by (simp add: window_size_def tokens_def)
qed (auto simp: window_size_def tokens_def)

text \<open>The stream at position \<open>i\<close> of a later state is the one that was there before, with no larger window.\<close>

definition shrunk :: "nat \<Rightarrow> Sys \<Rightarrow> Sys \<Rightarrow> bool" where
  "shrunk i y0 y \<longleftrightarrow> i < length (streams y) \<and> cid (streams y ! i) = cid (streams y0 ! i) \<and>
     window_size (streams y ! i) (srv y) \<le> window_size (streams y0 ! i) (srv y0)"

lemma shrunk_env:
  assumes "shrunk i y0 y" "streams y' = streams y @ sts" "\<And>c. leases_of c (store (srv y')) \<le> leases_of c (store (srv y))"
  shows "shrunk i y0 y'"
  using assms(1) assms(3) [of "cid (streams y ! i)"] by (auto simp: shrunk_def window_size_def assms(2) nth_append)

lemma shrunk_quiet:
  "shrunk i y0 y \<Longrightarrow> streams y' = streams y \<Longrightarrow> store (srv y') = store (srv y) \<Longrightarrow> shrunk i y0 y'"
  by (auto simp: shrunk_def window_size_def)

lemma shrunk_stream:
  assumes "shrunk i y0 y" "sys_inv y" "j < length (streams y)" "stream_step (streams y ! j, srv y) (st', s')"
  shows "shrunk i y0 (y\<lparr>srv := s', streams := (streams y)[j := st']\<rparr>)"
proof (cases "j = i")
  case True
  have "broker_inv (store (srv y))" using assms(2) by (simp add: sys_inv_def)
  from stream_step_window [OF assms(4) this] assms(1) True show ?thesis by (auto simp: shrunk_def)
next
  case False
  have st: "streams y ! j \<in> set (streams y)" "i < length (streams y)" using assms(1,3) by (simp_all add: shrunk_def)
  have inv: "broker_inv (store (srv y))" "stream_inv (streams y ! j) (srv y)" "parked_ok (streams y ! j) (srv y) (0 < pending y)"
    using assms(2) st(1) by (simp_all add: sys_inv_def)
  have "cid (streams y ! i) \<noteq> cid (streams y ! j)"
    using assms(2,3) st(2) False by (auto simp: sys_inv_def distinct_conv_nth)
  with stream_step_ok [OF assms(4) inv]
  have "leases_of (cid (streams y ! i)) (store s') \<le> leases_of (cid (streams y ! i)) (store (srv y))"
    by (simp add: server_step_def)
  with assms(1) False show ?thesis by (auto simp: shrunk_def window_size_def)
qed

lemma sys_from_shrinks:
  assumes "sys_from y0 y" "sys_inv y0" "i < length (streams y0)"
  shows "shrunk i y0 y"
  using assms
proof (induction rule: sys_from.induct)
  case sys_init
  then show ?case by (simp add: shrunk_def)
next
  case (sys_open y requested st s')
  then have "store s' = store (srv y)" by (auto simp: open_stream_def Let_def)
  then show ?case by (intro shrunk_env [OF sys_open.IH [OF sys_open.prems], of _ "[st]"]) simp_all
next
  case (sys_stream y j st' s')
  show ?case
    by (rule shrunk_stream [OF sys_stream.IH [OF sys_stream.prems] sys_from_inv [OF sys_stream.hyps(1) sys_stream.prems(1)] sys_stream.hyps(2,3)])
next
  case (sys_produce y m m' b p)
  have "broker_inv (store (srv y))" using sys_from_inv [OF sys_produce.hyps(1) sys_produce.prems(1)] by (simp add: sys_inv_def)
  from Enqueue_pass_leases [OF this sys_produce.hyps(2)] show ?case
    by (intro shrunk_env [OF sys_produce.IH [OF sys_produce.prems], of _ "[]"]) (simp_all add: leases_of_def)
next
  case (sys_refused y m r b)
  have "broker_inv (store (srv y))" using sys_from_inv [OF sys_refused.hyps(1) sys_refused.prems(1)] by (simp add: sys_inv_def)
  from Enqueue_pass_leases [OF this sys_refused.hyps(2)] show ?case
    by (intro shrunk_env [OF sys_refused.IH [OF sys_refused.prems], of _ "[]"]) (simp_all add: leases_of_def)
next
  case (sys_replay y n b)
  have "sys_inv y" using sys_from_inv [OF sys_replay.hyps(1) sys_replay.prems(1)] .
  from sys_inv_replay [OF this sys_replay.hyps(2)] show ?case
    by (intro shrunk_env [OF sys_replay.IH [OF sys_replay.prems], of _ "[]"]) (simp_all add: leases_of_def)
next
  case (sys_timeout y m r b)
  have "broker_inv (store (srv y))" using sys_from_inv [OF sys_timeout.hyps(1) sys_timeout.prems(1)] by (simp add: sys_inv_def)
  from timeout_env [OF this sys_timeout.hyps(2)] show ?case
    by (intro shrunk_env [OF sys_timeout.IH [OF sys_timeout.prems], of _ "[]"]) simp_all
next
  case (sys_sweep y n notified b)
  have "broker_inv (store (srv y))" using sys_from_inv [OF sys_sweep.hyps(1) sys_sweep.prems(1)] by (simp add: sys_inv_def)
  from SweepExpired_env [OF this sys_sweep.hyps(2)] show ?case
    by (intro shrunk_env [OF sys_sweep.IH [OF sys_sweep.prems], of _ "[]"]) simp_all
next
  case (sys_check y notified b)
  have "broker_inv (store (srv y))" using sys_from_inv [OF sys_check.hyps(1) sys_check.prems(1)] by (simp add: sys_inv_def)
  from sweeper_check_env [OF this sys_check.hyps(2)] show ?case
    by (intro shrunk_env [OF sys_check.IH [OF sys_check.prems], of _ "[]"]) simp_all
next
  case (sys_close y)
  show ?case
    by (intro shrunk_env [OF sys_close.IH [OF sys_close.prems], of _ "[]"]) (simp_all add: leases_of_def Close_def signalSpace_def)
next
  case (sys_open_failed y)
  show ?case by (rule shrunk_quiet [OF sys_open_failed.IH [OF sys_open_failed.prems]]) (simp_all add: NotifyAll_def BeginDrain_def Shutdown_def)
next
  case (sys_notify y)
  show ?case by (rule shrunk_quiet [OF sys_notify.IH [OF sys_notify.prems]]) (simp_all add: NotifyAll_def BeginDrain_def Shutdown_def)
next
  case (sys_drain y)
  show ?case by (rule shrunk_quiet [OF sys_drain.IH [OF sys_drain.prems]]) (simp_all add: NotifyAll_def BeginDrain_def Shutdown_def)
next
  case (sys_shutdown y)
  show ?case by (rule shrunk_quiet [OF sys_shutdown.IH [OF sys_shutdown.prems]]) (simp_all add: NotifyAll_def BeginDrain_def Shutdown_def)
qed

section \<open>An executable stepper\<close>

datatype stream_move = MvIdle | MvTake | MvCapture | MvLease | MvSent | MvRecvAck uint64 | MvApply

fun move_stream :: "stream_move \<Rightarrow> Stream \<Rightarrow> MQServer \<Rightarrow> (Stream \<times> MQServer) option" where
  "move_stream MvIdle st s =
     (if pc st = DrainAcks \<and> ackCh st = [] \<and> \<not> recvDone st then Some (st\<lparr>pc := AcquireToken\<rparr>, s) else None)"
| "move_stream MvTake st s =
     (if pc st = AcquireToken \<and> 0 < sem st then Some (st\<lparr>sem := sem st - 1, pc := HaveToken\<rparr>, s) else None)"
| "move_stream MvCapture st s = (if pc st = HaveToken then Some (st\<lparr>pc := Captured (notifyCh s)\<rparr>, s) else None)"
| "move_stream MvLease st s =
     (case pc st of
        Captured g \<Rightarrow>
          (case Lease (cid st) (store s) of
             Some (Some m, b) \<Rightarrow> Some (st\<lparr>pc := Sending m\<rparr>, s\<lparr>store := b\<rparr>)
           | _ \<Rightarrow> None)
      | _ \<Rightarrow> None)"
| "move_stream MvSent st s =
     (case pc st of Sending m \<Rightarrow> Some (st\<lparr>pc := DrainAcks\<rparr>, s\<lparr>delivered := delivered s + 1\<rparr>) | _ \<Rightarrow> None)"
| "move_stream (MvRecvAck i) st s =
     (if \<not> recvDone st \<and> i \<noteq> 0 \<and> length (ackCh st) < credit st then Some (st\<lparr>ackCh := ackCh st @ [i]\<rparr>, s) else None)"
| "move_stream MvApply st s =
     (case ackCh st of
        i # js \<Rightarrow> if pc st = DrainAcks then ack_step i (st\<lparr>ackCh := js\<rparr>) s else None
      | [] \<Rightarrow> None)"

lemma move_stream_step: "move_stream mv st s = Some (st', s') \<Longrightarrow> stream_step (st, s) (st', s')"
  by (cases mv) (auto simp del: One_nat_def split: if_splits stream_pc.splits option.splits list.splits intro: stream_step.intros)

datatype sys_event = SysOpen int | SysProduce TelemetryMessage | SysSweep | SysNotify | SysMove nat stream_move

fun sys_exec :: "sys_event \<Rightarrow> Sys \<Rightarrow> Sys option" where
  "sys_exec (SysOpen requested) y =
     (if consumerSeq (srv y) + 1 = 0 then None
      else (case open_stream requested (srv y) of (st, s') \<Rightarrow> Some (y\<lparr>srv := s', streams := streams y @ [st]\<rparr>)))"
| "sys_exec (SysProduce m) y =
     (case Enqueue_pass m (store (srv y)) of
        Some (Admitted m', b) \<Rightarrow>
          Some (y\<lparr>srv := (srv y)\<lparr>store := b, produced := produced (srv y) + 1\<rparr>, pending := Suc (pending y)\<rparr>)
      | _ \<Rightarrow> None)"
| "sys_exec SysSweep y =
     (case SweepExpired (store (srv y)) of
        Some (n, notified, b) \<Rightarrow> Some (y\<lparr>srv := (srv y)\<lparr>store := b\<rparr>, pending := pending y + (if notified then 1 else 0)\<rparr>)
      | None \<Rightarrow> None)"
| "sys_exec SysNotify y =
     (if 0 < pending y then Some (y\<lparr>srv := NotifyAll (srv y), pending := pending y - 1\<rparr>) else None)"
| "sys_exec (SysMove i mv) y =
     (if i < length (streams y) then
        (case move_stream mv (streams y ! i) (srv y) of
           Some (st', s') \<Rightarrow> Some (y\<lparr>srv := s', streams := (streams y)[i := st']\<rparr>)
         | None \<Rightarrow> None)
      else None)"

fun sys_execs :: "sys_event list \<Rightarrow> Sys \<Rightarrow> Sys option" where
  "sys_execs [] y = Some y"
| "sys_execs (ev # evs) y = (case sys_exec ev y of Some y \<Rightarrow> sys_execs evs y | None \<Rightarrow> None)"

lemma sys_exec_from: "sys_exec ev y = Some y' \<Longrightarrow> sys_from y0 y \<Longrightarrow> sys_from y0 y'"
proof (cases ev)
  case (SysOpen requested)
  assume "sys_exec ev y = Some y'" "sys_from y0 y"
  with SysOpen show ?thesis by (auto split: if_splits prod.splits intro: sys_open)
next
  case (SysProduce m)
  assume "sys_exec ev y = Some y'" "sys_from y0 y"
  with SysProduce show ?thesis by (auto split: option.splits enq_pass.splits intro!: sys_produce)
next
  case (SysMove i mv)
  assume "sys_exec ev y = Some y'" "sys_from y0 y"
  with SysMove show ?thesis by (auto split: if_splits option.splits intro!: sys_stream move_stream_step)
qed (auto simp del: One_nat_def split: if_splits option.splits intro: sys_sweep sys_notify)

lemma sys_execs_from: "sys_execs evs y = Some y' \<Longrightarrow> sys_from y0 y \<Longrightarrow> sys_from y0 y'"
  by (induction evs arbitrary: y) (auto split: option.splits dest: sys_exec_from)

section \<open>A slow client\<close>

text \<open>C20. Revoked credit is final: from any reachable state on, in every interleaving of streams, producers,
  operators and sweeper, the window of a stream (its tokens, the one in its hand, and its leases) never grows.
  Once the sweeper has revoked all of it, the stream stays at the semaphore: it never polls the store
  again, holds no lease and no token, in every later state, whatever the client acknowledges and however much work is
  queued.\<close>

theorem revoked_credit_is_final:
  assumes "NewBroker tn c = Some b0" "sys_reach b0 dc y" "i < length (streams y)" "sys_from y y'"
  shows "cid (streams y' ! i) = cid (streams y ! i) \<and>
    tokens (streams y' ! i) + leases_of (cid (streams y ! i)) (store (srv y')) \<le>
      tokens (streams y ! i) + leases_of (cid (streams y ! i)) (store (srv y)) \<and>
    (tokens (streams y ! i) + leases_of (cid (streams y ! i)) (store (srv y)) = 0 \<longrightarrow>
       sem (streams y' ! i) = 0 \<and> leases_of (cid (streams y ! i)) (store (srv y')) = 0 \<and> (\<forall>g. pc (streams y' ! i) \<noteq> Captured g))"
proof -
  have "sys_inv y" using assms(1,2) by (rule service_inv)
  from sys_from_shrinks [OF assms(4) this assms(3)] show ?thesis
    by (auto simp: shrunk_def window_size_def tokens_def)
qed

text \<open>A client with a credit of one takes a message and acknowledges it only after the lease has expired; the message
  is back in the queue, a second one arrives, and the open stream has nothing left to serve them with.\<close>

definition slow_client :: "sys_event list" where
  "slow_client =
     [SysOpen 1, SysProduce (demo_msg ''0''), SysNotify, SysMove 0 MvIdle, SysMove 0 MvTake, SysMove 0 MvCapture,
      SysMove 0 MvLease, SysMove 0 MvSent] @ replicate 12 SysSweep @
     [SysMove 0 (MvRecvAck 1), SysMove 0 MvApply, SysMove 0 MvIdle, SysProduce (demo_msg ''1'')]"

definition slow_start :: Sys where
  "slow_start = \<lparr>srv = NewMQServer demo_start 0, streams = [], pending = 0\<rparr>"

definition slow_sys :: Sys where
  "slow_sys = the (sys_execs slow_client slow_start)"

lemma slow_sys_facts:
  "sys_execs slow_client slow_start \<noteq> None" "length (streams slow_sys) = 1" "pc (streams slow_sys ! 0) = AcquireToken"
  "recvDone (streams slow_sys ! 0) = False"
  "tokens (streams slow_sys ! 0) + leases_of (cid (streams slow_sys ! 0)) (store (srv slow_sys)) = 0"
  "stDepth (Inspect (store (srv slow_sys))) = 1" "stRetryDepth (Inspect (store (srv slow_sys))) = 1" "0 < pending slow_sys"
  by code_simp+

theorem revoked_credit_is_final_witness:
  "stDepth (Inspect (store (srv slow_sys))) = 1 \<and>
   (\<exists>y'. sys_from slow_sys y' \<and> notifyCh (srv slow_sys) < notifyCh (srv y') \<and> sem (streams y' ! 0) = 0 \<and>
      leases_of (cid (streams slow_sys ! 0)) (store (srv y')) = 0 \<and> (\<forall>g. pc (streams y' ! 0) \<noteq> Captured g))"
proof -
  have "sys_from slow_start slow_sys"
    using sys_execs_from [OF _ sys_init] slow_sys_facts(1) unfolding slow_sys_def by (metis option.collapse)
  then have reach: "sys_reach demo_start 0 slow_sys" by (simp add: slow_start_def)
  let ?y = "slow_sys\<lparr>srv := NotifyAll (srv slow_sys), pending := pending slow_sys - 1\<rparr>"
  have "sys_from slow_sys ?y" by (rule sys_notify [OF sys_init slow_sys_facts(8)])
  with revoked_credit_is_final [OF demo_new reach _ this, of 0] slow_sys_facts show ?thesis
    by (intro conjI exI [of _ ?y]) (simp_all add: NotifyAll_def)
qed

end
