(* ===== verification/Env_Config.thy ===== *)
theory Env_Config
  imports MQ_Server Go_Strconv
begin

text \<open>
  Environment-first configuration: \<open>internal/config/config.go\<close> (the MQ service),
  \<open>internal/collector/config.go\<close>, \<open>internal/streamer/config.go\<close>, \<open>internal/gateway/config.go\<close>,
  \<open>pkg/db/config.go\<close>, the log level of \<open>pkg/logger/logger.go\<close>, and the wiring of the configuration
  into the broker in \<open>cmd/mq/main.go\<close>. The server that cannot be built (\<open>make\<close> panics) is \<open>None\<close>. The environment is a function from names to values, an unset
  variable being the empty string (as \<open>os.Getenv\<close> reports it). Configuration errors carry the variable they are about.
\<close>

section \<open>The MQ service\<close>

type_synonym env = "string \<Rightarrow> string"

text \<open>The helper \<open>intEnv\<close>: the value of a variable when it is a positive number, else the default.\<close>

definition intEnv :: "env \<Rightarrow> string \<Rightarrow> int \<Rightarrow> int" where
  "intEnv getenv name dst =
     (let v = getenv name in
      if v \<noteq> '''' then (case Atoi v of Some n \<Rightarrow> if n > 0 then n else dst | None \<Rightarrow> dst)
      else dst)"

definition strEnv :: "env \<Rightarrow> string \<Rightarrow> string \<Rightarrow> string" where
  "strEnv getenv name dst = (let v = getenv name in if v \<noteq> '''' then v else dst)"

record MQConfig =
  GRPCAddr :: string
  HTTPAddr :: string
  BufferSize :: int
  ConsumeCredit :: int
  OverflowPolicyName :: string
  BlockTimeoutMS :: int
  cfgMaxDeliveries :: int
  cfgDLQCapacity :: int
  RetryBackoffBaseMS :: int
  RetryBackoffMaxMS :: int
  LeaseTTLMS :: int
  DrainTimeoutMS :: int

definition mq_FromEnv :: "env \<Rightarrow> MQConfig" where
  "mq_FromEnv getenv = \<lparr>
     GRPCAddr = strEnv getenv ''MQ_GRPC_ADDR'' '':50051'',
     HTTPAddr = strEnv getenv ''MQ_HTTP_ADDR'' '':8080'',
     BufferSize = intEnv getenv ''MQ_BUFFER_SIZE'' 10000,
     ConsumeCredit = intEnv getenv ''MQ_CONSUME_CREDIT'' 20,
     OverflowPolicyName =
       (let v = getenv ''MQ_OVERFLOW_POLICY'' in
        if v \<noteq> '''' then (case ParseOverflowPolicy v of Some p \<Rightarrow> p | None \<Rightarrow> PolicyDropOldest)
        else PolicyDropOldest),
     BlockTimeoutMS = intEnv getenv ''MQ_BLOCK_TIMEOUT_MS'' 1000,
     cfgMaxDeliveries = intEnv getenv ''MQ_MAX_DELIVERIES'' 5,
     cfgDLQCapacity = intEnv getenv ''MQ_DLQ_CAPACITY'' 1000,
     RetryBackoffBaseMS = intEnv getenv ''MQ_RETRY_BACKOFF_BASE_MS'' 500,
     RetryBackoffMaxMS = intEnv getenv ''MQ_RETRY_BACKOFF_MAX_MS'' 30000,
     LeaseTTLMS = intEnv getenv ''MQ_LEASE_TTL_MS'' 30000,
     DrainTimeoutMS = intEnv getenv ''MQ_DRAIN_TIMEOUT_MS'' 20000\<rparr>"

text \<open>\<open>time.Duration(ms) * time.Millisecond\<close> multiplies in \<open>int64\<close>.\<close>

definition millis :: "int \<Rightarrow> duration" where
  "millis ms = wrap64 (ms * Millisecond)"

definition main_brokerConfig :: "MQConfig \<Rightarrow> BrokerConfig" where
  "main_brokerConfig c = \<lparr>
     Capacity = BufferSize c,
     Policy = OverflowPolicyName c,
     BlockTimeout = millis (BlockTimeoutMS c),
     RetryBackoffBase = millis (RetryBackoffBaseMS c),
     RetryBackoffMax = millis (RetryBackoffMaxMS c),
     MaxDeliveries = of_int (cfgMaxDeliveries c),
     DLQCapacity = cfgDLQCapacity c,
     LeaseTTL = millis (LeaseTTLMS c),
     SweepInterval = 0,
     Clock = None\<rparr>"

definition main_server :: "(nat \<Rightarrow> gotime) \<Rightarrow> env \<Rightarrow> MQServer option" where
  "main_server time_Now getenv = do {
     let c = mq_FromEnv getenv;
     b \<leftarrow> NewBroker time_Now (main_brokerConfig c);
     Some (NewMQServer b (ConsumeCredit c))
   }"

section \<open>The other services\<close>

record CollectorConfig =
  ccMQAddr :: string
  ccBatchSize :: int
  ccFlushMS :: int
  ccCredit :: int
  ccHealthAddr :: string

definition collector_FromEnv :: "env \<Rightarrow> CollectorConfig" where
  "collector_FromEnv getenv = \<lparr>
     ccMQAddr = strEnv getenv ''COLLECTOR_MQ_ADDR'' '':50051'',
     ccBatchSize = intEnv getenv ''COLLECTOR_BATCH_SIZE'' 50,
     ccFlushMS = intEnv getenv ''COLLECTOR_FLUSH_MS'' 500,
     ccCredit = intEnv getenv ''COLLECTOR_CREDIT'' 100,
     ccHealthAddr = strEnv getenv ''COLLECTOR_HEALTH_ADDR'' '':9001''\<rparr>"

record StreamerConfig =
  scMQAddr :: string
  scCSVPath :: string
  scLoopDelayMS :: int
  scHealthAddr :: string
  scBatchSize :: int

definition streamer_FromEnv :: "env \<Rightarrow> StreamerConfig" where
  "streamer_FromEnv getenv = \<lparr>
     scMQAddr = strEnv getenv ''STREAMER_MQ_ADDR'' '':50051'',
     scCSVPath = strEnv getenv ''STREAMER_CSV_PATH'' '''',
     scLoopDelayMS =
       (let v = getenv ''STREAMER_LOOP_DELAY_MS'' in
        if v \<noteq> '''' then (case Atoi v of Some n \<Rightarrow> if n \<ge> 0 then n else 1 | None \<Rightarrow> 1)
        else 1),
     scHealthAddr = strEnv getenv ''STREAMER_HEALTH_ADDR'' '':9000'',
     scBatchSize = intEnv getenv ''STREAMER_BATCH_SIZE'' 100\<rparr>"

datatype config_error = MaxRowsNotInteger | MaxRowsNotPositive int | DSNRequired | MaxConnsNotInteger

record GatewayConfig =
  gcAddr :: string
  gcMaxRows :: int

definition gateway_FromEnv :: "env \<Rightarrow> config_error + GatewayConfig" where
  "gateway_FromEnv getenv =
     (let addr = strEnv getenv ''GATEWAY_ADDR'' '':8080'';
          s = getenv ''VANTAGE_GATEWAY_MAX_ROWS'' in
      if s \<noteq> '''' then
        (case Atoi s of
           None \<Rightarrow> Inl MaxRowsNotInteger
         | Some n \<Rightarrow> if n \<le> 0 then Inl (MaxRowsNotPositive n) else Inr \<lparr>gcAddr = addr, gcMaxRows = n\<rparr>)
      else Inr \<lparr>gcAddr = addr, gcMaxRows = 1000\<rparr>)"

record DbConfig =
  dcDSN :: string
  dcMaxConns :: int

definition db_FromEnv :: "env \<Rightarrow> config_error + DbConfig" where
  "db_FromEnv getenv =
     (let dsn = getenv ''VANTAGE_DB_DSN''; s = getenv ''VANTAGE_DB_MAX_CONNS'' in
      if dsn = '''' then Inl DSNRequired
      else if s \<noteq> '''' then
        (case ParseInt 32 s of
           None \<Rightarrow> Inl MaxConnsNotInteger
         | Some n \<Rightarrow> Inr \<lparr>dcDSN = dsn, dcMaxConns = n\<rparr>)
      else Inr \<lparr>dcDSN = dsn, dcMaxConns = 0\<rparr>)"

datatype slog_level = LevelDebug | LevelInfo | LevelWarn | LevelError

text \<open>\<open>strings.ToUpper\<close> on ASCII letters; other bytes never match one of the four names.\<close>

definition ToUpper :: "string \<Rightarrow> string" where
  "ToUpper = map (\<lambda>c. let n = (of_char c :: nat) in if 97 \<le> n \<and> n \<le> 122 then char_of (n - 32) else c)"

definition logger_level :: "env \<Rightarrow> slog_level" where
  "logger_level getenv =
     (let v = ToUpper (getenv ''LOG_LEVEL'') in
      if v = ''DEBUG'' then LevelDebug
      else if v = ''WARN'' then LevelWarn
      else if v = ''ERROR'' then LevelError
      else LevelInfo)"

section \<open>The configured services\<close>

lemma intEnv_pos: "0 < dst \<Longrightarrow> 0 < intEnv getenv name dst"
  by (simp add: intEnv_def Let_def split: option.splits)

lemma millis_exact: "0 \<le> ms \<Longrightarrow> ms \<le> 9223372036854 \<Longrightarrow> millis ms = ms * Millisecond"
  unfolding millis_def by (rule wrap64_id) (simp_all add: Millisecond_def)

lemma mq_broker_config:
  fixes getenv :: env
  defines "bc \<equiv> main_brokerConfig (mq_FromEnv getenv)"
  shows "0 < Capacity bc" "Capacity bc = BufferSize (mq_FromEnv getenv)"
    "Policy bc \<in> {PolicyReject, PolicyDropOldest, PolicyBlock}"
    "getenv ''MQ_OVERFLOW_POLICY'' \<notin> {PolicyReject, PolicyBlock} \<Longrightarrow> Policy bc = PolicyDropOldest"
    "DLQCapacity (applyDefaults tn bc) = cfgDLQCapacity (mq_FromEnv getenv)"
    "0 < ConsumeCredit (mq_FromEnv getenv)"
proof -
  show "Policy bc \<in> {PolicyReject, PolicyDropOldest, PolicyBlock}"
    "getenv ''MQ_OVERFLOW_POLICY'' \<notin> {PolicyReject, PolicyBlock} \<Longrightarrow> Policy bc = PolicyDropOldest"
    by (auto simp: bc_def main_brokerConfig_def mq_FromEnv_def ParseOverflowPolicy_def Let_def)
  have "0 < cfgDLQCapacity (mq_FromEnv getenv)" by (simp add: mq_FromEnv_def intEnv_pos)
  then show "DLQCapacity (applyDefaults tn bc) = cfgDLQCapacity (mq_FromEnv getenv)"
    by (simp add: bc_def main_brokerConfig_def applyDefaults_def)
qed (simp_all add: bc_def main_brokerConfig_def mq_FromEnv_def intEnv_pos)



text \<open>Configured times arrive unchanged: as long as the two rings can be allocated, every millisecond setting is at most
  9223372036854 (292 years) and \<open>MQ_MAX_DELIVERIES\<close> fits 32 bits, the broker runs with exactly the
  configured capacity, delivery limit, dead-letter capacity, lease deadline and backoff bounds; in
  particular none of them is silently replaced by a default.\<close>

lemma mq_settings_exact:
  fixes getenv :: env
  defines "c \<equiv> mq_FromEnv getenv"
  assumes "BlockTimeoutMS c \<le> 9223372036854" "RetryBackoffBaseMS c \<le> 9223372036854"
    "RetryBackoffMaxMS c \<le> 9223372036854" "LeaseTTLMS c \<le> 9223372036854" "cfgMaxDeliveries c < 2 ^ 32"
    "8 * BufferSize c \<le> 2 ^ 48" "48 * cfgDLQCapacity c \<le> 2 ^ 48"
  shows "\<exists>s. main_server time_Now getenv = Some s \<and>
    Capacity (cfg (store s)) = BufferSize c \<and> DLQCapacity (cfg (store s)) = cfgDLQCapacity c \<and>
    uint (MaxDeliveries (cfg (store s))) = cfgMaxDeliveries c \<and>
    LeaseTTL (cfg (store s)) = LeaseTTLMS c * Millisecond \<and>
    BlockTimeout (cfg (store s)) = BlockTimeoutMS c * Millisecond \<and>
    RetryBackoffBase (cfg (store s)) = RetryBackoffBaseMS c * Millisecond \<and>
    RetryBackoffMax (cfg (store s)) = RetryBackoffMaxMS c * Millisecond"
proof -
  let ?bc = "main_brokerConfig c"
  have pos: "0 < BufferSize c" "0 < BlockTimeoutMS c" "0 < RetryBackoffBaseMS c" "0 < RetryBackoffMaxMS c"
    "0 < LeaseTTLMS c" "0 < cfgMaxDeliveries c" "0 < cfgDLQCapacity c"
    by (simp_all add: c_def mq_FromEnv_def intEnv_pos)
  have ms: "millis (BlockTimeoutMS c) = BlockTimeoutMS c * Millisecond"
    "millis (RetryBackoffBaseMS c) = RetryBackoffBaseMS c * Millisecond"
    "millis (RetryBackoffMaxMS c) = RetryBackoffMaxMS c * Millisecond"
    "millis (LeaseTTLMS c) = LeaseTTLMS c * Millisecond"
    using assms(2-5) pos by (simp_all add: millis_exact)
  have md: "uint (of_int (cfgMaxDeliveries c) :: uint32) = cfgMaxDeliveries c"
    using assms(6) pos(6) by (simp add: unsigned_of_int take_bit_int_eq_self)
  then have "(of_int (cfgMaxDeliveries c) :: uint32) \<noteq> 0" using pos(6) by force
  moreover have "0 < Millisecond" by (simp add: Millisecond_def)
  moreover obtain b where b: "NewBroker time_Now ?bc = Some b"
    using NewBroker_Some [of time_Now ?bc] mq_broker_config [where getenv = getenv] assms(7,8)
    by (auto simp flip: c_def)
  ultimately show ?thesis
    using pos ms md b NewBroker_cases(6) [OF b]
    by (simp add: main_server_def Let_def NewMQServer_def SetNotify_def applyDefaults_def main_brokerConfig_def
        mult_le_0_iff not_le flip: c_def)
qed

text \<open>With \<open>MQ_MAX_DELIVERIES=4294967296\<close> the conversion to \<open>uint32\<close> yields 0, which the broker
  replaces by its default 5.\<close>

lemma max_deliveries_truncates:
  "cfgMaxDeliveries c = 2 ^ 32 \<Longrightarrow> MaxDeliveries (applyDefaults tn (main_brokerConfig c)) = 5"
  by (simp add: main_brokerConfig_def applyDefaults_def)

text \<open>The strict configurations fail closed: the gateway starts only with a positive row limit (1000
  by default), a malformed or non-positive \<open>VANTAGE_GATEWAY_MAX_ROWS\<close> being an error; the database
  configuration requires a DSN, and an unset \<open>VANTAGE_DB_MAX_CONNS\<close> means 0 (the pool's own default).\<close>

lemma strict_configs:
  "(\<forall>c. gateway_FromEnv getenv = Inr c \<longrightarrow> 0 < gcMaxRows c) \<and>
   (getenv ''VANTAGE_GATEWAY_MAX_ROWS'' = '''' \<longrightarrow> map_sum id gcMaxRows (gateway_FromEnv getenv) = Inr 1000) \<and>
   (getenv ''VANTAGE_GATEWAY_MAX_ROWS'' \<noteq> '''' \<longrightarrow> Atoi (getenv ''VANTAGE_GATEWAY_MAX_ROWS'') = None \<longrightarrow>
      gateway_FromEnv getenv = Inl MaxRowsNotInteger) \<and>
   (getenv ''VANTAGE_DB_DSN'' = '''' \<longleftrightarrow> db_FromEnv getenv = Inl DSNRequired) \<and>
   (\<forall>c. db_FromEnv getenv = Inr c \<longrightarrow> dcDSN c = getenv ''VANTAGE_DB_DSN'' \<and> - (2 ^ 31) \<le> dcMaxConns c \<and> dcMaxConns c < 2 ^ 31)"
  by (auto simp: gateway_FromEnv_def db_FromEnv_def Let_def ParseInt_def split: if_splits option.splits Option.bind_splits)

text \<open>A non-positive connection limit is accepted, contrary to the comment on \<open>MaxConns\<close>.\<close>

lemma db_accepts_negative_max_conns:
  "map_sum id dcMaxConns (db_FromEnv (\<lambda>n. ''-5'')) = Inr (- 5)"
  by code_simp

end
