(* ===== verification/Mq_Http.thy ===== *)
theory Mq_Http
  imports MQ_Stream Env_Config
begin

text \<open>
  The HTTP control plane of the message queue (\<open>internal/http\<close>: dead-letter listing and replay,
  health and readiness, inspection, Prometheus metrics) and the drain loop of \<open>cmd/mq/main.go\<close>. A
  response is its status, content type and body; the JSON and Prometheus encodings of a body are
  those of the libraries, so a body is the value that is encoded. Metric values are the integers the
  code converts to \<open>float64\<close>.
\<close>

section \<open>Responses\<close>

record 'a http_response =
  rsStatus :: nat
  rsContentType :: string
  rsBody :: 'a

definition json_ok :: "'a \<Rightarrow> 'a http_response" where
  "json_ok b = \<lparr>rsStatus = 200, rsContentType = ''application/json'', rsBody = b\<rparr>"

text \<open>\<open>http.Error\<close> replies in plain text (and ends the text with a newline, left out here).\<close>

definition http_Error :: "'a \<Rightarrow> nat \<Rightarrow> 'a http_response" where
  "http_Error b st = \<lparr>rsStatus = st, rsContentType = ''text/plain; charset=utf-8'', rsBody = b\<rparr>"

section \<open>Dead letters\<close>

record DLQResponse =
  drDepth :: nat
  drEntries :: "DLQEntry list"

definition DLQHandler :: "string \<Rightarrow> MQServer \<Rightarrow> (string + DLQResponse) http_response option" where
  "DLQHandler limitParam s =
     (let reply = (\<lambda>limit. do {
        entries \<leftarrow> server_DLQList limit s;
        Some (json_ok (Inr \<lparr>drDepth = ssDLQDepth (Stats s), drEntries = entries\<rparr>))
      }) in
      if limitParam \<noteq> '''' then
        (case Atoi limitParam of
           None \<Rightarrow> Some (http_Error (Inl ''{\"error\":\"limit must be a non-negative integer\"}'') 400)
         | Some n \<Rightarrow>
             if n < 0 then Some (http_Error (Inl ''{\"error\":\"limit must be a non-negative integer\"}'') 400)
             else reply n)
      else reply 100)"

record DLQReplayResponse =
  rrReplayed :: nat
  rrRemaining :: nat

definition DLQReplayHandler :: "MQServer \<Rightarrow> (DLQReplayResponse http_response \<times> MQServer) option" where
  "DLQReplayHandler s = do {
     (n, s) \<leftarrow> server_DLQReplay s;
     Some (json_ok \<lparr>rrReplayed = n, rrRemaining = ssDLQDepth (Stats s)\<rparr>, s)
   }"

section \<open>Health and readiness\<close>

definition HealthzHandler :: "string http_response" where
  "HealthzHandler = json_ok ''{\"status\":\"ok\"}''"

definition ReadyzHandler :: "MQServer \<Rightarrow> string http_response" where
  "ReadyzHandler s =
     (if IsShuttingDown s
      then \<lparr>rsStatus = 503, rsContentType = ''application/json'', rsBody = ''{\"status\":\"shutting_down\"}''\<rparr>
      else json_ok ''{\"status\":\"ok\"}'')"

section \<open>Inspection and metrics\<close>

record InspectResponse =
  irCapacity :: int
  irDepth :: nat
  irRetryDepth :: nat
  irDLQDepth :: nat
  irProducedTotal :: int
  irRejectedTotal :: int
  irDeliveredTotal :: int
  irConsumedTotal :: int
  irRedeliveredTotal :: int
  irDroppedTotal :: int
  irDroppedOverflowTotal :: int
  irDroppedRequeueTotal :: int
  irDeadLetteredTotal :: int
  irLeaseExpiredTotal :: int
  irActiveConsumers :: int
  irInFlight :: int

definition InspectHandler :: "MQServer \<Rightarrow> InspectResponse http_response" where
  "InspectHandler s = (let st = Stats s in json_ok \<lparr>
     irCapacity = ssCapacity st, irDepth = ssDepth st, irRetryDepth = ssRetryDepth st,
     irDLQDepth = ssDLQDepth st, irProducedTotal = ssProduced st, irRejectedTotal = ssRejected st,
     irDeliveredTotal = ssDelivered st, irConsumedTotal = ssConsumed st,
     irRedeliveredTotal = ssRedelivered st, irDroppedTotal = ssDropped st,
     irDroppedOverflowTotal = ssDroppedOverflow st, irDroppedRequeueTotal = ssDroppedRequeue st,
     irDeadLetteredTotal = ssDeadLettered st, irLeaseExpiredTotal = ssLeaseExpired st,
     irActiveConsumers = ssActiveConsumers st, irInFlight = ssInFlight st\<rparr>)"

datatype metric_kind = GaugeValue | CounterValue

type_synonym metric = "string \<times> metric_kind \<times> int \<times> string list"

definition mqCollector_Collect :: "MQServer \<Rightarrow> metric list" where
  "mqCollector_Collect s = (let st = Stats s in [
     (''mq_queue_depth'', GaugeValue, int (ssDepth st), []),
     (''mq_retry_depth'', GaugeValue, int (ssRetryDepth st), []),
     (''mq_dlq_depth'', GaugeValue, int (ssDLQDepth st), []),
     (''mq_capacity'', GaugeValue, ssCapacity st, []),
     (''mq_in_flight'', GaugeValue, ssInFlight st, []),
     (''mq_active_consumers'', GaugeValue, ssActiveConsumers st, []),
     (''mq_produced_total'', CounterValue, ssProduced st, []),
     (''mq_rejected_total'', CounterValue, ssRejected st, []),
     (''mq_delivered_total'', CounterValue, ssDelivered st, []),
     (''mq_consumed_total'', CounterValue, ssConsumed st, []),
     (''mq_redelivered_total'', CounterValue, ssRedelivered st, []),
     (''mq_dropped_total'', CounterValue, ssDroppedOverflow st, [''overflow'']),
     (''mq_dropped_total'', CounterValue, ssDroppedRequeue st, [''requeue'']),
     (''mq_dead_lettered_total'', CounterValue, ssDeadLettered st, []),
     (''mq_lease_expired_total'', CounterValue, ssLeaseExpired st, [])])"

section \<open>The drain loop\<close>

text \<open>
  After the signal the process drains: on every tick it looks at the server, until the backlog is
  empty, the drain has stalled or the deadline fires. A tick carries the server as it is then;
  \<open>StillDraining\<close> is a loop that has not ended when the events do.
\<close>

datatype drain_event = DrainTick MQServer | DrainDeadline

datatype drain_end = DrainComplete | DrainStalled | DrainTimeout | StillDraining

definition stallTicks :: nat where "stallTicks = 20"

fun drain_loop :: "nat \<Rightarrow> int \<Rightarrow> drain_event list \<Rightarrow> drain_end" where
  "drain_loop idleTicks lastConsumed [] = StillDraining"
| "drain_loop idleTicks lastConsumed (DrainDeadline # evs) = DrainTimeout"
| "drain_loop idleTicks lastConsumed (DrainTick s # evs) =
     (if Drained s then DrainComplete
      else
        let st = Stats s in
        if ssActiveConsumers st = 0 \<and> ssConsumed st = lastConsumed then
          (if Suc idleTicks \<ge> stallTicks then DrainStalled
           else drain_loop (Suc idleTicks) (ssConsumed st) evs)
        else drain_loop 0 (ssConsumed st) evs)"

definition main_drain :: "drain_event list \<Rightarrow> drain_end" where
  "main_drain evs = drain_loop 0 (- 1) evs"

section \<open>Properties\<close>

text \<open>Metrics and inspection agree: every series scraped from \<open>/metrics\<close> has the value of the
  corresponding field of \<open>/api/v1/queue/inspect\<close> taken at the same state, the dropped series summing
  to the total; gauges and counters partition the series, and no series is reported twice.\<close>

lemma metrics_agree_with_inspect:
  fixes s :: MQServer
  defines "r \<equiv> rsBody (InspectHandler s)"
  shows "map (\<lambda>(n, k, v, ls). v) (mqCollector_Collect s) =
     [int (irDepth r), int (irRetryDepth r), int (irDLQDepth r), irCapacity r, irInFlight r, irActiveConsumers r,
      irProducedTotal r, irRejectedTotal r, irDeliveredTotal r, irConsumedTotal r, irRedeliveredTotal r,
      irDroppedOverflowTotal r, irDroppedRequeueTotal r, irDeadLetteredTotal r, irLeaseExpiredTotal r] \<and>
    irDroppedTotal r = irDroppedOverflowTotal r + irDroppedRequeueTotal r \<and>
    distinct (map (\<lambda>(n, k, v, ls). (n, ls)) (mqCollector_Collect s))"
  by (simp add: r_def mqCollector_Collect_def InspectHandler_def json_ok_def Stats_def Inspect_def Let_def)

text \<open>C26. Dead-letter endpoints: listing answers 400 exactly on a malformed or negative limit and
  otherwise lists the oldest entries first, at most the limit (100 by default, all for 0) with the full
  depth beside them; replaying reports how many messages moved and how many remain, these adding up to
  the depth before. Neither panics.\<close>

theorem dlq_endpoints:
  assumes "broker_inv (store s)"
  shows "(let n = (if limitParam = '''' then Some 100 else Atoi limitParam); all = ring_content (dlq (store s)) in
      if n = None \<or> the n < 0 then \<exists>e. DLQHandler limitParam s = Some (http_Error (Inl e) 400)
      else DLQHandler limitParam s = Some (json_ok (Inr \<lparr>drDepth = length all,
        drEntries = map toDLQEntry (if the n = 0 then all else take (nat (the n)) all)\<rparr>))) \<and>
    (\<exists>r s'. DLQReplayHandler s = Some (json_ok r, s') \<and>
      rrReplayed r + rrRemaining r = ssDLQDepth (Stats s) \<and> all_ids (store s') = all_ids (store s))"
proof (rule conjI)
  have d: "ssDLQDepth (Stats s) = length (ring_content (dlq (store s)))"
    by (simp add: Stats_def Inspect_def Let_def dlqRing_len_def)
  show "let n = (if limitParam = '''' then Some 100 else Atoi limitParam); all = ring_content (dlq (store s)) in
      if n = None \<or> the n < 0 then \<exists>e. DLQHandler limitParam s = Some (http_Error (Inl e) 400)
      else DLQHandler limitParam s = Some (json_ok (Inr \<lparr>drDepth = length all,
        drEntries = map toDLQEntry (if the n = 0 then all else take (nat (the n)) all)\<rparr>))"
    using assms d
    by (cases "Atoi limitParam") (auto simp: DLQHandler_def server_DLQList_def DLQList_ok Let_def)
  from DLQReplay_ok [OF assms] obtain dd r b' where b': "DLQReplay (store s) = Some (replay_count (store s), b')"
    "b' = (store s)\<lparr>dlq := r, main := dd\<rparr>" "all_ids b' = all_ids (store s)"
    "ring_content r = drop (replay_count (store s)) (ring_content (dlq (store s)))" by metis
  let ?n = "replay_count (store s)"
  define s' where "s' = (if ?n > 0 then NotifyAll (s\<lparr>store := b'\<rparr>) else s\<lparr>store := b'\<rparr>)"
  have s': "server_DLQReplay s = Some (?n, s')" "store s' = b'"
    using b'(1) by (simp_all add: server_DLQReplay_def s'_def NotifyAll_def)
  have "?n \<le> rcount (dlq (store s))" by (simp add: replay_count_def dlqRing_len_def)
  moreover have "rcount r = rcount (dlq (store s)) - ?n" using arg_cong [OF b'(4), of length] by simp
  ultimately have "?n + ssDLQDepth (Stats s') = ssDLQDepth (Stats s)"
    using s'(2) by (simp add: Stats_def Inspect_def Let_def b'(2) dlqRing_len_def)
  with s' b'(3) show "\<exists>r s'. DLQReplayHandler s = Some (json_ok r, s') \<and>
      rrReplayed r + rrRemaining r = ssDLQDepth (Stats s) \<and> all_ids (store s') = all_ids (store s)"
    by (intro exI [of _ "\<lparr>rrReplayed = ?n, rrRemaining = ssDLQDepth (Stats s')\<rparr>"] exI [of _ s'])
      (simp add: DLQReplayHandler_def)
qed

theorem dlq_endpoints_witness:
  "DLQHandler '''' (NewMQServer (snd demo_dead) 0) =
     Some (json_ok (Inr \<lparr>drDepth = 1, drEntries = map toDLQEntry (ring_content (dlq (snd demo_dead)))\<rparr>))"
proof -
  let ?s = "NewMQServer (snd demo_dead) 0"
  have inv: "broker_inv (store ?s)" using run_inv [OF demo_dead_run] by (simp add: NewMQServer_def SetNotify_def)
  have st: "dlq (store ?s) = dlq (snd demo_dead)" by (simp add: NewMQServer_def SetNotify_def)
  have "length (ring_content (dlq (snd demo_dead))) = 1" by code_simp
  with dlq_endpoints [OF inv, of "[]"] st show ?thesis by (simp add: Let_def)
qed

definition idle_at :: "int \<Rightarrow> MQServer \<Rightarrow> bool" where
  "idle_at c s \<longleftrightarrow> \<not> Drained s \<and> ssActiveConsumers (Stats s) = 0 \<and> ssConsumed (Stats s) = c"

definition idle_run :: "nat \<Rightarrow> int \<Rightarrow> drain_event list \<Rightarrow> bool" where
  "idle_run n c evs \<longleftrightarrow> (\<exists>ss. take n evs = map DrainTick ss \<and> length ss = n \<and> (\<forall>s \<in> set ss. idle_at c s))"

lemma idle_run_Suc: "idle_at c s \<Longrightarrow> idle_run n c evs \<Longrightarrow> idle_run (Suc n) c (DrainTick s # evs)"
  unfolding idle_run_def by (elim exE, rename_tac ss, rule_tac x = "s # ss" in exI) simp

lemma idle_run_0: "idle_run 0 c evs"
  by (simp add: idle_run_def)

lemma drain_loop_stalled:
  assumes "drain_loop i c evs = DrainStalled" "i < stallTicks"
  shows "idle_run (stallTicks - i) c evs \<or> (\<exists>k c'. idle_run stallTicks c' (drop k evs))"
  using assms
proof (induction i c evs rule: drain_loop.induct)
  case (3 i c s evs)
  let ?st = "Stats s"
  have nd: "\<not> Drained s" using "3.prems"(1) by (auto split: if_splits)
  show ?case
  proof (cases "ssActiveConsumers ?st = 0 \<and> ssConsumed ?st = c")
    case True
    then have idle: "idle_at c s" using nd by (simp add: idle_at_def)
    show ?thesis
    proof (cases "Suc i \<ge> stallTicks")
      case last: True
      then have "stallTicks - i = Suc 0" using "3.prems"(2) by simp
      with idle_run_Suc [OF idle idle_run_0] show ?thesis by simp
    next
      case False
      with "3.IH"(1) [OF nd refl True False] True nd "3.prems"
      have "idle_run (stallTicks - Suc i) c evs \<or> (\<exists>k c'. idle_run stallTicks c' (drop k evs))"
        by (simp add: Let_def)
      then show ?thesis
      proof
        assume "idle_run (stallTicks - Suc i) c evs"
        from idle_run_Suc [OF idle this] "3.prems"(2) show ?thesis by (simp add: Suc_diff_Suc)
      next
        assume "\<exists>k c'. idle_run stallTicks c' (drop k evs)"
        then show ?thesis by (metis drop_Suc_Cons)
      qed
    qed
  next
    case False
    with "3.IH"(2) [OF nd refl False] nd "3.prems"(1)
    have "idle_run stallTicks (ssConsumed ?st) evs \<or> (\<exists>k c'. idle_run stallTicks c' (drop k evs))"
      by (auto simp: Let_def stallTicks_def)
    then show ?thesis by (metis drop_Suc_Cons drop_0)
  qed
qed simp_all

text \<open>The stall detector never gives up early: the drain is reported stalled only after twenty
  ticks in a row that all saw a backlog, no connected consumer and the same number of
  acknowledgements.\<close>

lemma drain_stall_sound:
  assumes "main_drain evs = DrainStalled"
  shows "\<exists>k ss c. take 20 (drop k evs) = map DrainTick ss \<and> length ss = 20 \<and>
    (\<forall>s \<in> set ss. \<not> Drained s \<and> ssActiveConsumers (Stats s) = 0 \<and> ssConsumed (Stats s) = c)"
proof -
  have "\<exists>k c. idle_run stallTicks c (drop k evs)"
    using drain_loop_stalled [of 0 "- 1" evs] assms unfolding main_drain_def
    by (auto simp: stallTicks_def) (metis drop_0)
  then show ?thesis by (auto simp: idle_run_def idle_at_def stallTicks_def)
qed

lemma drain_loop_idle:
  assumes "\<forall>s \<in> set ss. idle_at c s" "i + length ss \<ge> stallTicks" "i < stallTicks"
  shows "drain_loop i c (map DrainTick ss @ evs) = DrainStalled"
  using assms by (induction ss arbitrary: i) (auto simp: idle_at_def Let_def)

lemma drain_deadline_ends: "main_drain (evs @ DrainDeadline # rest) \<noteq> StillDraining"
proof -
  have "drain_loop i l (evs @ DrainDeadline # rest) \<noteq> StillDraining" for i l
    by (induction i l evs rule: drain_loop.induct) (auto simp: Let_def)
  then show ?thesis by (simp add: main_drain_def)
qed

text \<open>C27. The drain ends: it never outlives its deadline, and with a backlog, no consumer and no
  progress it ends stalled after 21 ticks (the first tick only records the acknowledgement count).\<close>

theorem drain_ends:
  "main_drain (evs @ DrainDeadline # rest) \<noteq> StillDraining \<and>
   (length ss = 21 \<longrightarrow> (\<forall>s \<in> set ss. \<not> Drained s \<and> ssActiveConsumers (Stats s) = 0 \<and> ssConsumed (Stats s) = c) \<longrightarrow>
      main_drain (map DrainTick ss @ evs) = DrainStalled)"
proof (intro conjI impI)
  show "main_drain (evs @ DrainDeadline # rest) \<noteq> StillDraining" by (rule drain_deadline_ends)
next
  assume ss: "length ss = 21" "\<forall>s \<in> set ss. \<not> Drained s \<and> ssActiveConsumers (Stats s) = 0 \<and> ssConsumed (Stats s) = c"
  then obtain s ss' where cons: "ss = s # ss'" by (cases ss) auto
  have tail: "drain_loop i c (map DrainTick ss' @ evs) = DrainStalled" if "i < stallTicks" for i
    using drain_loop_idle [of ss' c i evs] ss cons that by (simp add: idle_at_def stallTicks_def)
  from tail [of 0] tail [of 1] ss cons show "main_drain (map DrainTick ss @ evs) = DrainStalled"
    by (auto simp: main_drain_def Let_def stallTicks_def)
qed

definition backlog_server :: MQServer where
  "backlog_server = NewMQServer (snd demo_state) 0"

lemma backlog_idle: "\<not> Drained backlog_server" "ssActiveConsumers (Stats backlog_server) = 0"
  "ssConsumed (Stats backlog_server) = 0"
  by code_simp+

theorem drain_ends_witness:
  "main_drain (map DrainTick (replicate 21 backlog_server) @ []) = DrainStalled"
  using drain_ends [of "[]" "[]" "replicate 21 backlog_server" 0] backlog_idle by simp

end
