(* ===== verification/Go_Csv.thy ===== *)
theory Go_Csv
  imports Vantage_Prelude
begin

text \<open>
  The reader of Go's \<open>encoding/csv\<close> as the streamer configures it: comma separated, strict quotes, no comment
  character. A file is a byte string; its lines keep their newline, with a carriage return before it dropped.
  A record is a list of fields, an error is a bare or an unfinished quote; after an error the reader goes on
  with the next line. The number of fields is checked by the caller of this theory.
\<close>

datatype csv_read = CsvRecord "string list" | CsvError

abbreviation newline :: char where "newline \<equiv> CHR 0x0A"
abbreviation dquote :: char where "dquote \<equiv> CHR 0x22"
abbreviation comma :: char where "comma \<equiv> CHR 0x2C"

section \<open>Lines\<close>

definition normalize_line :: "string \<Rightarrow> string" where
  "normalize_line l =
     (if l \<noteq> [] \<and> last l = newline then
        (if length l \<ge> 2 \<and> last (butlast l) = CHR 0x0D then butlast (butlast l) @ [newline] else l)
      else if l \<noteq> [] \<and> last l = CHR 0x0D then butlast l
      else l)"

fun split_lines :: "string \<Rightarrow> string \<Rightarrow> string list" where
  "split_lines cur [] = (if cur = [] then [] else [normalize_line (rev cur)])"
| "split_lines cur (c # s) =
     (if c = newline then normalize_line (rev (c # cur)) # split_lines [] s else split_lines (c # cur) s)"

definition strip_newline :: "string \<Rightarrow> string" where
  "strip_newline l = (if l \<noteq> [] \<and> last l = newline then butlast l else l)"

section \<open>Fields\<close>

lemma dropWhile_tl_shorter: "x \<in> set s \<Longrightarrow> length (dropWhile (\<lambda>c. c \<noteq> x) s) - Suc 0 < length s"
proof -
  assume "x \<in> set s"
  then have "dropWhile (\<lambda>c. c \<noteq> x) s \<noteq> []" by auto
  then have "length (dropWhile (\<lambda>c. c \<noteq> x) s) - Suc 0 < length (dropWhile (\<lambda>c. c \<noteq> x) s)" by (cases "dropWhile (\<lambda>c. c \<noteq> x) s") auto
  also have "\<dots> \<le> length s" by (rule length_dropWhile_le)
  finally show ?thesis .
qed

text \<open>The fields of a record, from the rest of its line and the lines after it; \<open>None\<close> is a parse error.\<close>

function parse_fields :: "string \<Rightarrow> string list \<Rightarrow> string list \<Rightarrow> string list option \<times> string list"
  and parse_quoted :: "string \<Rightarrow> string list \<Rightarrow> string \<Rightarrow> string list \<Rightarrow> string list option \<times> string list" where
  "parse_fields line ls dst =
     (if line = [] \<or> hd line \<noteq> dquote then
        (if comma \<in> set line then
           let field = takeWhile (\<lambda>c. c \<noteq> comma) line in
           if dquote \<in> set field then (None, ls)
           else parse_fields (tl (dropWhile (\<lambda>c. c \<noteq> comma) line)) ls (dst @ [field])
         else
           let field = strip_newline line in
           if dquote \<in> set field then (None, ls) else (Some (dst @ [field]), ls))
      else parse_quoted (tl line) ls [] dst)"
| "parse_quoted line ls buf dst =
     (if dquote \<in> set line then
        let buf = buf @ takeWhile (\<lambda>c. c \<noteq> dquote) line; rest = tl (dropWhile (\<lambda>c. c \<noteq> dquote) line) in
        (if rest = [] \<or> rest = [newline] then (Some (dst @ [buf]), ls)
         else if hd rest = dquote then parse_quoted (tl rest) ls (buf @ [dquote]) dst
         else if hd rest = comma then parse_fields (tl rest) ls (dst @ [buf])
         else (None, ls))
      else if line \<noteq> [] then
        (case ls of
           l # ls \<Rightarrow> parse_quoted l ls (buf @ line) dst
         | [] \<Rightarrow> parse_quoted [] [] (buf @ line) dst)
      else (None, ls))"
  by pat_completeness auto
termination
proof (relation "measure (case_sum (\<lambda>(line, ls, dst). length line + sum_list (map length ls))
    (\<lambda>(line, ls, buf, dst). length line + sum_list (map length ls)))", goal_cases)
  case (4 line ls buf dst b rest)
  then show ?case using dropWhile_tl_shorter [of dquote line] by (auto intro: le_less_trans [OF diff_le_self])
next
  case (5 line ls buf dst b rest)
  then show ?case using dropWhile_tl_shorter [of dquote line] by (auto intro: le_less_trans [OF diff_le_self])
qed (auto simp: dropWhile_tl_shorter)

declare parse_fields.simps [simp del] parse_quoted.simps [simp del]

lemma parse_lines:
  "length (snd (parse_fields line ls dst)) \<le> length ls" "length (snd (parse_quoted line ls buf dst)) \<le> length ls"
proof (induction line ls dst and line ls buf dst rule: parse_fields_parse_quoted.induct)
  case (1 line ls dst)
  then show ?case by (subst parse_fields.simps) (auto simp: Let_def)
next
  case (2 line ls buf dst)
  then show ?case by (subst parse_quoted.simps) (auto simp: Let_def split: list.splits)
qed

lemma parse_lines_rest: "(x, rest) = parse_fields line ls dst \<Longrightarrow> length rest < Suc (length ls)"
  using parse_lines(1) [of line ls dst] by (metis less_Suc_eq_le snd_conv)

section \<open>Records\<close>

text \<open>The records of a file in order, one per call of \<open>Read\<close> until \<open>io.EOF\<close>; empty lines are skipped.\<close>

function read_records :: "string list \<Rightarrow> csv_read list" where
  "read_records [] = []"
| "read_records (l # ls) =
     (if l = [] \<or> l = [newline] then read_records ls
      else (case parse_fields l ls [] of
              (Some flds, rest) \<Rightarrow> CsvRecord flds # read_records rest
            | (None, rest) \<Rightarrow> CsvError # read_records rest))"
  by pat_completeness auto
termination by (relation "measure length") (auto dest: parse_lines_rest)

definition csv_records :: "string \<Rightarrow> csv_read list" where
  "csv_records file = read_records (split_lines [] file)"

section \<open>Reading what was written\<close>

text \<open>A line of fields, each plain or in quotes with the quotes inside doubled.\<close>

fun doubled :: "string \<Rightarrow> string" where
  "doubled [] = []"
| "doubled (c # s) = (if c = dquote then dquote # dquote # doubled s else c # doubled s)"

definition csv_field :: "bool \<times> string \<Rightarrow> string" where
  "csv_field f = (if fst f then dquote # doubled (snd f) @ [dquote] else snd f)"

fun csv_line :: "(bool \<times> string) list \<Rightarrow> string" where
  "csv_line [] = [newline]"
| "csv_line [f] = csv_field f @ [newline]"
| "csv_line (f # fs) = csv_field f @ [comma] @ csv_line fs"

definition field_ok :: "bool \<times> string \<Rightarrow> bool" where
  "field_ok f \<longleftrightarrow> fst f \<or> comma \<notin> set (snd f) \<and> dquote \<notin> set (snd f)"

lemma takeWhile_first: "x \<notin> set s \<Longrightarrow> takeWhile (\<lambda>c. c \<noteq> x) (s @ x # t) = s" "x \<notin> set s \<Longrightarrow> dropWhile (\<lambda>c. c \<noteq> x) (s @ x # t) = x # t"
  by (induction s) auto

text \<open>Inside quotes, a prefix without quotes is copied.\<close>

lemma parse_quoted_step:
  assumes "dquote \<notin> set s"
  shows "parse_quoted (s @ dquote # dquote # t) ls buf dst = parse_quoted t ls (buf @ s @ [dquote]) dst"
    "parse_quoted (s @ dquote # comma # t) ls buf dst = parse_fields t ls (dst @ [buf @ s])"
    "parse_quoted (s @ [dquote, newline]) ls buf dst = (Some (dst @ [buf @ s]), ls)"
  by (subst parse_quoted.simps, simp add: takeWhile_first [OF assms] Let_def)+

lemma doubled_split: "s = u @ dquote # v \<Longrightarrow> dquote \<notin> set u \<Longrightarrow> doubled s = u @ dquote # dquote # doubled v"
  by (induction u arbitrary: s) auto

lemma doubled_id: "dquote \<notin> set s \<Longrightarrow> doubled s = s"
  by (induction s) auto

lemma parse_quoted_both:
  "parse_quoted (doubled s @ dquote # comma # t) ls buf dst = parse_fields t ls (dst @ [buf @ s]) \<and>
   parse_quoted (doubled s @ [dquote, newline]) ls buf dst = (Some (dst @ [buf @ s]), ls)"
proof (induction "length s" arbitrary: s buf rule: less_induct)
  case less
  show ?case
  proof (cases "dquote \<in> set s")
    case False
    then show ?thesis using parse_quoted_step(2,3) [OF False] by (simp add: doubled_id)
  next
    case True
    then obtain u v where uv: "s = u @ dquote # v" "dquote \<notin> set u" by (metis split_list_first)
    note d = doubled_split [OF uv]
    have "length v < length s" using uv(1) by simp
    note IH = less [OF this, of "buf @ u @ [dquote]"]
    have "parse_quoted (doubled s @ dquote # comma # t) ls buf dst = parse_fields t ls (dst @ [buf @ s])"
      unfolding d using parse_quoted_step(1) [OF uv(2), of "doubled v @ dquote # comma # t"] IH uv(1) by simp
    moreover have "parse_quoted (doubled s @ [dquote, newline]) ls buf dst = (Some (dst @ [buf @ s]), ls)"
      unfolding d using parse_quoted_step(1) [OF uv(2), of "doubled v @ [dquote, newline]"] IH uv(1) by simp
    ultimately show ?thesis ..
  qed
qed

lemmas parse_quoted_field = parse_quoted_both [THEN conjunct1] parse_quoted_both [THEN conjunct2]

lemma parse_field_more:
  assumes "field_ok f"
  shows "parse_fields (csv_field f @ comma # t) ls dst = parse_fields t ls (dst @ [snd f])"
proof (cases "fst f")
  case True
  then show ?thesis by (subst parse_fields.simps) (simp add: csv_field_def parse_quoted_field)
next
  case False
  then have f: "comma \<notin> set (snd f)" "dquote \<notin> set (snd f)" using assms by (simp_all add: field_ok_def)
  have "snd f @ comma # t = [] \<or> hd (snd f @ comma # t) \<noteq> dquote" using f(2) by (cases "snd f") auto
  with False f show ?thesis
    by (subst parse_fields.simps) (simp add: csv_field_def takeWhile_first [OF f(1)] Let_def del: hd_append)
qed

lemma parse_field_last:
  assumes "field_ok f"
  shows "parse_fields (csv_field f @ [newline]) ls dst = (Some (dst @ [snd f]), ls)"
proof (cases "fst f")
  case True
  then show ?thesis by (subst parse_fields.simps) (simp add: csv_field_def parse_quoted_field)
next
  case False
  then have f: "comma \<notin> set (snd f)" "dquote \<notin> set (snd f)" using assms by (simp_all add: field_ok_def)
  have "snd f @ [newline] = [] \<or> hd (snd f @ [newline]) \<noteq> dquote" using f(2) by (cases "snd f") auto
  with False f show ?thesis
    by (subst parse_fields.simps) (simp add: csv_field_def strip_newline_def Let_def del: hd_append)
qed

text \<open>A line of well-formed fields is read back as these fields.\<close>

lemma csv_line_roundtrip:
  assumes "fs \<noteq> []" "\<forall>f \<in> set fs. field_ok f"
  shows "parse_fields (csv_line fs) ls dst = (Some (dst @ map snd fs), ls)"
  using assms
proof (induction fs arbitrary: dst rule: csv_line.induct)
  case (2 f)
  then show ?case by (simp add: parse_field_last)
next
  case (3 f g fs)
  then have "parse_fields (csv_field f @ comma # csv_line (g # fs)) ls dst = parse_fields (csv_line (g # fs)) ls (dst @ [snd f])"
    by (intro parse_field_more) simp
  with 3 show ?case by simp
qed simp

end
