(* ===== verification/Streamer.thy ===== *)
theory Streamer
  imports Telemetry_Model Env_Config Go_Csv
begin

text \<open>
  The streamer (\<open>internal/streamer/streamer.go\<close>): rows of a CSV file become messages that are published in
  batches with retries. The clock is an argument, and so is the value \<open>strconv.ParseFloat\<close> gives a text, since
  the pipeline only carries it. A pass reads the contents of the file through the CSV reader. What the queue answers and how waits end are the two lists of the state: a reply per
  RPC, and per wait whether the context was cancelled during it. A run that needs more of them than there
  are is \<open>Blocked\<close>: it is still retrying or waiting. A read of the file may start to fail, and then fails
  on every call. The three ways to panic (indexing a short record, slicing past the end of a batch, allocating
  the batch) are told apart.
\<close>

section \<open>Records\<close>

datatype streamer_error = ParseValue string

text \<open>\<open>record[i]\<close> panics on a short record (\<open>None\<close>).\<close>

definition recordToProto ::
  "(string \<Rightarrow> float64 option) \<Rightarrow> gotime \<Rightarrow> string list \<Rightarrow> (streamer_error + TelemetryMessage) option" where
  "recordToProto ParseFloat stamp rec = do {
     v \<leftarrow> index rec 10;
     (case ParseFloat v of
        None \<Rightarrow> Some (Inl (ParseValue v))
      | Some value \<Rightarrow> do {
          mn \<leftarrow> index rec 1; gpu \<leftarrow> index rec 2; dev \<leftarrow> index rec 3; uuid \<leftarrow> index rec 4; model \<leftarrow> index rec 5;
          host \<leftarrow> index rec 6; cont \<leftarrow> index rec 7; pod \<leftarrow> index rec 8; ns \<leftarrow> index rec 9; labels \<leftarrow> index rec 11;
          Some (Inr \<lparr>pbTimestamp = Format_RFC3339Nano stamp, pbMetricName = mn, pbGpuId = gpu, pbDevice = dev, pbUuid = uuid,
            pbModelName = model, pbHostname = host, pbContainer = cont, pbPod = pod, pbNamespace = ns, pbValue = value,
            pbLabelsRaw = labels, pbId = 0, pbDeliveryAttempts = 0\<rparr>)
        })
   }"

section \<open>Publishing with retries\<close>

datatype batch_reply = Accepted int | RpcErr (ctx_done: bool)

datatype go_panic = IndexOutOfRange | SliceBounds | MakeSlice

datatype publish_ret = RetNil | RetCtxErr | Blocked | Panicked go_panic

record StreamerState =
  stReplies :: "batch_reply list"
  stWaits :: "bool list"
  stPublished :: "TelemetryMessage list"
  stSlept :: "duration list"
  rowsProducedTotal :: int
  rowsSkippedTotal :: nat
  produceRetriesTotal :: nat
  stStamps :: nat

definition retryMax :: duration where "retryMax = 5 * Second"
definition retryBase :: duration where "retryBase = 100 * Millisecond"

text \<open>The wait between two attempts: \<open>None\<close> when it has not ended, else whether it was cut short.\<close>

definition retry_wait :: "duration \<Rightarrow> StreamerState \<Rightarrow> publish_ret option \<times> StreamerState" where
  "retry_wait delay st =
     (let st = st\<lparr>produceRetriesTotal := Suc (produceRetriesTotal st)\<rparr> in
      case stWaits st of
        [] \<Rightarrow> (Some Blocked, st)
      | cancelled # ws \<Rightarrow>
          let st = st\<lparr>stWaits := ws, stSlept := stSlept st @ [delay]\<rparr> in
          if cancelled then (Some RetCtxErr, st) else (None, st))"

lemma retry_wait_replies: "retry_wait delay st = (r, st') \<Longrightarrow> stReplies st' = stReplies st"
  by (auto simp: retry_wait_def Let_def split: list.splits if_splits)

text \<open>\<open>rest[accepted:]\<close> panics when the queue claims more than it was sent.\<close>

function batch_retry_loop :: "duration \<Rightarrow> TelemetryMessage list \<Rightarrow> StreamerState \<Rightarrow> publish_ret \<times> StreamerState" where
  "batch_retry_loop delay rest st =
     (if rest = [] then (RetNil, st)
      else
        (case stReplies st of
           [] \<Rightarrow> (Blocked, st)
         | reply # replies \<Rightarrow>
             let st = st\<lparr>stReplies := replies\<rparr> in
             (case reply of
                Accepted n \<Rightarrow>
                  if n < 0 \<or> n > int (length rest) then (Panicked SliceBounds, st)
                  else
                    let st = st\<lparr>rowsProducedTotal := rowsProducedTotal st + n, stPublished := stPublished st @ take (nat n) rest\<rparr>;
                        rest = drop (nat n) rest;
                        delay = (if n > 0 then retryBase else delay)
                    in if rest = [] then (RetNil, st)
                       else (case retry_wait delay st of
                               (Some ret, st) \<Rightarrow> (ret, st)
                             | (None, st) \<Rightarrow> batch_retry_loop (min (delay * 2) retryMax) rest st)
              | RpcErr ctxDone \<Rightarrow>
                  if ctxDone then (RetCtxErr, st)
                  else (case retry_wait delay st of
                          (Some ret, st) \<Rightarrow> (ret, st)
                        | (None, st) \<Rightarrow> batch_retry_loop (min (delay * 2) retryMax) rest st))))"
  by pat_completeness auto

termination batch_retry_loop
  by (relation "measure (\<lambda>(delay, rest, st). length (stReplies st))")
    (auto dest!: retry_wait_replies [OF sym])

declare batch_retry_loop.simps [simp del]

definition produceBatchWithRetry :: "TelemetryMessage list \<Rightarrow> StreamerState \<Rightarrow> publish_ret \<times> StreamerState" where
  "produceBatchWithRetry msgs st = batch_retry_loop retryBase msgs st"

text \<open>The unary path: any reply without an error is an acceptance.\<close>

function unary_retry_loop :: "duration \<Rightarrow> TelemetryMessage \<Rightarrow> StreamerState \<Rightarrow> publish_ret \<times> StreamerState" where
  "unary_retry_loop delay tmsg st =
     (case stReplies st of
        [] \<Rightarrow> (Blocked, st)
      | reply # replies \<Rightarrow>
          let st = st\<lparr>stReplies := replies\<rparr> in
          (case reply of
             Accepted n \<Rightarrow> (RetNil, st\<lparr>stPublished := stPublished st @ [tmsg]\<rparr>)
           | RpcErr ctxDone \<Rightarrow>
               if ctxDone then (RetCtxErr, st)
               else (case retry_wait delay st of
                       (Some ret, st) \<Rightarrow> (ret, st)
                     | (None, st) \<Rightarrow> unary_retry_loop (min (delay * 2) retryMax) tmsg st)))"
  by pat_completeness auto

termination unary_retry_loop
  by (relation "measure (\<lambda>(delay, tmsg, st). length (stReplies st))")
    (auto dest!: retry_wait_replies [OF sym])

declare unary_retry_loop.simps [simp del]

definition produceWithRetry :: "TelemetryMessage \<Rightarrow> StreamerState \<Rightarrow> publish_ret \<times> StreamerState" where
  "produceWithRetry tmsg st = unary_retry_loop retryBase tmsg st"

section \<open>Streaming a file\<close>

text \<open>A line as the CSV reader sees it; \<open>FieldsPerRecord = 12\<close> makes any other number of fields an error.\<close>

definition csv_Read :: "csv_read \<Rightarrow> string list option" where
  "csv_Read r = (case r of CsvRecord flds \<Rightarrow> if length flds = 12 then Some flds else None | CsvError \<Rightarrow> None)"

text \<open>A step that lets the loop go on is \<open>None\<close>, one that makes it return is \<open>Some\<close>.\<close>

definition streamer_flush ::
  "TelemetryMessage list \<Rightarrow> StreamerState \<Rightarrow> publish_ret option \<times> TelemetryMessage list \<times> StreamerState" where
  "streamer_flush batch st =
     (if length batch = 0 then (None, batch, st)
      else (case produceBatchWithRetry batch st of
              (RetNil, st) \<Rightarrow> (None, [], st)
            | (ret, st) \<Rightarrow> (Some ret, batch, st)))"

definition publish_row ::
  "int \<Rightarrow> TelemetryMessage \<Rightarrow> TelemetryMessage list \<Rightarrow> StreamerState \<Rightarrow>
   publish_ret option \<times> TelemetryMessage list \<times> StreamerState" where
  "publish_row batchSize tmsg batch st =
     (if batchSize \<le> 1 then
        (case produceWithRetry tmsg st of
           (RetNil, st) \<Rightarrow> (None, batch, st\<lparr>rowsProducedTotal := rowsProducedTotal st + 1\<rparr>)
         | (ret, st) \<Rightarrow> (Some ret, batch, st))
      else
        let batch = batch @ [tmsg] in
        if int (length batch) \<ge> batchSize then streamer_flush batch st else (None, batch, st))"

definition loop_delay :: "int \<Rightarrow> StreamerState \<Rightarrow> publish_ret option \<times> StreamerState" where
  "loop_delay loopDelayMS st =
     (if loopDelayMS > 0 then
        (case stWaits st of
           [] \<Rightarrow> (Some Blocked, st)
         | cancelled # ws \<Rightarrow> if cancelled then (Some RetCtxErr, st\<lparr>stWaits := ws\<rparr>) else (None, st\<lparr>stWaits := ws\<rparr>))
      else (None, st))"

definition skip_row :: "StreamerState \<Rightarrow> StreamerState" where
  "skip_row st = st\<lparr>rowsSkippedTotal := Suc (rowsSkippedTotal st)\<rparr>"

fun rows_loop ::
  "(string \<Rightarrow> float64 option) \<Rightarrow> (nat \<Rightarrow> gotime) \<Rightarrow> int \<Rightarrow> int \<Rightarrow> csv_read list \<Rightarrow> TelemetryMessage list \<Rightarrow> StreamerState \<Rightarrow>
   publish_ret option \<times> TelemetryMessage list \<times> StreamerState" where
  "rows_loop ParseFloat clock loopDelayMS batchSize [] batch st = (None, batch, st)"
| "rows_loop ParseFloat clock loopDelayMS batchSize (row # rows) batch st =
     (case csv_Read row of
        None \<Rightarrow> rows_loop ParseFloat clock loopDelayMS batchSize rows batch (skip_row st)
      | Some rec \<Rightarrow>
          (case recordToProto ParseFloat (clock (stStamps st)) rec of
             None \<Rightarrow> (Some (Panicked IndexOutOfRange), batch, st)
           | Some (Inl err) \<Rightarrow> rows_loop ParseFloat clock loopDelayMS batchSize rows batch (skip_row st)
           | Some (Inr tmsg) \<Rightarrow>
               (case publish_row batchSize tmsg batch (st\<lparr>stStamps := Suc (stStamps st)\<rparr>) of
                  (Some ret, batch, st) \<Rightarrow> (Some ret, batch, st)
                | (None, batch, st) \<Rightarrow>
                    (case loop_delay loopDelayMS st of
                       (Some ret, st) \<Rightarrow> (Some ret, batch, st)
                     | (None, st) \<Rightarrow> rows_loop ParseFloat clock loopDelayMS batchSize rows batch st))))"

text \<open>
  What one pass over the file meets: a context that is done, a failing seek, the bytes that can be read, and
  whether reading past them fails instead of reaching the end of the file. The line that a failing read cuts
  off is not a record: \<open>Read\<close> reports the error for it, and again on every later call.
\<close>

record pass_env =
  peCtxDone :: bool
  peSeekErr :: bool
  peFile :: string
  peReadErr :: bool

definition complete_lines :: "string \<Rightarrow> string" where
  "complete_lines s = rev (dropWhile (\<lambda>c. c \<noteq> newline) (rev s))"

definition pass_records :: "pass_env \<Rightarrow> csv_read list" where
  "pass_records p = csv_records (if peReadErr p then complete_lines (peFile p) else peFile p)"

text \<open>\<open>Spins\<close>: the loop over the rows skips a failing read for ever, whatever happens to its context.\<close>

datatype stream_ret = Returned publish_ret | Spins | OpenCsvErr | SeekErr | HeaderErr | CSVPathRequired | DialErr

fun passes_loop ::
  "(string \<Rightarrow> float64 option) \<Rightarrow> (nat \<Rightarrow> gotime) \<Rightarrow> int \<Rightarrow> int \<Rightarrow> bool \<Rightarrow> pass_env list \<Rightarrow> TelemetryMessage list \<Rightarrow> StreamerState \<Rightarrow>
   stream_ret \<times> StreamerState" where
  "passes_loop ParseFloat clock loopDelayMS batchSize once [] batch st = (Returned Blocked, st)"
| "passes_loop ParseFloat clock loopDelayMS batchSize once (p # ps) batch st =
     (if peCtxDone p then (Returned RetCtxErr, st)
      else if peSeekErr p then (SeekErr, st)
      else
        (case pass_records p of
           [] \<Rightarrow> (HeaderErr, st)
         | header # rows \<Rightarrow>
             if csv_Read header = None then (HeaderErr, st)
             else
               (case rows_loop ParseFloat clock loopDelayMS batchSize rows batch st of
                  (Some ret, batch, st) \<Rightarrow> (Returned ret, st)
                | (None, batch, st) \<Rightarrow>
                    if peReadErr p then (Spins, st)
                    else
                    (case streamer_flush batch st of
                       (Some ret, batch, st) \<Rightarrow> (Returned ret, st)
                     | (None, batch, st) \<Rightarrow>
                         if once then (Returned RetNil, st)
                         else passes_loop ParseFloat clock loopDelayMS batchSize once ps batch st))))"

definition StreamBatched ::
  "(string \<Rightarrow> float64 option) \<Rightarrow> (nat \<Rightarrow> gotime) \<Rightarrow> bool \<Rightarrow> int \<Rightarrow> int \<Rightarrow> bool \<Rightarrow> pass_env list \<Rightarrow> StreamerState \<Rightarrow> stream_ret \<times> StreamerState" where
  "StreamBatched ParseFloat clock openErr loopDelayMS batchSize once ps st =
     (if openErr then (OpenCsvErr, st)
      else if \<not> make_ok 8 (max batchSize 1) then (Returned (Panicked MakeSlice), st)
      else passes_loop ParseFloat clock loopDelayMS batchSize once ps [] st)"

definition Stream_unary ::
  "(string \<Rightarrow> float64 option) \<Rightarrow> (nat \<Rightarrow> gotime) \<Rightarrow> bool \<Rightarrow> int \<Rightarrow> bool \<Rightarrow> pass_env list \<Rightarrow> StreamerState \<Rightarrow> stream_ret \<times> StreamerState" where
  "Stream_unary ParseFloat clock openErr loopDelayMS once ps st =
     StreamBatched ParseFloat clock openErr loopDelayMS 1 once ps st"

text \<open>\<open>Runner.Run\<close>, with the readiness it leaves.\<close>

definition streamer_Run ::
  "(string \<Rightarrow> float64 option) \<Rightarrow> (nat \<Rightarrow> gotime) \<Rightarrow> StreamerConfig \<Rightarrow> bool \<Rightarrow> bool \<Rightarrow> pass_env list \<Rightarrow> StreamerState \<Rightarrow>
   bool \<times> stream_ret \<times> StreamerState" where
  "streamer_Run ParseFloat clock scfg dialErr openErr ps st =
     (if scCSVPath scfg = '''' then (False, CSVPathRequired, st)
      else if dialErr then (False, DialErr, st)
      else (True, StreamBatched ParseFloat clock openErr (scLoopDelayMS scfg) (scBatchSize scfg) False ps st))"

section \<open>What is published\<close>

text \<open>
  The contract: a row of exactly twelve fields whose eleventh is a number is a message, any other is not. The
  messages of a file are those of its rows, in order, stamped by the clock.
\<close>

definition row_message :: "(string \<Rightarrow> float64 option) \<Rightarrow> gotime \<Rightarrow> csv_read \<Rightarrow> TelemetryMessage option" where
  "row_message ParseFloat stamp row =
     (case row of
        CsvRecord f \<Rightarrow>
          if length f = 12 then
            map_option (\<lambda>value. \<lparr>pbTimestamp = Format_RFC3339Nano stamp, pbMetricName = f ! 1, pbGpuId = f ! 2, pbDevice = f ! 3,
              pbUuid = f ! 4, pbModelName = f ! 5, pbHostname = f ! 6, pbContainer = f ! 7, pbPod = f ! 8, pbNamespace = f ! 9,
              pbValue = value, pbLabelsRaw = f ! 11, pbId = 0, pbDeliveryAttempts = 0\<rparr>) (ParseFloat (f ! 10))
          else None
      | CsvError \<Rightarrow> None)"

fun row_messages :: "(string \<Rightarrow> float64 option) \<Rightarrow> (nat \<Rightarrow> gotime) \<Rightarrow> nat \<Rightarrow> csv_read list \<Rightarrow> TelemetryMessage list" where
  "row_messages ParseFloat clock k [] = []"
| "row_messages ParseFloat clock k (row # rows) =
     (case row_message ParseFloat (clock k) row of
        None \<Rightarrow> row_messages ParseFloat clock k rows
      | Some tmsg \<Rightarrow> tmsg # row_messages ParseFloat clock (Suc k) rows)"

lemma retry_wait_keeps:
  "retry_wait delay st = (r, st') \<Longrightarrow> stPublished st' = stPublished st \<and> stStamps st' = stStamps st \<and>
     rowsSkippedTotal st' = rowsSkippedTotal st \<and> rowsProducedTotal st' = rowsProducedTotal st \<and>
     (stSlept st' = stSlept st \<or> stSlept st' = stSlept st @ [delay])"
  by (auto simp: retry_wait_def Let_def split: list.splits if_splits)

definition keeps_counts :: "StreamerState \<Rightarrow> StreamerState \<Rightarrow> bool" where
  "keeps_counts st st' \<longleftrightarrow> stStamps st' = stStamps st \<and> rowsSkippedTotal st' = rowsSkippedTotal st"

lemma retry_wait_ret: "retry_wait delay st = (Some ret, st') \<Longrightarrow> ret \<noteq> RetNil"
  by (auto simp: retry_wait_def Let_def split: list.splits if_splits)

definition published :: "TelemetryMessage list \<Rightarrow> publish_ret \<Rightarrow> StreamerState \<Rightarrow> StreamerState \<Rightarrow> bool" where
  "published rest ret st st' \<longleftrightarrow> (\<exists>k \<le> length rest. stPublished st' = stPublished st @ take k rest \<and>
     (ret = RetNil \<longleftrightarrow> k = length rest) \<and> rowsProducedTotal st' = rowsProducedTotal st + int k \<and> keeps_counts st st')"

lemma publishedI:
  "k \<le> length rest \<Longrightarrow> stPublished st' = stPublished st @ take k rest \<Longrightarrow> (ret = RetNil \<longleftrightarrow> k = length rest) \<Longrightarrow>
     rowsProducedTotal st' = rowsProducedTotal st + int k \<Longrightarrow> keeps_counts st st' \<Longrightarrow> published rest ret st st'"
  unfolding published_def by (intro exI conjI)

lemma publishedE:
  assumes "published rest ret st st'"
  obtains k where "k \<le> length rest" "stPublished st' = stPublished st @ take k rest" "ret = RetNil \<longleftrightarrow> k = length rest"
    "rowsProducedTotal st' = rowsProducedTotal st + int k" "keeps_counts st st'"
  using assms unfolding published_def by (elim exE conjE) (rule that)

lemma published_none:
  "rest \<noteq> [] \<Longrightarrow> ret \<noteq> RetNil \<Longrightarrow> stPublished st' = stPublished st \<Longrightarrow> rowsProducedTotal st' = rowsProducedTotal st \<Longrightarrow>
     keeps_counts st st' \<Longrightarrow> published rest ret st st'"
  by (rule publishedI [of 0]) simp_all

lemma published_step:
  assumes "published (drop n rest) ret st1 st'" "n \<le> length rest" "stPublished st1 = stPublished st @ take n rest"
    "rowsProducedTotal st1 = rowsProducedTotal st + int n" "keeps_counts st st1"
  shows "published rest ret st st'"
  using assms(1)
proof (rule publishedE)
  fix k
  assume "k \<le> length (drop n rest)" "stPublished st' = stPublished st1 @ take k (drop n rest)"
    "ret = RetNil \<longleftrightarrow> k = length (drop n rest)" "rowsProducedTotal st' = rowsProducedTotal st1 + int k" "keeps_counts st1 st'"
  with assms(2-5) show ?thesis
    by (intro publishedI [of "n + k"]) (auto simp: take_add keeps_counts_def)
qed

lemma published_waiting:
  assumes "retry_wait delay st = (Some ret, st')" "rest \<noteq> []"
  shows "published rest ret st st'"
  using retry_wait_keeps [OF assms(1)] retry_wait_ret [OF assms(1)] assms(2)
  by (intro published_none) (simp_all add: keeps_counts_def)

lemma published_resumed:
  assumes "retry_wait delay st = (None, st1)" "published rest ret st1 st'"
  shows "published rest ret st st'"
  using published_step [of 0 rest ret st1 st' st] retry_wait_keeps [OF assms(1)] assms(2)
  by (simp add: keeps_counts_def)

text \<open>One wait and what follows it.\<close>

lemma published_retry:
  assumes "(case retry_wait delay st of (Some ret, st) \<Rightarrow> (ret, st) | (None, st) \<Rightarrow> again st) = (ret, st')" "rest \<noteq> []"
    and "\<And>st1. retry_wait delay st = (None, st1) \<Longrightarrow> again st1 = (ret, st') \<Longrightarrow> published rest ret st1 st'"
  shows "published rest ret st st'"
proof -
  obtain w st2 where w: "retry_wait delay st = (w, st2)" by (rule prod.exhaust)
  show ?thesis
  proof (cases w)
    case (Some r)
    with assms(1) w have "ret = r" "st' = st2" by simp_all
    with published_waiting [OF w [unfolded Some] assms(2)] show ?thesis by simp
  next
    case None
    note w = w [unfolded None]
    from assms(1) w have "again st2 = (ret, st')" by simp
    with assms(3) [OF w] have "published rest ret st2 st'" by blast
    with w show ?thesis by (rule published_resumed)
  qed
qed

text \<open>Whatever the queue answers, the retry loop publishes a prefix, and all of it exactly when it returns nil.\<close>

lemma batch_accepted_published:
  assumes "batch_retry_loop delay rest st = (ret, st')" "rest \<noteq> []" "stReplies st = Accepted n # replies"
    "\<not> (n < 0 \<or> n > int (length rest))"
    and IH: "\<And>st1 d rest'. stReplies st1 = replies \<Longrightarrow> batch_retry_loop d rest' st1 = (ret, st') \<Longrightarrow> published rest' ret st1 st'"
  shows "published rest ret st st'"
proof -
  note run = assms(1) [unfolded batch_retry_loop.simps [of delay rest st]]
  let ?st1 = "st\<lparr>stReplies := replies, rowsProducedTotal := rowsProducedTotal st + n,
    stPublished := stPublished st @ take (nat n) rest\<rparr>"
  let ?d = "if n > 0 then retryBase else delay"
  have "published (drop (nat n) rest) ret ?st1 st'"
  proof (cases "drop (nat n) rest = []")
    case True
    with run assms(2-4) show ?thesis by (intro publishedI [of 0]) (simp_all add: keeps_counts_def)
  next
    case more: False
    with run assms(2-4) have "(case retry_wait ?d ?st1 of (Some ret, st) \<Rightarrow> (ret, st)
        | (None, st) \<Rightarrow> batch_retry_loop (min (?d * 2) retryMax) (drop (nat n) rest) st) = (ret, st')" by (simp add: Let_def)
    then show ?thesis using more by (rule published_retry) (auto intro!: IH simp: retry_wait_replies)
  qed
  then show ?thesis by (rule published_step) (use assms(4) in \<open>auto simp: keeps_counts_def\<close>)
qed

lemma batch_failed_published:
  assumes "batch_retry_loop delay rest st = (ret, st')" "rest \<noteq> []" "stReplies st = RpcErr False # replies"
    and IH: "\<And>st1 d rest'. stReplies st1 = replies \<Longrightarrow> batch_retry_loop d rest' st1 = (ret, st') \<Longrightarrow> published rest' ret st1 st'"
  shows "published rest ret st st'"
proof -
  have "(case retry_wait delay (st\<lparr>stReplies := replies\<rparr>) of (Some ret, st) \<Rightarrow> (ret, st)
      | (None, st) \<Rightarrow> batch_retry_loop (min (delay * 2) retryMax) rest st) = (ret, st')"
    using assms(1) [unfolded batch_retry_loop.simps [of delay rest st]] assms(2,3) by (simp add: Let_def)
  then have "published rest ret (st\<lparr>stReplies := replies\<rparr>) st'" using assms(2)
    by (rule published_retry) (auto intro!: IH simp: retry_wait_replies)
  then show ?thesis by (simp add: published_def keeps_counts_def)
qed

lemma batch_retry_published:
  "batch_retry_loop delay rest st = (ret, st') \<Longrightarrow> published rest ret st st'"
proof (induction "length (stReplies st)" arbitrary: delay rest st rule: less_induct)
  case less
  note run = less.prems [unfolded batch_retry_loop.simps [of delay rest st]]
  consider "rest = []" | "rest \<noteq> []" "stReplies st = []" | reply replies where "rest \<noteq> []" "stReplies st = reply # replies"
    by (cases "stReplies st") auto
  then show ?case
  proof cases
    case 1
    with run show ?thesis by (intro publishedI [of 0]) (simp_all add: keeps_counts_def)
  next
    case 2
    with run show ?thesis by (intro published_none) (simp_all add: keeps_counts_def)
  next
    case 3
    have IH: "published rest' ret st1 st'" if "stReplies st1 = replies" "batch_retry_loop d rest' st1 = (ret, st')" for st1 d rest'
      using less.hyps [of st1 d rest'] that 3(2) by simp
    consider "reply = RpcErr True" | "reply = RpcErr False" | n where "reply = Accepted n" by (cases reply) auto
    then show ?thesis
    proof cases
      case 1
      with run 3 show ?thesis by (intro published_none) (auto simp: keeps_counts_def)
    next
      case 2
      with 3 show ?thesis using batch_failed_published [OF less.prems _ _ IH] by simp
    next
      case (3 n)
      show ?thesis
      proof (cases "n < 0 \<or> n > int (length rest)")
        case True
        with run 3 \<open>rest \<noteq> []\<close> \<open>stReplies st = reply # replies\<close> show ?thesis
          by (intro published_none) (auto simp: keeps_counts_def)
      next
        case False
        with 3 \<open>rest \<noteq> []\<close> \<open>stReplies st = reply # replies\<close> show ?thesis
          using batch_accepted_published [OF less.prems _ _ _ IH] by simp
      qed
    qed
  qed
qed

lemma unary_retry_published:
  "unary_retry_loop delay tmsg st = (ret, st') \<Longrightarrow>
     stPublished st' = stPublished st @ (if ret = RetNil then [tmsg] else []) \<and> keeps_counts st st'"
proof (induction "length (stReplies st)" arbitrary: delay st rule: less_induct)
  case less
  note run = less.prems [unfolded unary_retry_loop.simps [of delay tmsg st]]
  show ?case
  proof (cases "stReplies st")
    case Nil
    with run show ?thesis by (auto simp: keeps_counts_def)
  next
    case (Cons reply replies)
    let ?st = "st\<lparr>stReplies := replies\<rparr>"
    show ?thesis
    proof (cases reply)
      case (Accepted n)
      with run Cons show ?thesis by (auto simp: keeps_counts_def)
    next
      case (RpcErr c)
      obtain w st2 where w: "retry_wait delay ?st = (w, st2)" by (rule prod.exhaust)
      note keeps = retry_wait_keeps [OF w] retry_wait_replies [OF w]
      consider "c" | r where "\<not> c" "w = Some r" | "\<not> c" "w = None" by (cases w) auto
      then show ?thesis
      proof cases
        case 1
        with run Cons RpcErr show ?thesis by (auto simp: keeps_counts_def)
      next
        case 2
        with run Cons RpcErr w have "ret = r" "st' = st2" by (simp_all add: Let_def)
        with keeps retry_wait_ret [of delay ?st r st2] w 2 show ?thesis by (simp add: keeps_counts_def)
      next
        case 3
        with run Cons RpcErr w have "unary_retry_loop (min (delay * 2) retryMax) tmsg st2 = (ret, st')" by (simp add: Let_def)
        with less.hyps [of st2] keeps Cons show ?thesis by (simp add: keeps_counts_def)
      qed
    qed
  qed
qed

lemma streamer_flush_published:
  assumes "streamer_flush batch st = (r, batch', st')"
  shows "\<exists>rest. stPublished st' @ rest = stPublished st @ batch \<and> (r = None \<longrightarrow> rest = [] \<and> batch' = []) \<and> keeps_counts st st'"
proof (cases "batch = []")
  case True
  with assms show ?thesis by (simp add: streamer_flush_def keeps_counts_def)
next
  case False
  obtain ret st1 where p: "produceBatchWithRetry batch st = (ret, st1)" by (rule prod.exhaust)
  from batch_retry_published [OF p [unfolded produceBatchWithRetry_def]] obtain k where k: "k \<le> length batch"
    "stPublished st1 = stPublished st @ take k batch" "ret = RetNil \<longleftrightarrow> k = length batch" "keeps_counts st st1"
    by (rule publishedE)
  from assms False p have "st' = st1" "r = None \<longrightarrow> ret = RetNil \<and> batch' = []"
    by (auto simp: streamer_flush_def split: publish_ret.splits)
  with k show ?thesis by (intro exI [of _ "drop k batch"]) simp
qed

lemma publish_row_published:
  assumes "publish_row batchSize tmsg batch st = (r, batch', st')" "batchSize \<le> 1 \<longrightarrow> batch = []"
  shows "\<exists>rest. stPublished st' @ rest = stPublished st @ batch @ [tmsg] \<and>
    (r = None \<longrightarrow> rest = batch' \<and> (batchSize \<le> 1 \<longrightarrow> batch' = [])) \<and> keeps_counts st st'"
proof (cases "batchSize \<le> 1")
  case True
  obtain ret st1 where p: "produceWithRetry tmsg st = (ret, st1)" by (rule prod.exhaust)
  note u = unary_retry_published [OF p [unfolded produceWithRetry_def]]
  from assms True p have "stPublished st' = stPublished st1" "keeps_counts st1 st'" "r = None \<longrightarrow> ret = RetNil \<and> batch' = []"
    by (auto simp: publish_row_def keeps_counts_def split: publish_ret.splits)
  with u assms(2) True show ?thesis
    by (intro exI [of _ "if ret = RetNil then [] else [tmsg]"]) (auto simp: keeps_counts_def)
next
  case False
  show ?thesis
  proof (cases "int (length (batch @ [tmsg])) \<ge> batchSize")
    case True
    with assms(1) False have "streamer_flush (batch @ [tmsg]) st = (r, batch', st')" by (simp add: publish_row_def Let_def)
    from streamer_flush_published [OF this] False show ?thesis by auto
  next
    case False
    with assms(1) \<open>\<not> batchSize \<le> 1\<close> show ?thesis by (auto simp: publish_row_def Let_def keeps_counts_def)
  qed
qed

lemma loop_delay_keeps:
  "loop_delay ms st = (r, st') \<Longrightarrow> stPublished st' = stPublished st \<and> keeps_counts st st'"
  by (auto simp: loop_delay_def keeps_counts_def split: if_splits list.splits)

text \<open>Reading and converting a row meets the contract: it never indexes past the end of a record.\<close>

lemma csv_Read_row:
  "csv_Read row = None \<Longrightarrow> row_message ParseFloat t row = None"
  "csv_Read row = Some rec \<Longrightarrow>
     \<exists>res. recordToProto ParseFloat t rec = Some res \<and> row_message ParseFloat t row = (case res of Inl e \<Rightarrow> None | Inr m \<Rightarrow> Some m)"
proof -
  assume "csv_Read row = None"
  then show "row_message ParseFloat t row = None"
    by (cases row) (auto simp: csv_Read_def row_message_def split: if_splits)
next
  assume "csv_Read row = Some rec"
  then have rec: "row = CsvRecord rec" "length rec = 12" by (auto simp: csv_Read_def split: csv_read.splits if_splits)
  then show "\<exists>res. recordToProto ParseFloat t rec = Some res \<and>
      row_message ParseFloat t row = (case res of Inl e \<Rightarrow> None | Inr m \<Rightarrow> Some m)"
    by (simp add: row_message_def recordToProto_def index_def split: option.split)
qed

text \<open>The loop over the rows publishes a prefix of the messages of the batch and of the rows.\<close>

definition streamed :: "TelemetryMessage list \<Rightarrow> nat \<Rightarrow> StreamerState \<Rightarrow> TelemetryMessage list \<Rightarrow> publish_ret option \<Rightarrow> TelemetryMessage list \<Rightarrow> StreamerState \<Rightarrow> bool" where
  "streamed batch n st msgs r batch' st' \<longleftrightarrow> (\<exists>rest. stPublished st' @ rest = stPublished st @ batch @ msgs \<and>
     (r = None \<longrightarrow> rest = batch' \<and> stStamps st' = stStamps st + length msgs \<and>
        rowsSkippedTotal st' + length msgs = rowsSkippedTotal st + n))"

lemma stStamps_skip_row [simp]: "stStamps (skip_row st) = stStamps st"
  by (simp add: skip_row_def)

lemma streamed_skip:
  assumes "streamed batch n (skip_row st) msgs r batch' st'"
  shows "streamed batch (Suc n) st msgs r batch' st'"
  using assms by (auto simp: streamed_def skip_row_def)

lemma streamed_stop:
  assumes "stPublished st' @ rest = stPublished st @ batch @ [tmsg]" "r \<noteq> None"
  shows "streamed batch n st (tmsg # msgs) r batch' st'"
  unfolding streamed_def using assms by (intro exI [of _ "rest @ msgs"]) auto

lemma streamed_row:
  assumes "stPublished st1 @ b1 = stPublished st @ batch @ [tmsg]" "stStamps st1 = Suc (stStamps st)"
    "rowsSkippedTotal st1 = rowsSkippedTotal st" "streamed b1 n st1 msgs r batch' st'"
  shows "streamed batch (Suc n) st (tmsg # msgs) r batch' st'"
proof -
  from assms(4) obtain rest where rest: "stPublished st' @ rest = stPublished st1 @ b1 @ msgs"
    "r = None \<longrightarrow> rest = batch' \<and> stStamps st' = stStamps st1 + length msgs \<and>
       rowsSkippedTotal st' + length msgs = rowsSkippedTotal st1 + n"
    unfolding streamed_def by (elim exE conjE) (rule that)
  from rest(1) assms(1) have "stPublished st' @ rest = stPublished st @ batch @ tmsg # msgs" by (metis append.assoc append_Cons append_Nil)
  with rest(2) assms(2,3) show ?thesis unfolding streamed_def by (intro exI [of _ rest]) auto
qed

lemma rows_loop_streamed:
  "rows_loop ParseFloat clock loopDelayMS batchSize rows batch st = (r, batch', st') \<Longrightarrow> batchSize \<le> 1 \<longrightarrow> batch = [] \<Longrightarrow>
     streamed batch (length rows) st (row_messages ParseFloat clock (stStamps st) rows) r batch' st'"
proof (induction rows arbitrary: batch st)
  case Nil
  then show ?case by (auto simp: streamed_def)
next
  case (Cons row rows)
  show ?case
  proof (cases "csv_Read row")
    case None
    with Cons.prems Cons.IH [of batch "skip_row st"] csv_Read_row(1) [OF None] show ?thesis by (simp add: streamed_skip)
  next
    case rec: (Some rec)
    obtain res where res: "recordToProto ParseFloat (clock (stStamps st)) rec = Some res"
      "row_message ParseFloat (clock (stStamps st)) row = (case res of Inl e \<Rightarrow> None | Inr m \<Rightarrow> Some m)"
      using csv_Read_row(2) [OF rec] by blast
    show ?thesis
    proof (cases res)
      case (Inl err)
      with Cons.prems Cons.IH [of batch "skip_row st"] rec res show ?thesis by (simp add: streamed_skip)
    next
      case (Inr tmsg)
      let ?st = "st\<lparr>stStamps := Suc (stStamps st)\<rparr>"
      let ?msgs = "row_messages ParseFloat clock (Suc (stStamps st)) rows"
      obtain r1 b1 st1 where pub: "publish_row batchSize tmsg batch ?st = (r1, b1, st1)" by (metis prod.exhaust)
      from publish_row_published [OF pub Cons.prems(2)] obtain rest where
        rest: "stPublished st1 @ rest = stPublished ?st @ batch @ [tmsg]"
          "r1 = None \<longrightarrow> rest = b1 \<and> (batchSize \<le> 1 \<longrightarrow> b1 = [])" "keeps_counts ?st st1" by (elim exE conjE) (rule that)
      have msgs: "row_messages ParseFloat clock (stStamps st) (row # rows) = tmsg # ?msgs" using rec res Inr by simp
      note run = Cons.prems(1) [unfolded rows_loop.simps rec option.case res(1) Inr sum.case pub prod.case]
      show ?thesis
      proof (cases r1)
        case (Some ret)
        with run have "r = Some ret" "st' = st1" by simp_all
        with rest(1) show ?thesis unfolding msgs by (intro streamed_stop) simp_all
      next
        case None
        obtain r2 st2 where d: "loop_delay loopDelayMS st1 = (r2, st2)" by (rule prod.exhaust)
        note keeps = loop_delay_keeps [OF d]
        show ?thesis
        proof (cases r2)
          case (Some ret)
          with run None d have "r = Some ret" "st' = st2" by simp_all
          with rest(1) keeps show ?thesis unfolding msgs by (intro streamed_stop) simp_all
        next
          case go: None
          with run None d have "rows_loop ParseFloat clock loopDelayMS batchSize rows b1 st2 = (r, batch', st')" by simp
          from Cons.IH [OF this] rest None have "streamed b1 (length rows) st2 (row_messages ParseFloat clock (stStamps st2) rows) r batch' st'"
            by simp
          moreover have "stPublished st2 @ b1 = stPublished st @ batch @ [tmsg]" "stStamps st2 = Suc (stStamps st)"
            "rowsSkippedTotal st2 = rowsSkippedTotal st" using rest None keeps by (auto simp: keeps_counts_def)
          ultimately show ?thesis unfolding msgs using streamed_row by simp
        qed
      qed
    qed
  qed
qed

text \<open>The messages of a sequence of passes over the file.\<close>

definition pass_fails :: "pass_env \<Rightarrow> bool" where
  "pass_fails p \<longleftrightarrow> peCtxDone p \<or> peSeekErr p \<or>
     (\<forall>header rows. pass_records p = CsvRecord header # rows \<longrightarrow> length header \<noteq> 12)"

lemma not_pass_fails:
  "\<not> pass_fails p \<longleftrightarrow> \<not> peCtxDone p \<and> \<not> peSeekErr p \<and> (\<exists>h rows. pass_records p = h # rows \<and> csv_Read h \<noteq> None)"
proof -
  have "csv_Read h \<noteq> None \<longleftrightarrow> (\<exists>flds. h = CsvRecord flds \<and> length flds = 12)" for h
    by (cases h) (auto simp: csv_Read_def)
  then show ?thesis by (auto simp: pass_fails_def)
qed

fun pass_messages :: "(string \<Rightarrow> float64 option) \<Rightarrow> (nat \<Rightarrow> gotime) \<Rightarrow> nat \<Rightarrow> pass_env list \<Rightarrow> TelemetryMessage list" where
  "pass_messages ParseFloat clock k [] = []"
| "pass_messages ParseFloat clock k (p # ps) =
     (if pass_fails p then []
      else let ms = row_messages ParseFloat clock k (tl (pass_records p)) in ms @ pass_messages ParseFloat clock (k + length ms) ps)"

lemma streamer_flush_not_nil: "fst (streamer_flush batch st) \<noteq> Some RetNil"
  by (auto simp: streamer_flush_def split: prod.splits publish_ret.splits)

lemma publish_row_not_nil: "fst (publish_row batchSize tmsg batch st) \<noteq> Some RetNil"
  using streamer_flush_not_nil
  by (auto simp: publish_row_def Let_def split: prod.splits publish_ret.splits)

lemma loop_delay_not_nil: "fst (loop_delay ms st) \<noteq> Some RetNil"
  by (auto simp: loop_delay_def split: list.splits)

lemma rows_loop_not_nil: "fst (rows_loop ParseFloat clock loopDelayMS batchSize rows batch st) \<noteq> Some RetNil"
proof (induction rows arbitrary: batch st)
  case (Cons row rows)
  then show ?case
    using publish_row_not_nil loop_delay_not_nil
    by (auto split: option.splits sum.splits prod.splits) (metis fst_conv)+
qed simp

text \<open>One pass: the rows, then the rest of the batch.\<close>

lemma pass_streamed:
  assumes run: "rows_loop ParseFloat clock loopDelayMS batchSize rows [] st = (None, batch1, st1)"
    and flush: "streamer_flush batch1 st1 = (r, batch2, st2)"
  defines "ms \<equiv> row_messages ParseFloat clock (stStamps st) rows"
  shows "\<exists>rest. stPublished st2 @ rest = stPublished st @ ms \<and> (r = None \<longrightarrow> rest = [] \<and> batch2 = [])"
    "stStamps st2 = stStamps st + length ms" "rowsSkippedTotal st2 + length ms = rowsSkippedTotal st + length rows"
proof -
  from rows_loop_streamed [OF run] have s: "stPublished st1 @ batch1 = stPublished st @ ms"
    "stStamps st1 = stStamps st + length ms" "rowsSkippedTotal st1 + length ms = rowsSkippedTotal st + length rows"
    by (auto simp: streamed_def ms_def)
  from streamer_flush_published [OF flush] obtain rest where f: "stPublished st2 @ rest = stPublished st1 @ batch1"
    "r = None \<longrightarrow> rest = [] \<and> batch2 = []" "keeps_counts st1 st2" by (elim exE conjE) (rule that)
  from f(1,2) s(1) show "\<exists>rest. stPublished st2 @ rest = stPublished st @ ms \<and> (r = None \<longrightarrow> rest = [] \<and> batch2 = [])" by metis
  from f(3) s(2,3) show "stStamps st2 = stStamps st + length ms" "rowsSkippedTotal st2 + length ms = rowsSkippedTotal st + length rows"
    by (simp_all add: keeps_counts_def)
qed

lemma passes_prefix:
  "passes_loop ParseFloat clock loopDelayMS batchSize once ps [] st = (ret, st') \<Longrightarrow>
     \<exists>rest. stPublished st' @ rest = stPublished st @ pass_messages ParseFloat clock (stStamps st) ps"
proof (induction ps arbitrary: st)
  case Nil
  then show ?case by auto
next
  case (Cons p ps)
  show ?case
  proof (cases "pass_fails p")
    case True
    then have "peCtxDone p \<or> peSeekErr p \<or> pass_records p = [] \<or> csv_Read (hd (pass_records p)) = None"
      using not_pass_fails [of p] by (cases "pass_records p") auto
    with Cons.prems have "st' = st" by (auto split: list.splits if_splits)
    with True show ?thesis by simp
  next
    case ok: False
    then obtain h rows where lines: "pass_records p = h # rows" "csv_Read h \<noteq> None" "\<not> peCtxDone p" "\<not> peSeekErr p"
      by (auto simp: not_pass_fails)
    let ?ms = "row_messages ParseFloat clock (stStamps st) rows"
    let ?more = "pass_messages ParseFloat clock (stStamps st + length ?ms) ps"
    have all: "pass_messages ParseFloat clock (stStamps st) (p # ps) = ?ms @ ?more" using ok lines by (simp add: Let_def)
    obtain r1 b1 st1 where run: "rows_loop ParseFloat clock loopDelayMS batchSize rows [] st = (r1, b1, st1)" by (metis prod.exhaust)
    have "\<exists>rest. stPublished st' @ rest = stPublished st @ ?ms @ ?more"
    proof (cases r1)
      case (Some ret1)
      with Cons.prems lines run have "st' = st1" by simp
      moreover from rows_loop_streamed [OF run] obtain rest where "stPublished st1 @ rest = stPublished st @ ?ms"
        by (auto simp: streamed_def)
      ultimately show ?thesis by (metis append.assoc)
    next
      case None
      note run = run [unfolded None]
      obtain r2 b2 st2 where fl: "streamer_flush b1 st1 = (r2, b2, st2)" by (metis prod.exhaust)
      from pass_streamed(1) [OF run fl] obtain rest where rest: "stPublished st2 @ rest = stPublished st @ ?ms"
        "r2 = None \<longrightarrow> rest = [] \<and> b2 = []" by (elim exE conjE) (rule that)
      show ?thesis
      proof (cases "peReadErr p \<or> r2 \<noteq> None \<or> once")
        case False
        with Cons.prems lines run fl rest have "passes_loop ParseFloat clock loopDelayMS batchSize once ps [] st2 = (ret, st')" by auto
        from Cons.IH [OF this] rest(1) pass_streamed(2) [OF run fl] show ?thesis using False rest(2) by auto
      next
        case True
        with Cons.prems lines run fl have "st' = st2 \<or> st' = st1" by (auto split: option.splits if_splits)
        moreover from rows_loop_streamed [OF run] have "stPublished st1 @ b1 = stPublished st @ ?ms" by (auto simp: streamed_def)
        ultimately show ?thesis using rest(1) by (metis append.assoc)
      qed
    qed
    then show ?thesis unfolding all .
  qed
qed

section \<open>Panics\<close>

lemma retry_wait_no_panic: "fst (retry_wait delay st) \<noteq> Some (Panicked x)"
  by (auto simp: retry_wait_def Let_def split: list.splits)

text \<open>The replies that make the batch path panic claim a negative number or more than was sent.\<close>

definition overclaim :: "StreamerState \<Rightarrow> bool" where
  "overclaim st \<longleftrightarrow> (\<exists>n. Accepted n \<in> set (stReplies st) \<and> (n < 0 \<or> n > 1))"

definition panic_ok :: "bool \<Rightarrow> publish_ret option \<Rightarrow> StreamerState \<Rightarrow> StreamerState \<Rightarrow> bool" where
  "panic_ok batched r st st' \<longleftrightarrow> set (stReplies st') \<subseteq> set (stReplies st) \<and>
     (\<forall>x. r = Some (Panicked x) \<longrightarrow> x = SliceBounds \<and> batched \<and> overclaim st)"

lemma panic_ok_trans: "panic_ok c r1 st st1 \<Longrightarrow> panic_ok batched r st1 st' \<Longrightarrow> panic_ok batched r st st'"
  unfolding panic_ok_def overclaim_def by blast

lemma panic_ok_same: "stReplies st' = stReplies st \<Longrightarrow> (\<And>x. r \<noteq> Some (Panicked x)) \<Longrightarrow> panic_ok batched r st st'"
  by (simp add: panic_ok_def)

lemma panic_ok_retry:
  assumes "(case retry_wait delay st of (Some ret, st) \<Rightarrow> (ret, st) | (None, st) \<Rightarrow> again st) = (ret, st')"
    and "\<And>st1. stReplies st1 = stReplies st \<Longrightarrow> again st1 = (ret, st') \<Longrightarrow> panic_ok batched (Some ret) st1 st'"
  shows "panic_ok batched (Some ret) st st'"
proof -
  obtain w st2 where w: "retry_wait delay st = (w, st2)" by (rule prod.exhaust)
  note eq = retry_wait_replies [OF w]
  show ?thesis
  proof (cases w)
    case (Some r)
    with assms(1) w eq retry_wait_no_panic [of delay st] show ?thesis by (auto intro!: panic_ok_same)
  next
    case None
    with assms w eq have "panic_ok batched (Some ret) st2 st'" by simp
    with eq show ?thesis by (auto simp: panic_ok_def overclaim_def)
  qed
qed

lemma panic_ok_reply:
  "panic_ok batched r (st\<lparr>stReplies := replies\<rparr>) st' \<Longrightarrow> stReplies st = reply # replies \<Longrightarrow> panic_ok batched r st st'"
  by (auto simp: panic_ok_def overclaim_def)

lemma unary_no_panic: "unary_retry_loop delay tmsg st = (ret, st') \<Longrightarrow> panic_ok False (Some ret) st st'"
proof (induction "length (stReplies st)" arbitrary: delay st rule: less_induct)
  case less
  note run = less.prems [unfolded unary_retry_loop.simps [of delay tmsg st]]
  show ?case
  proof (cases "stReplies st")
    case Nil
    with run show ?thesis by (auto intro: panic_ok_same)
  next
    case (Cons reply replies)
    let ?st = "st\<lparr>stReplies := replies\<rparr>"
    have "panic_ok False (Some ret) ?st st'"
    proof (cases "reply = RpcErr False")
      case True
      with run Cons have "(case retry_wait delay ?st of (Some ret, st) \<Rightarrow> (ret, st)
          | (None, st) \<Rightarrow> unary_retry_loop (min (delay * 2) retryMax) tmsg st) = (ret, st')" by (simp add: Let_def)
      then show ?thesis by (rule panic_ok_retry) (use less.hyps Cons in auto)
    next
      case False
      with run Cons show ?thesis
        by (cases reply) (auto simp: Let_def intro!: panic_ok_same split: if_splits)
    qed
    then show ?thesis using Cons by (rule panic_ok_reply)
  qed
qed

lemma batch_no_panic: "batch_retry_loop delay rest st = (ret, st') \<Longrightarrow> panic_ok True (Some ret) st st'"
proof (induction "length (stReplies st)" arbitrary: delay rest st rule: less_induct)
  case less
  note run = less.prems [unfolded batch_retry_loop.simps [of delay rest st]]
  show ?case
  proof (cases "rest = [] \<or> stReplies st = []")
    case True
    with run show ?thesis by (auto intro!: panic_ok_same split: if_splits)
  next
    case False
    then obtain reply replies where ne: "rest \<noteq> []" and Cons: "stReplies st = reply # replies" by (cases "stReplies st") auto
    let ?st = "st\<lparr>stReplies := replies\<rparr>"
    have again: "panic_ok True (Some ret) st1 st'" if "stReplies st1 = replies"
      "(case retry_wait d st1 of (Some ret, st) \<Rightarrow> (ret, st) | (None, st) \<Rightarrow> batch_retry_loop d' rest' st) = (ret, st')" for st1 d d' rest'
      using that(2) by (rule panic_ok_retry) (use less.hyps Cons that(1) in auto)
    show ?thesis
    proof (cases reply)
      case (RpcErr c)
      have "panic_ok True (Some ret) ?st st'"
      proof (cases c)
        case True
        with run ne Cons RpcErr show ?thesis by (auto intro!: panic_ok_same)
      next
        case False
        with run ne Cons RpcErr show ?thesis by (intro again [where d = delay and d' = "min (delay * 2) retryMax" and rest' = rest]) (simp_all add: Let_def)
      qed
      then show ?thesis using Cons by (rule panic_ok_reply)
    next
      case (Accepted n)
      let ?st1 = "?st\<lparr>rowsProducedTotal := rowsProducedTotal st + n, stPublished := stPublished st @ take (nat n) rest\<rparr>"
      let ?d = "if n > 0 then retryBase else delay"
      consider "n < 0 \<or> n > int (length rest)" | "0 \<le> n" "n \<le> int (length rest)" "drop (nat n) rest = []" |
        "0 \<le> n" "n \<le> int (length rest)" "drop (nat n) rest \<noteq> []" by linarith
      then show ?thesis
      proof cases
        case 1
        moreover have "1 \<le> int (length rest)" using ne by (cases rest) simp_all
        ultimately have "n < 0 \<or> n > 1" by linarith
        then have "overclaim st" unfolding overclaim_def using Cons Accepted by (intro exI [of _ n]) simp
        with 1 run ne Cons Accepted show ?thesis by (auto simp: panic_ok_def)
      next
        case 2
        with run ne Cons Accepted show ?thesis by (auto simp: Let_def panic_ok_def)
      next
        case 3
        with run ne Cons Accepted have "(case retry_wait ?d ?st1 of (Some ret, st) \<Rightarrow> (ret, st)
            | (None, st) \<Rightarrow> batch_retry_loop (min (?d * 2) retryMax) (drop (nat n) rest) st) = (ret, st')" by (simp add: Let_def)
        from again [OF _ this] Cons show ?thesis by (auto simp: panic_ok_def overclaim_def)
      qed
    qed
  qed
qed

lemma streamer_flush_panic:
  assumes "streamer_flush batch st = (r, batch', st')"
  shows "panic_ok (batch \<noteq> []) r st st'"
proof (cases "batch = []")
  case True
  with assms show ?thesis by (auto simp: streamer_flush_def intro: panic_ok_same)
next
  case False
  obtain ret st1 where p: "produceBatchWithRetry batch st = (ret, st1)" by (rule prod.exhaust)
  from batch_no_panic [OF p [unfolded produceBatchWithRetry_def]] assms False p show ?thesis
    by (auto simp: streamer_flush_def panic_ok_def split: publish_ret.splits)
qed

lemma publish_row_panic:
  assumes "publish_row batchSize tmsg batch st = (r, batch', st')"
  shows "panic_ok (batchSize > 1) r st st'"
proof (cases "batchSize \<le> 1")
  case True
  obtain ret st1 where p: "produceWithRetry tmsg st = (ret, st1)" by (rule prod.exhaust)
  from unary_no_panic [OF p [unfolded produceWithRetry_def]] assms True p show ?thesis
    by (auto simp: publish_row_def panic_ok_def split: publish_ret.splits)
next
  case False
  then show ?thesis using assms streamer_flush_panic [of "batch @ [tmsg]" st r batch' st']
    by (auto simp: publish_row_def Let_def panic_ok_same split: if_splits)
qed

lemma loop_delay_panic: "loop_delay ms st = (r, st') \<Longrightarrow> panic_ok batched r st st'"
  by (auto simp: loop_delay_def intro!: panic_ok_same split: if_splits list.splits)

lemma rows_loop_panic:
  "rows_loop ParseFloat clock loopDelayMS batchSize rows batch st = (r, batch', st') \<Longrightarrow> panic_ok (batchSize > 1) r st st'"
proof (induction rows arbitrary: batch st)
  case Nil
  then show ?case by (auto intro: panic_ok_same)
next
  case (Cons row rows)
  have skip: "panic_ok (batchSize > 1) r st st'"
    if "rows_loop ParseFloat clock loopDelayMS batchSize rows batch (skip_row st) = (r, batch', st')"
    using Cons.IH [OF that] by (auto simp: panic_ok_def overclaim_def skip_row_def)
  show ?case
  proof (cases "csv_Read row")
    case None
    with Cons.prems skip show ?thesis by simp
  next
    case (Some rec)
    obtain res where res: "recordToProto ParseFloat (clock (stStamps st)) rec = Some res" using csv_Read_row(2) [OF Some] by blast
    show ?thesis
    proof (cases res)
      case (Inl err)
      with Cons.prems skip Some res show ?thesis by simp
    next
      case (Inr tmsg)
      obtain r1 b1 st1 where pub: "publish_row batchSize tmsg batch (st\<lparr>stStamps := Suc (stStamps st)\<rparr>) = (r1, b1, st1)"
        by (metis prod.exhaust)
      obtain r2 st2 where d: "loop_delay loopDelayMS st1 = (r2, st2)" by (rule prod.exhaust)
      have p1: "panic_ok (batchSize > 1) r1 st st1" using publish_row_panic [OF pub] by (auto simp: panic_ok_def overclaim_def)
      note p2 = panic_ok_trans [OF p1 loop_delay_panic [OF d]]
      from Cons.prems Some res Inr pub d show ?thesis
        using p1 p2 panic_ok_trans [OF p2 [of True] Cons.IH [of b1 st2]] by (cases r1; cases r2) auto
    qed
  qed
qed

lemma rows_loop_unary:
  "rows_loop ParseFloat clock loopDelayMS batchSize rows batch st = (None, batch', st') \<Longrightarrow> batchSize \<le> 1 \<Longrightarrow> batch' = batch"
proof (induction rows arbitrary: batch st)
  case (Cons row rows)
  then show ?case
    by (auto simp: publish_row_def split: option.splits sum.splits prod.splits publish_ret.splits)
qed simp

lemma passes_panic:
  "passes_loop ParseFloat clock loopDelayMS batchSize once ps [] st = (Returned ret, st') \<Longrightarrow> panic_ok (batchSize > 1) (Some ret) st st'"
proof (induction ps arbitrary: st)
  case Nil
  then show ?case by (auto intro: panic_ok_same)
next
  case (Cons p ps)
  show ?case
  proof (cases "pass_fails p")
    case True
    with Cons.prems not_pass_fails [of p] show ?thesis by (auto intro!: panic_ok_same split: if_splits list.splits)
  next
    case False
    then obtain h rows where lines: "pass_records p = h # rows" "csv_Read h \<noteq> None" "\<not> peCtxDone p" "\<not> peSeekErr p"
      by (auto simp: not_pass_fails)
    obtain r1 b1 st1 where run: "rows_loop ParseFloat clock loopDelayMS batchSize rows [] st = (r1, b1, st1)" by (metis prod.exhaust)
    obtain r2 b2 st2 where fl: "streamer_flush b1 st1 = (r2, b2, st2)" by (metis prod.exhaust)
    note p1 = rows_loop_panic [OF run]
    have "r1 = None \<Longrightarrow> panic_ok (batchSize > 1) r2 st1 st2"
      using streamer_flush_panic [OF fl] rows_loop_unary [of ParseFloat clock loopDelayMS batchSize rows "[]" st b1 st1] run
      by (cases "batchSize \<le> 1") (auto simp: panic_ok_def)
    then have p2: "r1 = None \<Longrightarrow> panic_ok (batchSize > 1) r2 st st2" using panic_ok_trans [OF p1] by blast
    have b2: "r2 = None \<Longrightarrow> b2 = []" using streamer_flush_published [OF fl] by auto
    show ?thesis
    proof (cases "r1 = None \<and> \<not> peReadErr p \<and> r2 = None \<and> \<not> once")
      case True
      with Cons.prems lines run fl b2 have "passes_loop ParseFloat clock loopDelayMS batchSize once ps [] st2 = (Returned ret, st')" by simp
      from Cons.IH [OF this] True p2 show ?thesis using panic_ok_trans by blast
    next
      case False
      with Cons.prems lines run fl p1 p2 show ?thesis
        by (cases r1; cases r2) (auto simp: panic_ok_def split: if_splits)
    qed
  qed
qed

lemma passes_spin:
  "passes_loop ParseFloat clock loopDelayMS batchSize once ps batch st = (Spins, st') \<Longrightarrow> \<exists>p \<in> set ps. peReadErr p"
proof (induction ps arbitrary: batch st)
  case (Cons p ps)
  then show ?case by (auto split: if_splits list.splits prod.splits option.splits)
qed simp

lemma passes_once:
  assumes "passes_loop ParseFloat clock loopDelayMS batchSize True ps [] st = (Returned RetNil, st')"
  shows "\<exists>p ps'. ps = p # ps' \<and> \<not> peReadErr p \<and>
     (let ms = row_messages ParseFloat clock (stStamps st) (tl (csv_records (peFile p))) in
      stPublished st' = stPublished st @ ms \<and>
      rowsSkippedTotal st' + length ms = rowsSkippedTotal st + length (tl (csv_records (peFile p))))"
proof -
  from assms obtain p ps' where ps: "ps = p # ps'" by (cases ps) auto
  with assms obtain h rows where lines: "pass_records p = h # rows" "csv_Read h \<noteq> None" "\<not> peCtxDone p" "\<not> peSeekErr p"
    by (auto split: if_splits list.splits)
  obtain r1 b1 st1 where rl: "rows_loop ParseFloat clock loopDelayMS batchSize rows [] st = (r1, b1, st1)" by (metis prod.exhaust)
  obtain r2 b2 st2 where fl: "streamer_flush b1 st1 = (r2, b2, st2)" by (metis prod.exhaust)
  have "r1 = None \<and> r2 = None \<and> st' = st2 \<and> \<not> peReadErr p"
    using assms ps lines rl fl rows_loop_not_nil [of ParseFloat clock loopDelayMS batchSize rows "[]" st]
      streamer_flush_not_nil [of b1 st1] by (auto split: option.splits if_splits)
  moreover from this lines(1) have "csv_records (peFile p) = h # rows" by (simp add: pass_records_def)
  ultimately show ?thesis
    using pass_streamed [of ParseFloat clock loopDelayMS batchSize rows st b1 st1 r2 b2 st2] rl fl ps by auto
qed

section \<open>Properties\<close>


definition slept_within :: "StreamerState \<Rightarrow> StreamerState \<Rightarrow> bool" where
  "slept_within st st' \<longleftrightarrow> (\<exists>ws. stSlept st' = stSlept st @ ws \<and> (\<forall>w \<in> set ws. retryBase \<le> w \<and> w \<le> retryMax))"

lemma slept_within_refl: "stSlept st' = stSlept st \<Longrightarrow> slept_within st st'"
  by (simp add: slept_within_def)

lemma slept_within_trans:
  assumes "slept_within st st1" "slept_within st1 st'"
  shows "slept_within st st'"
proof -
  from assms obtain ws vs where "stSlept st1 = stSlept st @ ws" "\<forall>w \<in> set ws. retryBase \<le> w \<and> w \<le> retryMax"
    "stSlept st' = stSlept st1 @ vs" "\<forall>w \<in> set vs. retryBase \<le> w \<and> w \<le> retryMax" by (auto simp: slept_within_def)
  then show ?thesis unfolding slept_within_def by (intro exI [of _ "ws @ vs"]) auto
qed

lemma retry_wait_slept:
  "retry_wait delay st = (r, st') \<Longrightarrow> retryBase \<le> delay \<Longrightarrow> delay \<le> retryMax \<Longrightarrow> slept_within st st'"
  using retry_wait_keeps [of delay st r st'] by (auto simp: slept_within_def)

lemma next_delay: "retryBase \<le> d \<Longrightarrow> d \<le> retryMax \<Longrightarrow> retryBase \<le> min (d * 2) retryMax \<and> min (d * 2) retryMax \<le> retryMax"
  by (auto simp: retryBase_def retryMax_def unit_simps)

lemma slept_retry:
  assumes "(case retry_wait delay st of (Some ret, st) \<Rightarrow> (ret, st) | (None, st) \<Rightarrow> again st) = (ret, st')"
    "retryBase \<le> delay" "delay \<le> retryMax"
    and "\<And>st1. retry_wait delay st = (None, st1) \<Longrightarrow> again st1 = (ret, st') \<Longrightarrow> slept_within st1 st'"
  shows "slept_within st st'"
proof -
  obtain w st2 where w: "retry_wait delay st = (w, st2)" by (rule prod.exhaust)
  have s: "slept_within st st2" using w assms(2,3) by (rule retry_wait_slept)
  show ?thesis
  proof (cases w)
    case (Some r)
    with assms(1) w s show ?thesis by simp
  next
    case None
    with assms(1) w have "again st2 = (ret, st')" by simp
    with assms(4) [OF w [unfolded None]] have "slept_within st2 st'" by blast
    with s show ?thesis by (rule slept_within_trans)
  qed
qed

lemma batch_retry_slept:
  "batch_retry_loop delay rest st = (ret, st') \<Longrightarrow> retryBase \<le> delay \<Longrightarrow> delay \<le> retryMax \<Longrightarrow> slept_within st st'"
proof (induction "length (stReplies st)" arbitrary: delay rest st rule: less_induct)
  case less
  note run = less.prems(1) [unfolded batch_retry_loop.simps [of delay rest st]]
  show ?case
  proof (cases "rest = [] \<or> stReplies st = []")
    case True
    with run show ?thesis by (auto intro: slept_within_refl split: if_splits)
  next
    case False
    then obtain reply replies where ne: "rest \<noteq> []" and Cons: "stReplies st = reply # replies" by (cases "stReplies st") auto
    let ?st = "st\<lparr>stReplies := replies\<rparr>"
    have IH: "slept_within st1 st'" if "stReplies st1 = replies" "retryBase \<le> d" "d \<le> retryMax"
      "batch_retry_loop (min (d * 2) retryMax) rest' st1 = (ret, st')" for st1 d rest'
      using less.hyps [of st1 "min (d * 2) retryMax" rest'] next_delay [of d] that Cons by simp
    have base: "retryBase \<le> retryBase" "retryBase \<le> retryMax" by (simp_all add: retryBase_def retryMax_def unit_simps)
    have again: "slept_within st1 st'" if "stReplies st1 = replies" "retryBase \<le> d" "d \<le> retryMax" "stSlept st1 = stSlept st"
      "(case retry_wait d st1 of (Some ret, st) \<Rightarrow> (ret, st) | (None, st) \<Rightarrow> batch_retry_loop (min (d * 2) retryMax) rest' st) = (ret, st')"
      for st1 d rest'
      using that(5,2,3) by (rule slept_retry) (use that in \<open>auto intro: IH simp: retry_wait_replies\<close>)
    have eq: "slept_within st1 st' = slept_within st st'" if "stSlept st1 = stSlept st" for st1
      using that by (simp add: slept_within_def)
    show ?thesis
    proof (cases reply)
      case (RpcErr c)
      with run ne Cons less.prems(2,3) show ?thesis
        using again [of ?st delay rest] eq [of ?st] by (cases c) (auto simp: Let_def intro: slept_within_refl)
    next
      case (Accepted n)
      let ?st1 = "?st\<lparr>rowsProducedTotal := rowsProducedTotal st + n, stPublished := stPublished st @ take (nat n) rest\<rparr>"
      let ?d = "if n > 0 then retryBase else delay"
      have d: "retryBase \<le> ?d" "?d \<le> retryMax" using less.prems(2,3) base by auto
      show ?thesis
      proof (cases "n < 0 \<or> n > int (length rest) \<or> drop (nat n) rest = []")
        case True
        with run ne Cons Accepted show ?thesis by (auto simp: Let_def intro: slept_within_refl split: if_splits)
      next
        case False
        with run ne Cons Accepted have "(case retry_wait ?d ?st1 of (Some ret, st) \<Rightarrow> (ret, st)
            | (None, st) \<Rightarrow> batch_retry_loop (min (?d * 2) retryMax) (drop (nat n) rest) st) = (ret, st')" by (simp add: Let_def)
        from again [OF _ d _ this] eq [of ?st1] show ?thesis by simp
      qed
    qed
  qed
qed

lemma batch_retry_recovers:
  assumes "\<forall>f \<in> set fails. f = RpcErr False \<or> f = Accepted 0" "msgs \<noteq> []"
    "stReplies st = fails @ Accepted (int (length msgs)) # replies" "stWaits st = replicate (length fails) False @ ws"
  shows "fst (batch_retry_loop delay msgs st) = RetNil"
  using assms
proof (induction fails arbitrary: delay st)
  case Nil
  then show ?case by (simp add: batch_retry_loop.simps [of delay] Let_def)
next
  case (Cons f fails)
  define st1 where "st1 = st\<lparr>stReplies := fails @ Accepted (int (length msgs)) # replies, produceRetriesTotal := Suc (produceRetriesTotal st),
      stWaits := replicate (length fails) False @ ws, stSlept := stSlept st @ [delay]\<rparr>"
  have "fst (batch_retry_loop (min (delay * 2) retryMax) msgs st1) = RetNil"
    using Cons by (intro Cons.IH) (simp_all add: st1_def)
  moreover have "batch_retry_loop delay msgs st = batch_retry_loop (min (delay * 2) retryMax) msgs st1"
    using Cons.prems by (auto simp: batch_retry_loop.simps [of delay] Let_def retry_wait_def st1_def)
  ultimately show ?case by simp
qed

text \<open>C39. Retrying a batch loses, repeats and reorders nothing it was told about: whatever the queue answers, the
  messages counted as published are the first ones of the batch, all of them exactly when the function
  returns nil; every wait is between 100 ms and 5 s; and as soon as the queue accepts the batch after any
  number of failures and empty acceptances, it returns nil.\<close>

theorem batch_retry_exact:
  assumes "produceBatchWithRetry msgs st = (ret, st')"
  shows "(\<exists>k \<le> length msgs. stPublished st' = stPublished st @ take k msgs \<and> (ret = RetNil \<longleftrightarrow> k = length msgs) \<and>
      rowsProducedTotal st' = rowsProducedTotal st + int k) \<and>
    (\<exists>ws. stSlept st' = stSlept st @ ws \<and> (\<forall>w \<in> set ws. 100 * Millisecond \<le> w \<and> w \<le> 5 * Second)) \<and>
    (\<forall>fails replies ws. msgs \<noteq> [] \<longrightarrow> (\<forall>f \<in> set fails. f = RpcErr False \<or> f = Accepted 0) \<longrightarrow>
       stReplies st = fails @ Accepted (int (length msgs)) # replies \<longrightarrow>
       stWaits st = replicate (length fails) False @ ws \<longrightarrow> ret = RetNil)"
proof (intro conjI allI impI)
  note run = assms [unfolded produceBatchWithRetry_def]
  from batch_retry_published [OF run] show "\<exists>k \<le> length msgs. stPublished st' = stPublished st @ take k msgs \<and>
      (ret = RetNil \<longleftrightarrow> k = length msgs) \<and> rowsProducedTotal st' = rowsProducedTotal st + int k" by (auto simp: published_def)
  from batch_retry_slept [OF run] show "\<exists>ws. stSlept st' = stSlept st @ ws \<and> (\<forall>w \<in> set ws. 100 * Millisecond \<le> w \<and> w \<le> 5 * Second)"
    by (simp add: slept_within_def retryBase_def retryMax_def unit_simps)
  show "ret = RetNil" if "msgs \<noteq> []" "\<forall>f \<in> set fails. f = RpcErr False \<or> f = Accepted 0"
    "stReplies st = fails @ Accepted (int (length msgs)) # replies" "stWaits st = replicate (length fails) False @ ws" for fails replies ws
    using batch_retry_recovers [OF that(2,1,3,4), of retryBase] run by simp
qed

text \<open>C40. What the streamer stamps the collector reads: for a clock reading in a four-digit year, the message of a
  CSV record is converted to the row with the UUID of the record as its GPU, the instant of the stamp to the
  nanosecond, and the metric name, value and labels of the record.\<close>

theorem streamed_record_is_readable:
  assumes "recordToProto ParseFloat stamp rec = Some (Inr tmsg)" "four_digit_year stamp"
  shows "\<exists>g. FromProto tmsg = Inr g \<and> Timestamp g = stamp \<and> GpuID g = rec ! 4 \<and> MetricName g = rec ! 1 \<and>
    ParseFloat (rec ! 10) = Some (Value g) \<and> Device g = rec ! 3 \<and> ModelName g = rec ! 5 \<and> Hostname g = rec ! 6 \<and>
    Container g = rec ! 7 \<and> Pod g = rec ! 8 \<and> Namespace g = rec ! 9 \<and> LabelsRaw g = rec ! 11"
proof -
  have "pbTimestamp tmsg = Format_RFC3339Nano stamp"
    using assms(1) by (auto simp: recordToProto_def index_eq_Some_iff split: option.splits bind_splits)
  then have "time_Parse RFC3339Nano (pbTimestamp tmsg) = Some stamp" using rfc3339nano_roundtrip [OF assms(2)] by simp
  with assms(1) show ?thesis
    by (auto simp: recordToProto_def FromProto_def index_eq_Some_iff Let_def split: option.splits bind_splits)
qed

section \<open>A file\<close>

definition demo_line :: "string \<Rightarrow> string \<Rightarrow> string" where
  "demo_line mn v = csv_line (map (\<lambda>f. (f = ''l'', f)) [''t'', mn, ''0'', ''nvidia0'', ''GPU-1'', ''H100'', ''h'', ''c'', ''p'', ''n'', v, ''l''])"

definition demo_file :: pass_env where
  "demo_file = \<lparr>peCtxDone = False, peSeekErr = False,
     peFile = demo_line ''metric_name'' ''value'' @ demo_line ''util'' ''1'' @ csv_line [(False, ''short'')] @ [newline] @ demo_line ''temp'' ''x'' @
       demo_line ''mem'' ''1'' @ [CHR ''b'', dquote, newline] @ demo_line ''power'' ''1'', peReadErr = False\<rparr>"

definition demo_float :: "string \<Rightarrow> float64 option" where
  "demo_float s = (if s = ''1'' then Some 0x3FF0000000000000 else None)"

definition demo_clock :: "nat \<Rightarrow> gotime" where
  "demo_clock k = int k"

text \<open>The queue takes nothing at first, then fails, then takes one message, then everything.\<close>

definition demo_streamer :: StreamerState where
  "demo_streamer = \<lparr>stReplies = [Accepted 0, RpcErr False, Accepted 1, Accepted 1, Accepted 1], stWaits = replicate 3 False, stPublished = [],
     stSlept = [], rowsProducedTotal = 0, rowsSkippedTotal = 0, produceRetriesTotal = 0, stStamps = 0\<rparr>"

lemma demo_stream_nil: "fst (StreamBatched demo_float demo_clock False 0 2 True [demo_file] demo_streamer) = Returned RetNil"
  by code_simp


theorem batch_retry_exact_witness:
  "fst (produceBatchWithRetry (row_messages demo_float demo_clock 0 (csv_records (demo_line ''util'' ''1''))) demo_streamer) = RetNil \<and>
   (\<exists>ws. stSlept (snd (produceBatchWithRetry (row_messages demo_float demo_clock 0 (csv_records (demo_line ''util'' ''1''))) demo_streamer)) = ws \<and>
     (\<forall>w \<in> set ws. 100 * Millisecond \<le> w \<and> w \<le> 5 * Second))"
proof -
  let ?msgs = "row_messages demo_float demo_clock 0 (csv_records (demo_line ''util'' ''1''))"
  obtain ret st' where run: "produceBatchWithRetry ?msgs demo_streamer = (ret, st')" by (rule prod.exhaust)
  have ne: "?msgs \<noteq> []" "int (length ?msgs) = 1" by code_simp+
  have fails: "\<forall>f \<in> set [Accepted 0, RpcErr False]. f = RpcErr False \<or> f = Accepted 0" by simp
  have st: "stReplies demo_streamer = [Accepted 0, RpcErr False] @ Accepted (int (length ?msgs)) # [Accepted 1, Accepted 1]"
    "stWaits demo_streamer = replicate (length [Accepted 0, RpcErr False]) False @ [False]" "stSlept demo_streamer = []"
    using ne by (simp_all add: demo_streamer_def numeral_3_eq_3)
  note exact = batch_retry_exact [OF run]
  have "ret = RetNil" using exact [THEN conjunct2, THEN conjunct2] ne(1) fails st(1,2) by blast
  moreover from exact have "\<exists>ws. stSlept st' = stSlept demo_streamer @ ws \<and> (\<forall>w \<in> set ws. 100 * Millisecond \<le> w \<and> w \<le> 5 * Second)" by blast
  ultimately show ?thesis using run st(3) by simp
qed

theorem streamed_record_is_readable_witness:
  "\<exists>tmsg g. recordToProto demo_float 1500 [''t'', ''util'', ''0'', ''d'', ''GPU-1'', ''m'', ''h'', ''c'', ''p'', ''n'', ''1'', ''l''] = Some (Inr tmsg) \<and>
     FromProto tmsg = Inr g \<and> Timestamp g = 1500 \<and> GpuID g = ''GPU-1''"
proof -
  let ?rec = "[''t'', ''util'', ''0'', ''d'', ''GPU-1'', ''m'', ''h'', ''c'', ''p'', ''n'', ''1'', ''l'']"
  obtain tmsg where t: "recordToProto demo_float 1500 ?rec = Some (Inr tmsg)"
    by (simp add: recordToProto_def demo_float_def)
  have "four_digit_year 1500" by (simp add: four_digit_year_def Second_def)
  from streamed_record_is_readable [OF t this] t show ?thesis by auto
qed

end
