(* ===== verification/Publishing.thy ===== *)
theory Publishing
  imports MQ_Server Streamer
begin

text \<open>
  The streamer's retries against the queue itself: the replies that \<open>produceBatchWithRetry\<close> sees are those
  \<open>ProduceBatch\<close> gives to the rest it sends, unless the network loses the call or its reply. Other producers,
  consumers, a drain and the sweeper act on the queue between two calls, between the admissions of one call
  and while one waits for room; the relation \<open>R\<close> bounds what they do.
\<close>

section \<open>Calls\<close>

text \<open>What becomes of a call: it is answered, the queue handles it but its reply is lost, or it never arrives.\<close>

datatype fate = Answered | ReplyLost | NotSent

text \<open>A round: what happens before the call, during it, its fate, and whether the streamer's context is done when an error arrives.\<close>

type_synonym round = "(MQServer \<Rightarrow> MQServer) \<times> batch_env \<times> fate \<times> bool"

record call =
  clReply :: batch_reply
  clFate :: fate
  clSent :: "TelemetryMessage list"
  clBefore :: MQServer
  clAfter :: MQServer

text \<open>A call that waits inside the queue has no reply, and the log ends, unless the connection fails.\<close>

fun publish_rounds :: "round list \<Rightarrow> TelemetryMessage list \<Rightarrow> MQServer \<Rightarrow> call list" where
  "publish_rounds [] rest s = []"
| "publish_rounds ((f, env, fate, ctxDone) # rounds) rest s =
     (let s0 = f s;
          failed = (\<lambda>s1. \<lparr>clReply = RpcErr ctxDone, clFate = fate, clSent = rest, clBefore = s0, clAfter = s1\<rparr> # publish_rounds rounds rest s1)
      in if rest = [] then []
         else if fate = NotSent then failed s0
         else (case ProduceBatch env (map Some rest) s0 of
                 None \<Rightarrow> []
               | Some (reply, s1) \<Rightarrow>
                   if fate = ReplyLost then failed s1
                   else (case reply of
                           Reply (a, r) \<Rightarrow>
                             \<lparr>clReply = Accepted (uint a), clFate = fate, clSent = rest, clBefore = s0, clAfter = s1\<rparr> #
                               publish_rounds rounds (drop (unat a) rest) s1
                         | Status c \<Rightarrow> failed s1
                         | rpc.Blocked \<Rightarrow> [])))"

definition rounds_within :: "(Broker \<Rightarrow> Broker \<Rightarrow> bool) \<Rightarrow> round list \<Rightarrow> bool" where
  "rounds_within R rounds \<longleftrightarrow> (\<forall>(f, env, fate, ctxDone) \<in> set rounds. (\<forall>s. R (store s) (store (f s))) \<and> batch_within R env)"

section \<open>What a call did\<close>

text \<open>
  The queue admitted a prefix of what was sent, in order: exactly as much as the reply says. An error hides an admission only when the
  reply was lost; any other failed call left the queue as it was, and so does every call with more than 1000
  messages, which is never accepted.
\<close>

definition call_ok :: "(Broker \<Rightarrow> Broker \<Rightarrow> bool) \<Rightarrow> call \<Rightarrow> bool" where
  "call_ok R c \<longleftrightarrow> broker_inv (store (clAfter c)) \<and>
     (\<exists>k b1. k \<le> length (clSent c) \<and> admitted_in_order R (store (clBefore c)) (take k (clSent c)) b1 \<and>
        refused_at b1 (store (clAfter c)) \<and>
        (case clReply c of
           Accepted n \<Rightarrow> n = int k
         | RpcErr d \<Rightarrow> clFate c \<noteq> ReplyLost \<longrightarrow> clAfter c = clBefore c)) \<and>
     (length (clSent c) > 1000 \<longrightarrow> clAfter c = clBefore c \<and> (\<exists>d. clReply c = RpcErr d))"

definition counted :: "call \<Rightarrow> nat" where
  "counted c = (case clReply c of Accepted n \<Rightarrow> nat n | RpcErr d \<Rightarrow> 0)"

text \<open>A log of calls: each sends what the ones before it left, on the queue that others left behind.\<close>

fun calls_ok :: "(Broker \<Rightarrow> Broker \<Rightarrow> bool) \<Rightarrow> Broker \<Rightarrow> TelemetryMessage list \<Rightarrow> call list \<Rightarrow> bool" where
  "calls_ok R b rest [] \<longleftrightarrow> True"
| "calls_ok R b rest (c # cs) \<longleftrightarrow>
     clSent c = rest \<and> rest \<noteq> [] \<and> R b (store (clBefore c)) \<and> call_ok R c \<and> calls_ok R (store (clAfter c)) (drop (counted c) rest) cs"

lemma calls_ok_take: "calls_ok R b rest cs \<Longrightarrow> calls_ok R b rest (take n cs)"
  by (induction cs arbitrary: b rest n) (auto simp: take_Cons split: nat.splits)

lemma call_ok_refl:
  assumes "rely R" "broker_inv (store s)"
  shows "call_ok R \<lparr>clReply = RpcErr d, clFate = fate, clSent = rest, clBefore = s, clAfter = s\<rparr>"
  using assms(2) rely.R_refl [OF assms(1), of "store s"]
  by (auto simp: call_ok_def refused_at_def intro!: exI [of _ "0 :: nat"] exI [of _ "store s"] admitted_in_order.nothing)

lemma call_ok_handled:
  assumes "broker_inv (store s1)" "length rest \<le> 1000" "k \<le> length rest" "admitted_in_order R (store s) (take k rest) b1" "refused_at b1 (store s1)"
    and "case reply of Accepted n \<Rightarrow> n = int k | RpcErr d \<Rightarrow> fate = ReplyLost"
  shows "call_ok R \<lparr>clReply = reply, clFate = fate, clSent = rest, clBefore = s, clAfter = s1\<rparr>"
  unfolding call_ok_def using assms by (intro conjI exI [of _ k] exI [of _ b1]) (auto split: batch_reply.splits)

lemma ProduceBatch_call:
  assumes "rely R" "batch_within R env" "broker_inv (store s)" "rest \<noteq> []"
  obtains (handled) reply s1 where "ProduceBatch env (map Some rest) s = Some (reply, s1)" "broker_inv (store s1)"
      "call_ok R \<lparr>clReply = RpcErr d, clFate = ReplyLost, clSent = rest, clBefore = s, clAfter = s1\<rparr>"
      "case reply of
         Reply (a, r) \<Rightarrow> call_ok R \<lparr>clReply = Accepted (uint a), clFate = Answered, clSent = rest, clBefore = s, clAfter = s1\<rparr>
       | Status c \<Rightarrow> s1 = s
       | rpc.Blocked \<Rightarrow> True"
proof (cases "IsShuttingDown s \<or> length rest > 1000")
  case True
  then have "\<exists>c. ProduceBatch env (map Some rest) s = Some (Status c, s)" by (auto simp: ProduceBatch_def maxBatchSize_def)
  then obtain c where c: "ProduceBatch env (map Some rest) s = Some (Status c, s)" ..
  show thesis by (rule handled [OF c assms(3)]) (simp_all add: call_ok_refl [OF assms(1,3)])
next
  case False
  then have small: "length rest \<le> 1000" "\<not> IsShuttingDown s" by simp_all
  from ProduceBatch_reply [OF assms(1-3) small(2) assms(4) small(1)] obtain reply s' where
    pb: "ProduceBatch env (map Some rest) s = Some (reply, s')" "batch_reply_ok R env rest s (reply, s')" by auto
  from pb(2) [unfolded batch_reply_ok_def fst_conv snd_conv] obtain k s1 b1 where
    k: "k \<le> length rest" "admitted_in_order R (store s) (take k rest) b1" "refused_at b1 (store s1)" "broker_inv (store s1)"
    "case reply of
        Reply (a, r) \<Rightarrow> unat a = k \<and> unat r = length rest - k \<and>
          s' = (if k > 0 then NotifyAll (s1\<lparr>produced := produced s1 + int k\<rparr>) else s1) \<and>
          (k < length rest \<longrightarrow> closed b1 \<or> int (used b1) = Capacity (cfg b1) \<or> gives_up (snd (snd (env k))))
      | rpc.Blocked \<Rightarrow> s' = s1 \<and> store s1 = b1 \<and> k < length rest \<and> Policy (cfg (store s)) = PolicyBlock
      | Status c \<Rightarrow> False" by (elim exE conjE) (rule that)
  have s': "store s' = store s1" using k(5) by (cases reply) (auto simp: NotifyAll_def)
  note ok = call_ok_handled [of s', unfolded s', OF k(4) small(1) k(1-3)]
  show thesis
  proof (rule handled [OF pb(1)])
    show "broker_inv (store s')" using k(4) s' by simp
    show "call_ok R \<lparr>clReply = RpcErr d, clFate = ReplyLost, clSent = rest, clBefore = s, clAfter = s'\<rparr>" by (rule ok) simp
    show "case reply of
         Reply (a, r) \<Rightarrow> call_ok R \<lparr>clReply = Accepted (uint a), clFate = Answered, clSent = rest, clBefore = s, clAfter = s'\<rparr>
       | Status c \<Rightarrow> s' = s
       | rpc.Blocked \<Rightarrow> True"
      using k(5) ok [where fate = Answered and reply = "Accepted (int k)"] by (auto simp flip: uint_nat split: rpc.splits)
  qed
qed

lemma publish_rounds_ok:
  assumes "rely R"
  shows "rounds_within R rounds \<Longrightarrow> broker_inv (store s) \<Longrightarrow> calls_ok R (store s) rest (publish_rounds rounds rest s)"
proof (induction rounds arbitrary: rest s)
  case (Cons r rounds)
  obtain f env fate ctxDone where r: "r = (f, env, fate, ctxDone)" by (metis prod.exhaust)
  have within: "rounds_within R rounds" "R (store s) (store (f s))" "batch_within R env"
    using Cons.prems(1) r by (auto simp: rounds_within_def)
  have inv: "broker_inv (store (f s))" using rely.R_safe [OF assms within(2) Cons.prems(2)] by simp
  show ?case
  proof (cases "rest = [] \<or> fate = NotSent")
    case True
    then show ?thesis
      using Cons.IH [OF within(1) inv, of rest] within(2) call_ok_refl [OF assms inv] by (auto simp: r counted_def Let_def)
  next
    case False
    then have ne: "rest \<noteq> []" "fate = Answered \<or> fate = ReplyLost" by (auto intro: fate.exhaust)
    obtain reply s1 where pb: "ProduceBatch env (map Some rest) (f s) = Some (reply, s1)" "broker_inv (store s1)"
      "call_ok R \<lparr>clReply = RpcErr ctxDone, clFate = ReplyLost, clSent = rest, clBefore = f s, clAfter = s1\<rparr>"
      "case reply of
         Reply (a, r) \<Rightarrow> call_ok R \<lparr>clReply = Accepted (uint a), clFate = Answered, clSent = rest, clBefore = f s, clAfter = s1\<rparr>
       | Status c \<Rightarrow> s1 = f s
       | rpc.Blocked \<Rightarrow> True" by (rule ProduceBatch_call [OF assms within(3) inv ne(1)])
    note IH = Cons.IH [OF within(1) pb(2)]
    from ne(2) show ?thesis
    proof
      assume "fate = ReplyLost"
      with IH [of rest] ne(1) pb(1,3) within(2) show ?thesis by (simp add: r counted_def Let_def)
    next
      assume "fate = Answered"
      with IH ne(1) pb within(2) call_ok_refl [OF assms inv] show ?thesis
        by (cases reply) (auto simp: r counted_def Let_def nat_uint_eq)
    qed
  qed
qed simp

section \<open>What the streamer makes of it\<close>

definition told :: "call list \<Rightarrow> TelemetryMessage list" where
  "told cs = concat (map (\<lambda>c. take (counted c) (clSent c)) cs)"

lemma told_simps [simp]: "told [] = []" "told (c # cs) = take (counted c) (clSent c) @ told cs"
  by (simp_all add: told_def)

text \<open>The retry loop makes the first calls of the log and counts what they were told.\<close>

definition follows :: "call list \<Rightarrow> TelemetryMessage list \<Rightarrow> publish_ret \<Rightarrow> StreamerState \<Rightarrow> StreamerState \<Rightarrow> bool" where
  "follows cs rest ret st st' \<longleftrightarrow> (\<exists>n \<le> length cs. stReplies st' = drop n (stReplies st) \<and>
     stPublished st' = stPublished st @ told (take n cs) \<and>
     rowsProducedTotal st' = rowsProducedTotal st + int (length (told (take n cs))) \<and>
     (ret = RetNil \<longleftrightarrow> told (take n cs) = rest)) \<and> (\<forall>x. ret \<noteq> Panicked x)"

lemma follows_stop:
  assumes "stReplies st' = stReplies st" "stPublished st' = stPublished st" "rowsProducedTotal st' = rowsProducedTotal st"
    "ret = RetNil \<longleftrightarrow> rest = []" "\<forall>x. ret \<noteq> Panicked x"
  shows "follows cs rest ret st st'"
  unfolding follows_def using assms by (intro conjI exI [of _ 0]) auto

lemma follows_call:
  assumes "follows cs (drop (counted c) rest) ret st1 st'" "clSent c = rest" "stReplies st = clReply c # stReplies st1" "counted c \<le> length rest"
    "stPublished st1 = stPublished st @ take (counted c) rest" "rowsProducedTotal st1 = rowsProducedTotal st + int (counted c)"
  shows "follows (c # cs) rest ret st st'"
proof -
  from assms(1) [unfolded follows_def] obtain n where n: "n \<le> length cs" "stReplies st' = drop n (stReplies st1)"
    "stPublished st' = stPublished st1 @ told (take n cs)"
    "rowsProducedTotal st' = rowsProducedTotal st1 + int (length (told (take n cs)))"
    "ret = RetNil \<longleftrightarrow> told (take n cs) = drop (counted c) rest" "\<forall>x. ret \<noteq> Panicked x" by (elim exE conjE) (rule that)
  have "take (counted c) rest @ told (take n cs) = rest \<longleftrightarrow> told (take n cs) = drop (counted c) rest"
    by (metis append_take_drop_id same_append_eq)
  with n assms(2-6) show ?thesis unfolding follows_def
    by (intro conjI exI [of _ "Suc n"]) (simp_all add: min_absorb2)
qed

text \<open>The wait after a call that did not finish the batch.\<close>

lemma follows_wait:
  assumes "(case retry_wait delay st of (Some ret, st) \<Rightarrow> (ret, st) | (None, st) \<Rightarrow> again st) = (ret, st')" "rest \<noteq> []"
    and "\<And>st1. stReplies st1 = stReplies st \<Longrightarrow> again st1 = (ret, st') \<Longrightarrow> follows cs rest ret st1 st'"
  shows "follows cs rest ret st st'"
proof -
  obtain w st2 where w: "retry_wait delay st = (w, st2)" by (rule prod.exhaust)
  note eq = retry_wait_replies [OF w] retry_wait_keeps [OF w]
  show ?thesis
  proof (cases w)
    case (Some r)
    with assms(1,2) w eq retry_wait_no_panic [of delay st] retry_wait_ret [of delay st r st2] show ?thesis
      by (intro follows_stop) auto
  next
    case None
    with assms(1) w have "again st2 = (ret, st')" by simp
    from assms(3) [OF eq(1) this] eq show ?thesis by (simp add: follows_def)
  qed
qed

lemma counted_le: "call_ok R c \<Longrightarrow> counted c \<le> length (clSent c)"
  by (auto simp: call_ok_def counted_def split: batch_reply.splits)

lemma retry_follows:
  assumes "calls_ok R b rest cs" "stReplies st = map clReply cs" "batch_retry_loop delay rest st = (ret, st')"
  shows "follows cs rest ret st st'"
  using assms
proof (induction cs arbitrary: b rest delay st)
  case Nil
  then show ?case by (intro follows_stop) (auto simp: batch_retry_loop.simps [of delay] split: if_splits)
next
  case (Cons c cs)
  from Cons.prems(1) have c: "clSent c = rest" "rest \<noteq> []" "call_ok R c" "calls_ok R (store (clAfter c)) (drop (counted c) rest) cs" by simp_all
  have le: "counted c \<le> length rest" using counted_le [OF c(3)] c(1) by simp
  note run = Cons.prems(3) [unfolded batch_retry_loop.simps [of delay rest st]]
  let ?st = "st\<lparr>stReplies := map clReply cs\<rparr>"
  show ?case
  proof (cases "clReply c")
    case (RpcErr d)
    then have zero: "counted c = 0" by (simp add: counted_def)
    have "follows cs rest ret ?st st'"
    proof (cases d)
      case True
      with run c(2) Cons.prems(2) RpcErr show ?thesis by (intro follows_stop) auto
    next
      case False
      with run c(2) Cons.prems(2) RpcErr have "(case retry_wait delay ?st of (Some ret, st) \<Rightarrow> (ret, st)
          | (None, st) \<Rightarrow> batch_retry_loop (min (delay * 2) retryMax) rest st) = (ret, st')" by (simp add: Let_def)
      then show ?thesis using c(2) by (rule follows_wait) (use Cons.IH [of "store (clAfter c)" rest] c(4) zero in simp)
    qed
    then show ?thesis using zero c(1) Cons.prems(2) by (intro follows_call [where ?st1.0 = ?st]) simp_all
  next
    case (Accepted n)
    with c(1,3) have n: "n = int (counted c)" by (auto simp: call_ok_def counted_def)
    let ?st1 = "?st\<lparr>rowsProducedTotal := rowsProducedTotal st + n, stPublished := stPublished st @ take (nat n) rest\<rparr>"
    let ?d = "if n > 0 then retryBase else delay"
    have "follows cs (drop (counted c) rest) ret ?st1 st'"
    proof (cases "drop (counted c) rest = []")
      case True
      with run c(2) Cons.prems(2) Accepted n le show ?thesis by (intro follows_stop) (auto simp: Let_def)
    next
      case False
      with run c(2) Cons.prems(2) Accepted n le have "(case retry_wait ?d ?st1 of (Some ret, st) \<Rightarrow> (ret, st)
          | (None, st) \<Rightarrow> batch_retry_loop (min (?d * 2) retryMax) (drop (counted c) rest) st) = (ret, st')"
        by (cases "counted c = 0") (simp_all add: Let_def cong: option.case_cong prod.case_cong)
      then show ?thesis using False by (rule follows_wait) (use Cons.IH [OF c(4)] in simp)
    qed
    then show ?thesis using c(1) le n Accepted Cons.prems(2) by (intro follows_call [where ?st1.0 = ?st1]) simp_all
  qed
qed

text \<open>C37. Streamer and queue agree: let the replies be those of the queue itself, under every overflow policy, with calls
  and replies that the network may lose, waits that may be cancelled, and other goroutines acting on the queue
  between the calls and inside them (any relation \<open>R\<close> that keeps the broker's invariant and configuration). The
  retry loop then makes the first calls of the log, each sending exactly what the ones before it left. Each answered call
  admitted to the main lane, in order, exactly the prefix its reply counts; what the streamer counts as published is
  these prefixes put together, and it returns nil exactly when they are the whole batch. A failed call admitted
  nothing, unless its reply was lost: then it may have admitted a prefix that is not counted and is sent again
  (at-least-once). The loop never panics, and a call with more than 1000 messages is never accepted and changes nothing.\<close>

theorem streamer_and_queue_agree:
  assumes "rely R" "rounds_within R rounds" "broker_inv (store s)" "log = publish_rounds rounds msgs s"
    "stReplies st = map clReply log" "produceBatchWithRetry msgs st = (ret, st')"
  shows "\<exists>n \<le> length log. stReplies st' = drop n (stReplies st) \<and> calls_ok R (store s) msgs (take n log) \<and>
      stPublished st' = stPublished st @ told (take n log) \<and>
      rowsProducedTotal st' = rowsProducedTotal st + int (length (told (take n log))) \<and>
      (ret = RetNil \<longleftrightarrow> told (take n log) = msgs) \<and> (\<forall>x. ret \<noteq> Panicked x)"
proof -
  have ok: "calls_ok R (store s) msgs log" unfolding assms(4) by (rule publish_rounds_ok [OF assms(1-3)])
  from retry_follows [OF ok assms(5) assms(6) [unfolded produceBatchWithRetry_def]] calls_ok_take [OF ok] show ?thesis
    unfolding follows_def by blast
qed

section \<open>A batch in three calls\<close>

text \<open>
  The queue has room for two of three messages. The reply of the first call, which admits both, is lost; a consumer
  takes one before the second call, which admits the first message again, and two more before the third.
\<close>

definition demo_rounds :: "round list" where
  "demo_rounds = [(id, \<lambda>_. (id, 0, []), ReplyLost, False), (demo_consume, \<lambda>_. (id, 0, []), Answered, False),
     (demo_consume \<circ> demo_consume, \<lambda>_. (id, 0, []), Answered, False)]"

definition demo_log :: "call list" where
  "demo_log = publish_rounds demo_rounds demo_batch demo_server"

definition demo_client :: StreamerState where
  "demo_client = demo_streamer\<lparr>stReplies := map clReply demo_log, stWaits := [False, False]\<rparr>"

lemma demo_rounds_within: "rounds_within broker_steps demo_rounds"
  using broker_steps_trans [OF demo_consume_steps demo_consume_steps] demo_consume_steps
  by (auto simp: rounds_within_def demo_rounds_def batch_within_def parked_within_def broker_steps.none)

theorem streamer_and_queue_agree_witness:
  "\<exists>n st'. map clReply demo_log = [RpcErr False, Accepted 1, Accepted 2] \<and>
     produceBatchWithRetry demo_batch demo_client = (RetNil, st') \<and>
     calls_ok broker_steps (store demo_server) demo_batch (take n demo_log) \<and> stPublished st' = demo_batch"
proof -
  obtain ret st' where run: "produceBatchWithRetry demo_batch demo_client = (ret, st')" by (rule prod.exhaust)
  have ev: "map clReply demo_log = [RpcErr False, Accepted 1, Accepted 2]" "stPublished demo_client = []"
    "fst (produceBatchWithRetry demo_batch demo_client) = RetNil" by code_simp+
  have replies: "stReplies demo_client = map clReply demo_log" by (simp add: demo_client_def)
  from streamer_and_queue_agree [OF others.rely_axioms demo_rounds_within demo_server_ok(1) demo_log_def replies run] obtain n where
    n: "calls_ok broker_steps (store demo_server) demo_batch (take n demo_log)"
      "stPublished st' = stPublished demo_client @ told (take n demo_log)" "ret = RetNil \<longleftrightarrow> told (take n demo_log) = demo_batch" by blast
  from run ev(3) have "ret = RetNil" by simp
  with n run ev(1,2) show ?thesis by (intro exI [of _ n] exI [of _ st']) simp
qed

end
