(* ===== verification/Broker_Payload.thy ===== *)
theory Broker_Payload
  imports Broker_Safety
begin

text \<open>
  What a message carries through the broker: apart from its delivery attempts, a message that any operation
  hands out, and every message a lane holds, is one that \<open>Enqueue\<close> admitted, under the id it was given.
\<close>

definition payload :: "TelemetryMessage \<Rightarrow> TelemetryMessage" where
  "payload m = m\<lparr>pbDeliveryAttempts := 0\<rparr>"

definition held :: "Broker \<Rightarrow> TelemetryMessage set" where
  "held b = payload ` (msg ` set (ring_content (main b)) \<union> (\<lambda>it. msg (ri_e it)) ` set (retry b) \<union>
     (\<lambda>(i, r). msg (lr_e r)) ` set (leases b) \<union> (\<lambda>it. msg (di_e it)) ` set (ring_content (dlq b)))"

lemma payload_attempts [simp]: "payload (m\<lparr>pbDeliveryAttempts := a\<rparr>) = payload m"
  by (simp add: payload_def)

lemma payload_id: "pbId (payload m) = pbId m"
  by (simp add: payload_def)

lemma held_upd [simp]:
  "held (b\<lparr>ticks := x_ticks\<rparr>) = held b"
  "held (b\<lparr>leaseExpired := x_leaseExpired\<rparr>) = held b"
  "held (b\<lparr>rejected := x_rejected\<rparr>) = held b"
  "held (b\<lparr>spaceCh := x_spaceCh\<rparr>) = held b"
  "held (b\<lparr>notify := x_notify\<rparr>) = held b"
  "held (b\<lparr>closed := x_closed\<rparr>) = held b"
  "held (b\<lparr>sweepStop := x_sweepStop\<rparr>) = held b"
  by (simp_all add: held_def)

lemma heldI [intro]:
  "e \<in> set (ring_content (main b)) \<Longrightarrow> payload (msg e) \<in> held b"
  "it \<in> set (retry b) \<Longrightarrow> payload (msg (ri_e it)) \<in> held b"
  "(i, rec) \<in> set (leases b) \<Longrightarrow> payload (msg (lr_e rec)) \<in> held b"
  "dit \<in> set (ring_content (dlq b)) \<Longrightarrow> payload (msg (di_e dit)) \<in> held b"
  unfolding held_def by force+

lemma held_subsetI:
  assumes "\<And>e. e \<in> set (ring_content (main b)) \<Longrightarrow> payload (msg e) \<in> X"
    "\<And>it. it \<in> set (retry b) \<Longrightarrow> payload (msg (ri_e it)) \<in> X"
    "\<And>i rec. (i, rec) \<in> set (leases b) \<Longrightarrow> payload (msg (lr_e rec)) \<in> X"
    "\<And>it. it \<in> set (ring_content (dlq b)) \<Longrightarrow> payload (msg (di_e it)) \<in> X"
  shows "held b \<subseteq> X"
  using assms unfolding held_def by auto

lemma held_delete: "held (b\<lparr>leases := AList.delete i (leases b)\<rparr>) \<subseteq> held b"
  by (rule held_subsetI) (auto simp: delete_set)

lemma held_lease: "map_of (leases b) i = Some rec \<Longrightarrow> payload (msg (lr_e rec)) \<in> held b"
  by (drule map_of_SomeD) auto

section \<open>Every operation\<close>

lemma requeue_held:
  assumes "broker_inv b" "requeue e delay b = Some b'"
  shows "held b' \<subseteq> insert (payload (msg e)) (held b)"
proof -
  have "ring_inv (dlq b)" "heap_inv retryKey (retry b)" using assms(1) by (simp_all add: broker_inv_def)
  from this(1) show ?thesis
  proof (cases rule: requeue_cases [where e = e and delay = delay])
    case (dead r)
    have "set (ring_content r) \<subseteq>
        insert \<lparr>di_e = e, reason = dlq_reason (MaxDeliveries (cfg b)), di_at = now b (ticks b)\<rparr> (set (ring_content (dlq b)))"
      unfolding dead(4) by (auto dest: in_set_tlD)
    with dead(5) assms(2) show ?thesis by (intro held_subsetI) auto
  next
    case again
    let ?it = "\<lparr>ri_e = e, visibleAt = now b (ticks b) + delay\<rparr>"
    have "set (heap_Push retryLess ?it (retry b)) = insert ?it (set (retry b))"
      using retry_lane.push_items [OF \<open>heap_inv retryKey (retry b)\<close>, of ?it] by (metis set_mset_add_mset_insert set_mset_mset)
    with again(2) assms(2) show ?thesis by (intro held_subsetI) auto
  qed
qed

lemma requeue_lease_held:
  assumes "broker_inv b" "map_of (leases b) i = Some rec"
    "requeue (lr_e rec) delay (b\<lparr>leases := AList.delete i (leases b)\<rparr>) = Some b'"
  shows "held b' \<subseteq> held b"
  using requeue_held [OF delete_lease(1) [OF assms(1,2)] assms(3)] held_delete [of i b] held_lease [OF assms(2)] by blast

lemma requeueLease_held:
  assumes "broker_inv b" "requeueLease i b = Some b'"
  shows "held b' \<subseteq> held b \<and> broker_inv b'"
proof -
  from assms(2) obtain rec where rec: "map_of (leases b) i = Some rec"
    "requeue (lr_e rec) (backoff (cfg b) (attempts (lr_e rec))) (b\<lparr>leases := AList.delete i (leases b)\<rparr>) = Some b'"
    by (auto simp: requeueLease_def split: Option.bind_splits)
  from requeueLease_move [OF assms(1) rec] have "lane_move b b'" by blast
  with requeue_lease_held [OF assms(1) rec] show ?thesis by (simp add: lane_move_broker_inv)
qed

lemma release_loop_held: "release_loop ids b = Some b' \<Longrightarrow> broker_inv b \<Longrightarrow> held b' \<subseteq> held b"
proof (induction ids b rule: release_loop.induct)
  case (2 i ids b)
  then obtain b1 where "requeueLease i b = Some b1" "release_loop ids b1 = Some b'" by (auto split: Option.bind_splits)
  with 2 requeueLease_held [of b i b1] show ?case by blast
qed simp

lemma sweep_loop_held: "sweep_loop ids n b = Some (k, b') \<Longrightarrow> broker_inv b \<Longrightarrow> held b' \<subseteq> held b"
proof (induction ids n b rule: sweep_loop.induct)
  case (2 i ids n b)
  then obtain b1 where "requeueLease i b = Some b1"
    "sweep_loop ids (Suc n) (b1\<lparr>leaseExpired := leaseExpired b1 + 1\<rparr>) = Some (k, b')" by (auto split: Option.bind_splits)
  with 2 requeueLease_held [of b i b1] show ?case by fastforce
qed simp

lemma SweepExpired_held: "SweepExpired b = Some (n, k, b') \<Longrightarrow> broker_inv b \<Longrightarrow> held b' \<subseteq> held b"
  by (auto simp: SweepExpired_def readClock_def Let_def split: Option.bind_splits dest!: sweep_loop_held)

lemma sweeper_check_held: "held (snd (sweeper_check b)) = held b"
  by (simp add: sweeper_check_def headVisible_eq)

lemma leaseEntry_held: "held (snd (leaseEntry c e b)) \<subseteq> insert (payload (msg e)) (held b)"
proof -
  have "\<forall>(i, r) \<in> set (leases b). payload (msg (lr_e r)) \<in> held b" by auto
  then have "\<forall>(i, r) \<in> set (leases (snd (leaseEntry c e b))). payload (msg (lr_e r)) \<in> insert (payload (msg e)) (held b)"
    unfolding leaseEntry_snd by simp (rule update_keys_inv; auto)
  moreover have "main (snd (leaseEntry c e b)) = main b" "retry (snd (leaseEntry c e b)) = retry b"
    "dlq (snd (leaseEntry c e b)) = dlq b" by (simp_all add: leaseEntry_snd)
  ultimately show ?thesis by (intro held_subsetI) auto
qed

lemma Lease_held:
  assumes "broker_inv b" "Lease c b = Some (r, b')"
  shows "held b' \<subseteq> held b \<and> (\<forall>m. r = Some m \<longrightarrow> payload m \<in> held b)"
  using assms(1)
proof (cases rule: Lease_cases [where c = c])
  case (retried it h)
  have items: "set (retry b) = insert it (set h)"
    using retry_lane.pop_items [OF _ retried(2)] assms(1) unfolding broker_inv_def
    by (metis set_mset_add_mset_insert set_mset_mset)
  let ?b = "b\<lparr>ticks := vis_ticks b, retry := h\<rparr>"
  have "held ?b \<subseteq> held b" using items by (intro held_subsetI) auto
  moreover have "payload (msg (ri_e it)) \<in> held b" using items by blast
  ultimately show ?thesis using leaseEntry_held [of c "ri_e it" ?b] retried(3) assms(2)
      leaseEntry_snd(2) [of c "ri_e it" ?b] by (cases "leaseEntry c (ri_e it) ?b") auto
next
  case (fresh e xs d)
  let ?b = "b\<lparr>ticks := vis_ticks b, main := d\<rparr>"
  have "held ?b \<subseteq> held b" using fresh(2,4) by (intro held_subsetI) auto
  moreover have "payload (msg e) \<in> held b" using fresh(2) by (intro heldI(1)) simp
  ultimately show ?thesis using leaseEntry_held [of c e ?b] fresh(6) assms(2)
      leaseEntry_snd(2) [of c e ?b] by (cases "leaseEntry c e ?b") auto
next
  case idle
  with assms(2) show ?thesis by auto
qed

lemma admitted_held: "admitted m b b' \<Longrightarrow> held b' \<subseteq> insert (payload (m\<lparr>pbId := nextID b + 1\<rparr>)) (held b)"
  by (rule held_subsetI) (auto simp: admitted_def)

lemma Enqueue_pass_held:
  assumes "broker_inv b" "Enqueue_pass m b = Some (r, b')"
  shows "held b' \<subseteq> held b \<union> (case r of Admitted m' \<Rightarrow> {payload m'} | _ \<Rightarrow> {})"
  using assms(1)
proof (cases rule: Enqueue_pass_cases [where m = m])
  case (evict e xs d b1 b2)
  have "held b1 \<subseteq> held b" using evict(4,5,7) by (intro held_subsetI) auto
  moreover have "nextID b1 = nextID b" using evict(5) by simp
  ultimately show ?thesis using admitted_held [OF evict(12)] evict(11) assms(2) by auto
qed (use assms(2) admitted_held in auto)

lemma DLQReplay_held:
  assumes "broker_inv b" "DLQReplay b = Some (n, b')"
  shows "held b' \<subseteq> held b"
proof (rule DLQReplay_ok [OF assms(1)])
  fix d r b2
  assume *: "DLQReplay b = Some (replay_count b, b2)" "b2 = b\<lparr>dlq := r, main := d\<rparr>"
    "ring_content d = ring_content (main b) @ map fresh_start (take (replay_count b) (ring_content (dlq b)))"
    "ring_content r = drop (replay_count b) (ring_content (dlq b))"
  have "set (ring_content r) \<subseteq> set (ring_content (dlq b))" unfolding *(4) by (rule set_drop_subset)
  moreover have "payload (msg e) \<in> held b" if "e \<in> set (ring_content d)" for e
    using that unfolding *(3) by (auto simp: fresh_start_def dest!: in_set_takeD)
  moreover have "b' = b\<lparr>dlq := r, main := d\<rparr>" using *(1,2) assms(2) by simp
  ultimately show ?thesis by (intro held_subsetI) auto
qed

section \<open>Runs\<close>

fun admitted_msg :: "op \<times> op_result \<Rightarrow> TelemetryMessage option" where
  "admitted_msg (OpEnqueue _, REnq (Admitted m)) = Some m"
| "admitted_msg _ = None"

definition handed_out :: "history \<Rightarrow> TelemetryMessage set" where
  "handed_out h = {m. \<exists>p. (p, RMsg (Some m)) \<in> set h}"

fun payloads :: "history \<Rightarrow> TelemetryMessage set" where
  "payloads [] = {}"
| "payloads (x # h) = (case admitted_msg x of Some m \<Rightarrow> insert (payload m) (payloads h) | None \<Rightarrow> payloads h)"

lemma payloads_admitted: "q \<in> payloads h \<Longrightarrow> \<exists>x \<in> set h. \<exists>m. admitted_msg x = Some m \<and> q = payload m"
  by (induction h) (auto split: option.splits)

lemma exec_held:
  assumes "broker_inv b" "exec p b = Some (r, b')"
  shows "held b' \<subseteq> held b \<union> (case admitted_msg (p, r) of Some m \<Rightarrow> {payload m} | None \<Rightarrow> {})"
    "r = RMsg (Some m) \<Longrightarrow> payload m \<in> held b"
proof -
  show "held b' \<subseteq> held b \<union> (case admitted_msg (p, r) of Some m \<Rightarrow> {payload m} | None \<Rightarrow> {})"
  proof (cases p)
    case (OpEnqueue m)
    with assms(2) obtain e where "Enqueue_pass m b = Some (e, b')" "r = REnq e" by auto
    with Enqueue_pass_held [OF assms(1), of m e b'] OpEnqueue show ?thesis by (cases e) simp_all
  next
    case (OpAck i c)
    with assms(2) held_delete [of i b] show ?thesis by (auto simp: Ack_def signalSpace_def split: option.splits if_splits)
  next
    case (OpReleaseLease i c)
    with assms show ?thesis
      by (auto simp: ReleaseLease_def split: option.splits if_splits Option.bind_splits dest: requeue_lease_held)
  next
    case (OpReleaseConsumer c)
    with assms show ?thesis by (auto simp: ReleaseConsumer_def Let_def split: Option.bind_splits dest: release_loop_held)
  next
    case (OpLease c)
    with assms(2) Lease_held [OF assms(1)] show ?thesis by auto
  next
    case OpDLQReplay
    with assms(2) DLQReplay_held [OF assms(1)] show ?thesis by auto
  next
    case OpSweepExpired
    with assms(2) SweepExpired_held [OF _ assms(1)] show ?thesis by auto
  next
    case OpTick
    with assms(2) show ?thesis by (auto simp: sweeper_check_held)
  next
    case (OpTimeout m)
    with assms(2) show ?thesis by (auto simp: Enqueue_wake_def)
  next
    case OpSetNotify
    with assms(2) show ?thesis by (auto simp: SetNotify_def)
  next
    case OpClose
    with assms(2) show ?thesis by (auto simp: Close_def signalSpace_def split: if_splits)
  qed
  show "payload m \<in> held b" if "r = RMsg (Some m)"
    using assms(2) that Lease_held [OF assms(1)] by (cases p) (auto simp: apfst_def map_prod_def split: prod.splits)
qed

text \<open>Every message a lane holds and every message handed out was admitted, with this id and these fields.\<close>

lemma run_payloads:
  assumes "broker_run tn c h b"
  shows "held b \<subseteq> payloads h \<and> payload ` handed_out h \<subseteq> payloads h"
  using assms
proof (induction rule: broker_run.induct)
  case (init b)
  then have "all_ids b = {#}" by (rule NewBroker_cases(4))
  then have "ring_content (main b) = []" "ring_content (dlq b) = []" "retry b = []" "leases b = []"
    unfolding ids_defs by simp_all
  then have "held b \<subseteq> {}" unfolding held_def by simp
  then show ?case by (simp add: handed_out_def)
next
  case (step h b p r b')
  have inv: "broker_inv b" using run_inv [OF step.hyps(1)] by simp
  have grow: "payloads h \<subseteq> payloads ((p, r) # h)" by (auto split: option.splits)
  have "held b' \<subseteq> payloads ((p, r) # h)"
    using exec_held(1) [OF inv step.hyps(2)] step.IH by (auto split: option.splits)
  moreover have "payload m \<in> payloads h" if "(p, r) = (p', RMsg (Some m))" for p' m
    using exec_held(2) [OF inv step.hyps(2)] that step.IH by auto
  moreover have "payload m \<in> payloads ((p, r) # h)" if "m \<in> handed_out h" for m using that step.IH grow by auto
  ultimately show ?case using grow by (auto simp: handed_out_def)
qed

lemma admits_msg: "admits x = (case admitted_msg x of Some m \<Rightarrow> {#pbId m#} | None \<Rightarrow> {#})"
  by (cases x rule: admits.cases) simp_all

lemma admitted_msg_id: "x \<in> set h \<Longrightarrow> admitted_msg x = Some m \<Longrightarrow> pbId m \<in># admitted_ids h"
  by (induction h) (auto simp: admits_msg)

lemma admitted_unique:
  assumes "\<forall>i. count (admitted_ids h) i \<le> 1" "x \<in> set h" "y \<in> set h" "admitted_msg x = Some m" "admitted_msg y = Some m'"
    "pbId m = pbId m'"
  shows "m = m'"
  using assms
proof (induction h)
  case (Cons z h)
  have tail: "count (admitted_ids h) i \<le> 1" "count (admits z) i + count (admitted_ids h) i \<le> 1" for i
    using Cons.prems(1) [rule_format, of i] by simp_all
  have no: "False" if "admitted_msg z = Some k" "w \<in> set h" "admitted_msg w = Some l" "pbId k = pbId l" for w k l
    using tail(2) [of "pbId k"] that admitted_msg_id [of w h l] by (simp add: admits_msg flip: count_greater_zero_iff)
  show ?case using Cons.IH Cons.prems(2-6) no [of m' x m] no [of m y m'] tail(1) by (metis option.inject set_ConsD)
qed simp

text \<open>So a message that was handed out is the admitted message of its id, up to the attempts.\<close>

lemma handed_out_is_admitted:
  assumes "broker_run tn c h b" "length h < 2 ^ 64 - 1" "m' \<in> handed_out h" "x \<in> set h" "admitted_msg x = Some m" "pbId m' = pbId m"
  shows "m' = m\<lparr>pbDeliveryAttempts := pbDeliveryAttempts m'\<rparr>"
proof -
  have "payload m' \<in> payloads h" using run_payloads [OF assms(1)] assms(3) by blast
  from payloads_admitted [OF this] obtain y k where y: "y \<in> set h" "admitted_msg y = Some k" "payload m' = payload k" by blast
  from run_ledger [OF assms(1,2)] ledger_unique(1) have one: "\<forall>i. count (admitted_ids h) i \<le> 1" by blast
  have "pbId k = pbId m" using y(3) assms(6) by (metis payload_id)
  with admitted_unique [OF one y(1) assms(4) y(2) assms(5)] have "payload m' = payload m" using y(3) by simp
  then show ?thesis by (cases m; cases m') (simp add: payload_def)
qed

end
