(* ===== verification/Telemetry_Db.thy ===== *)
theory Telemetry_Db
  imports Telemetry_Model
begin

text \<open>
  The database of the pipeline: the tables of \<open>pkg/db/migrations\<close>, the SQL statements of
  \<open>pkg/models/telemetry.go\<close> and \<open>pkg/db/read.go\<close> as functions on the rows of a table, and the read
  functions of \<open>pkg/db/read.go\<close> around them. The collation by which Postgres orders texts is an argument
  \<open>coll\<close>, of which a total order is required where it matters (locale \<open>collation\<close>); the outcome of a
  round trip is an argument \<open>net\<close>. The optional text columns may be NULL, \<open>None\<close>.
\<close>

section \<open>Tables\<close>

record metric_row =
  c_gpu_id :: string
  c_timestamp :: gotime
  c_metric_name :: string
  c_value :: float64
  c_device :: "string option"
  c_model_name :: "string option"
  c_hostname :: "string option"
  c_container :: "string option"
  c_pod :: "string option"
  c_namespace :: "string option"
  c_labels_raw :: "string option"

text \<open>The unique index \<open>uq_gpu_metrics_natural_key\<close>.\<close>

definition natural_key :: "metric_row \<Rightarrow> string \<times> string \<times> gotime" where
  "natural_key r = (c_gpu_id r, c_metric_name r, c_timestamp r)"

definition unique_keys :: "metric_row list \<Rightarrow> bool" where
  "unique_keys t \<longleftrightarrow> distinct (map natural_key t)"

text \<open>\<open>TIMESTAMPTZ\<close> has microseconds: an instant passed as a parameter loses the rest.\<close>

definition pg_timestamp :: "gotime \<Rightarrow> gotime" where
  "pg_timestamp t = t div 1000 * 1000"

section \<open>Writing\<close>

definition insert_row :: "GpuMetric \<Rightarrow> metric_row" where
  "insert_row m = \<lparr>c_gpu_id = GpuID m, c_timestamp = pg_timestamp (Timestamp m), c_metric_name = MetricName m,
     c_value = Value m, c_device = Some (Device m), c_model_name = Some (ModelName m),
     c_hostname = Some (Hostname m), c_container = Some (Container m), c_pod = Some (Pod m),
     c_namespace = Some (Namespace m), c_labels_raw = Some (LabelsRaw m)\<rparr>"

text \<open>\<open>INSERT INTO gpu_metrics ... ON CONFLICT (gpu_id, metric_name, timestamp) DO NOTHING\<close>.\<close>

definition InsertSQL :: "GpuMetric \<Rightarrow> metric_row list \<Rightarrow> metric_row list" where
  "InsertSQL m t =
     (let r = insert_row m in if natural_key r \<in> natural_key ` set t then t else t @ [r])"

text \<open>A row of \<open>gpu_metrics_dlq\<close>: the broker id and the attempts are signed columns.\<close>

record DLQRow =
  d_broker_id :: int
  d_delivery_attempts :: int
  d_payload :: string
  d_error :: string

definition DLQInsertSQL :: "DLQRow \<Rightarrow> DLQRow list \<Rightarrow> DLQRow list" where
  "DLQInsertSQL r t = t @ [r]"

section \<open>Round trips\<close>

text \<open>
  An error of the driver is an error response of the server, with its SQLSTATE, or anything else
  (a lost connection, a timeout). A query may fail at once, while a row is scanned, or after some rows.
\<close>

datatype db_error = PgError string string | ConnError string

datatype db_net = NetOk | NetQuery db_error | NetScan nat db_error | NetRows nat db_error

record 'a Rows =
  rowScans :: "(db_error + 'a) list"
  rowsErr :: "db_error option"

definition pool_Query :: "db_net \<Rightarrow> 'a list \<Rightarrow> db_error + 'a Rows" where
  "pool_Query net xs = (case net of
      NetOk \<Rightarrow> Inr \<lparr>rowScans = map Inr xs, rowsErr = None\<rparr>
    | NetQuery e \<Rightarrow> Inl e
    | NetScan n e \<Rightarrow> Inr \<lparr>rowScans = (map Inr xs)[n := Inl e], rowsErr = None\<rparr>
    | NetRows n e \<Rightarrow> Inr \<lparr>rowScans = map Inr (take n xs), rowsErr = Some e\<rparr>)"

text \<open>\<open>QueryRow(...).Scan\<close> on a one-row result.\<close>

definition pool_QueryRow :: "db_net \<Rightarrow> 'a \<Rightarrow> db_error + 'a" where
  "pool_QueryRow net x = (case net of
      NetOk \<Rightarrow> Inr x | NetQuery e \<Rightarrow> Inl e | NetScan n e \<Rightarrow> Inl e | NetRows n e \<Rightarrow> Inl e)"

text \<open>An error of the read functions: the context text and the driver's error it wraps.\<close>

datatype read_error = ReadError string db_error

section \<open>Ordering\<close>

fun insert_by :: "('a \<Rightarrow> 'a \<Rightarrow> bool) \<Rightarrow> 'a \<Rightarrow> 'a list \<Rightarrow> 'a list" where
  "insert_by R x [] = [x]"
| "insert_by R x (y # ys) = (if R x y then x # y # ys else y # insert_by R x ys)"

definition sort_by :: "('a \<Rightarrow> 'a \<Rightarrow> bool) \<Rightarrow> 'a list \<Rightarrow> 'a list" where
  "sort_by R xs = foldr (insert_by R) xs []"

text \<open>\<open>ORDER BY timestamp DESC, metric_name DESC\<close>: does the first row stand before the second?\<close>

definition newest_first :: "(string \<Rightarrow> string \<Rightarrow> bool) \<Rightarrow> metric_row \<Rightarrow> metric_row \<Rightarrow> bool" where
  "newest_first coll a b \<longleftrightarrow>
     c_timestamp b < c_timestamp a \<or> c_timestamp a = c_timestamp b \<and> coll (c_metric_name b) (c_metric_name a)"

text \<open>\<open>(timestamp, metric_name) < ($4, $5)\<close>.\<close>

definition row_before :: "(string \<Rightarrow> string \<Rightarrow> bool) \<Rightarrow> gotime \<Rightarrow> string \<Rightarrow> metric_row \<Rightarrow> bool" where
  "row_before coll ts mn r \<longleftrightarrow>
     c_timestamp r < ts \<or> c_timestamp r = ts \<and> c_metric_name r \<noteq> mn \<and> coll (c_metric_name r) mn"

section \<open>Reading\<close>

fun scanIds :: "string list \<Rightarrow> (db_error + string) list \<Rightarrow> db_error option \<Rightarrow> read_error + string list" where
  "scanIds ids [] err = (case err of
      Some e \<Rightarrow> Inl (ReadError ''db: DistinctGPUIDs: rows'' e)
    | None \<Rightarrow> Inr ids)"
| "scanIds ids (Inl e # rs) err = Inl (ReadError ''db: DistinctGPUIDs: scan'' e)"
| "scanIds ids (Inr r # rs) err = scanIds (ids @ [r]) rs err"

definition DistinctGPUIDs :: "(string \<Rightarrow> string \<Rightarrow> bool) \<Rightarrow> db_net \<Rightarrow> metric_row list \<Rightarrow> read_error + string list" where
  "DistinctGPUIDs coll net t =
     (case pool_Query net (sort_by coll (remdups (map c_gpu_id t))) of
        Inl e \<Rightarrow> Inl (ReadError ''db: DistinctGPUIDs: query'' e)
      | Inr rows \<Rightarrow> scanIds [] (rowScans rows) (rowsErr rows))"

definition GPUExists :: "db_net \<Rightarrow> metric_row list \<Rightarrow> string \<Rightarrow> read_error + bool" where
  "GPUExists net t gid =
     (case pool_QueryRow net (gid \<in> c_gpu_id ` set t) of
        Inl e \<Rightarrow> Inl (ReadError ''db: GPUExists'' e)
      | Inr b \<Rightarrow> Inr b)"

text \<open>The predicate of the window, with a missing bound as NULL.\<close>

definition in_window :: "gotime option \<Rightarrow> gotime option \<Rightarrow> metric_row \<Rightarrow> bool" where
  "in_window start stop r \<longleftrightarrow>
     (case start of None \<Rightarrow> True | Some s \<Rightarrow> pg_timestamp s \<le> c_timestamp r) \<and>
     (case stop of None \<Rightarrow> True | Some e \<Rightarrow> c_timestamp r \<le> pg_timestamp e)"

definition TelemetryCount ::
  "db_net \<Rightarrow> metric_row list \<Rightarrow> string \<Rightarrow> gotime option \<Rightarrow> gotime option \<Rightarrow> read_error + int" where
  "TelemetryCount net t gid start stop =
     (let total =
        (if start = None \<and> stop = None
         then pool_QueryRow net (int (length (filter (\<lambda>r. c_gpu_id r = gid) t)))
         else pool_QueryRow net (int (length (filter (\<lambda>r. c_gpu_id r = gid \<and> in_window start stop r) t))))
      in case total of
           Inl e \<Rightarrow> Inl (ReadError ''db: TelemetryCount'' e)
         | Inr n \<Rightarrow> Inr n)"

text \<open>The selected columns: NULL texts become empty strings.\<close>

definition COALESCE :: "string option \<Rightarrow> string" where
  "COALESCE v = (case v of Some s \<Rightarrow> s | None \<Rightarrow> '''')"

definition cols :: "metric_row \<Rightarrow> GpuMetric" where
  "cols r = \<lparr>GpuID = c_gpu_id r, Timestamp = c_timestamp r, MetricName = c_metric_name r, Value = c_value r,
     Device = COALESCE (c_device r), ModelName = COALESCE (c_model_name r), Hostname = COALESCE (c_hostname r),
     Container = COALESCE (c_container r), Pod = COALESCE (c_pod r), Namespace = COALESCE (c_namespace r),
     LabelsRaw = COALESCE (c_labels_raw r)\<rparr>"

fun scan_loop :: "GpuMetric list \<Rightarrow> (db_error + GpuMetric) list \<Rightarrow> db_error option \<Rightarrow> read_error + GpuMetric list" where
  "scan_loop result [] err = (case err of
      Some e \<Rightarrow> Inl (ReadError ''db: telemetry rows'' e)
    | None \<Rightarrow> Inr result)"
| "scan_loop result (Inl e # rs) err = Inl (ReadError ''db: telemetry scan'' e)"
| "scan_loop result (Inr m # rs) err = scan_loop (result @ [m]) rs err"

definition scanMetrics :: "GpuMetric Rows \<Rightarrow> read_error + GpuMetric list" where
  "scanMetrics rows = scan_loop [] (rowScans rows) (rowsErr rows)"

text \<open>\<open>LIMIT\<close> and \<open>OFFSET\<close>: the server refuses negative values.\<close>

definition limit_query :: "db_net \<Rightarrow> int \<Rightarrow> int \<Rightarrow> 'a list \<Rightarrow> db_error + 'a Rows" where
  "limit_query net limit offset xs =
     (if offset < 0 then Inl (PgError ''2201X'' ''OFFSET must not be negative'')
      else if limit < 0 then Inl (PgError ''2201W'' ''LIMIT must not be negative'')
      else pool_Query net (take (nat limit) (drop (nat offset) xs)))"

definition Telemetry ::
  "(string \<Rightarrow> string \<Rightarrow> bool) \<Rightarrow> db_net \<Rightarrow> metric_row list \<Rightarrow> string \<Rightarrow> gotime option \<Rightarrow> gotime option \<Rightarrow>
   int \<Rightarrow> int \<Rightarrow> read_error + GpuMetric list" where
  "Telemetry coll net t gid start stop limit offset =
     (let rows =
        (if start = None \<and> stop = None
         then limit_query net limit offset
           (map cols (sort_by (newest_first coll) (filter (\<lambda>r. c_gpu_id r = gid) t)))
         else limit_query net limit offset
           (map cols (sort_by (newest_first coll) (filter (\<lambda>r. c_gpu_id r = gid \<and> in_window start stop r) t))))
      in case rows of
           Inl e \<Rightarrow> Inl (ReadError ''db: Telemetry: query'' e)
         | Inr rows \<Rightarrow> scanMetrics rows)"

definition TelemetryAfter ::
  "(string \<Rightarrow> string \<Rightarrow> bool) \<Rightarrow> db_net \<Rightarrow> metric_row list \<Rightarrow> string \<Rightarrow> gotime option \<Rightarrow> gotime option \<Rightarrow>
   gotime \<Rightarrow> string \<Rightarrow> int \<Rightarrow> read_error + GpuMetric list" where
  "TelemetryAfter coll net t gid start stop cursorTS cursorMetric limit =
     (case limit_query net limit 0
        (map cols (sort_by (newest_first coll)
          (filter (\<lambda>r. c_gpu_id r = gid \<and> in_window start stop r \<and>
             row_before coll (pg_timestamp cursorTS) cursorMetric r) t))) of
        Inl e \<Rightarrow> Inl (ReadError ''db: TelemetryAfter: query'' e)
      | Inr rows \<Rightarrow> scanMetrics rows)"

section \<open>What the reads return\<close>

lemma scanIds_eq:
  "scanIds ids (map Inr xs) err = (case err of
     None \<Rightarrow> Inr (ids @ xs) | Some e \<Rightarrow> Inl (ReadError ''db: DistinctGPUIDs: rows'' e))"
  by (induction xs arbitrary: ids) (auto split: option.split)

lemma scan_loop_eq:
  "scan_loop r (map Inr xs) err = (case err of
     None \<Rightarrow> Inr (r @ xs) | Some e \<Rightarrow> Inl (ReadError ''db: telemetry rows'' e))"
  by (induction xs arbitrary: r) (auto split: option.split)

lemma scan_loop_fails: "n < length xs \<Longrightarrow> scan_loop r ((map Inr xs)[n := Inl e]) None = Inl (ReadError ''db: telemetry scan'' e)"
  by (induction xs arbitrary: n r) (auto split: nat.split)

lemma scanMetrics_ok [simp]: "scanMetrics \<lparr>rowScans = map Inr xs, rowsErr = None\<rparr> = Inr xs"
  by (simp add: scanMetrics_def scan_loop_eq)

definition window_rows :: "metric_row list \<Rightarrow> string \<Rightarrow> gotime option \<Rightarrow> gotime option \<Rightarrow> metric_row list" where
  "window_rows t gid start stop = filter (\<lambda>r. c_gpu_id r = gid \<and> in_window start stop r) t"

lemma in_window_None [simp]: "in_window None None r"
  by (simp add: in_window_def)

text \<open>The two queries of each function are one query: without bounds the window is everything.\<close>

lemma TelemetryCount_eq: "TelemetryCount NetOk t gid start stop = Inr (int (length (window_rows t gid start stop)))"
  by (auto simp: TelemetryCount_def Let_def pool_QueryRow_def window_rows_def)

lemma Telemetry_eq:
  "0 \<le> limit \<Longrightarrow> 0 \<le> offset \<Longrightarrow> Telemetry coll NetOk t gid start stop limit offset =
     Inr (map cols (take (nat limit) (drop (nat offset) (sort_by (newest_first coll) (window_rows t gid start stop)))))"
  by (auto simp: Telemetry_def Let_def limit_query_def pool_Query_def window_rows_def take_map drop_map simp del: map_map)

lemma TelemetryAfter_eq:
  "0 \<le> limit \<Longrightarrow> TelemetryAfter coll NetOk t gid start stop ts mn limit =
     Inr (map cols (take (nat limit) (sort_by (newest_first coll)
       (filter (row_before coll (pg_timestamp ts) mn) (window_rows t gid start stop)))))"
  by (simp add: TelemetryAfter_def limit_query_def pool_Query_def window_rows_def take_map conj_assoc del: map_map)

section \<open>Sorting\<close>

lemma mset_insert_by [simp]: "mset (insert_by R x xs) = add_mset x (mset xs)"
  by (induction xs) auto

lemma mset_sort_by [simp]: "mset (sort_by R xs) = mset xs"
  by (induction xs) (simp_all add: sort_by_def)

lemma set_sort_by [simp]: "set (sort_by R xs) = set xs"
  by (metis mset_sort_by set_mset_mset)

lemma length_sort_by [simp]: "length (sort_by R xs) = length xs"
  by (metis mset_sort_by size_mset)

lemma sorted_insert_by:
  assumes total: "\<And>a b. R a b \<or> R b a" and trans: "\<And>a b c. R a b \<Longrightarrow> R b c \<Longrightarrow> R a c"
    and "sorted_wrt R xs"
  shows "sorted_wrt R (insert_by R x xs)"
  using assms(3)
proof (induction xs)
  case (Cons y ys)
  have set: "set (insert_by R x ys) = insert x (set ys)" by (metis mset_insert_by set_mset_add_mset_insert set_mset_mset)
  show ?case
  proof (cases "R x y")
    case True
    with Cons.prems trans show ?thesis by auto
  next
    case False
    with total have "R y x" by blast
    with False Cons set show ?thesis by auto
  qed
qed simp

lemma sorted_sort_by:
  assumes "\<And>a b. R a b \<or> R b a" "\<And>a b c. R a b \<Longrightarrow> R b c \<Longrightarrow> R a c"
  shows "sorted_wrt R (sort_by R xs)"
  by (induction xs) (simp_all add: sort_by_def sorted_insert_by [of R, OF assms])

lemma sorted_wrt_mset_unique:
  assumes "sorted_wrt R xs" "sorted_wrt R ys" "mset xs = mset ys"
    "\<And>a b. a \<in> set xs \<Longrightarrow> b \<in> set xs \<Longrightarrow> R a b \<Longrightarrow> R b a \<Longrightarrow> a = b"
  shows "xs = ys"
  using assms
proof (induction xs arbitrary: ys)
  case (Cons x xs)
  then obtain y ys' where ys: "ys = y # ys'" by (cases ys) auto
  have eq: "x = y"
  proof (rule ccontr)
    assume ne: "x \<noteq> y"
    from Cons.prems(3) have "x \<in> set (y # ys')" "y \<in> set (x # xs)" unfolding ys
      by (metis list.set_intros(1) mset_eq_setD)+
    with ne Cons.prems(1,2) ys have "R y x" "R x y" by auto
    with Cons.prems(4) [of x y] \<open>y \<in> set (x # xs)\<close> ne show False by simp
  qed
  with Cons ys show ?case by simp
qed simp

section \<open>Keyset pages\<close>

text \<open>What a well-formed table promises: the unique index and microsecond instants.\<close>

definition table_wf :: "metric_row list \<Rightarrow> bool" where
  "table_wf t \<longleftrightarrow> unique_keys t \<and> (\<forall>r \<in> set t. c_timestamp r mod 1000 = 0)"

lemma table_wf_Nil [simp]: "table_wf []"
  by (simp add: table_wf_def unique_keys_def)

lemma table_wf_InsertSQL [intro]: "table_wf t \<Longrightarrow> table_wf (InsertSQL m t)"
  by (auto simp: table_wf_def unique_keys_def InsertSQL_def Let_def insert_row_def pg_timestamp_def)

lemma table_wf_inserts: "table_wf t \<Longrightarrow> table_wf (fold InsertSQL ms t)"
  by (induction ms arbitrary: t) auto

lemma pg_timestamp_stored [simp]: "table_wf t \<Longrightarrow> r \<in> set t \<Longrightarrow> pg_timestamp (c_timestamp r) = c_timestamp r"
  unfolding table_wf_def pg_timestamp_def by (metis div_mult_mod_eq add.right_neutral)

text \<open>The contract of a collation: a total order on texts, as deterministic collations are.\<close>

locale collation =
  fixes coll :: "string \<Rightarrow> string \<Rightarrow> bool"
  assumes coll_total: "coll x y \<or> coll y x"
    and coll_trans: "coll x y \<Longrightarrow> coll y z \<Longrightarrow> coll x z"
    and coll_antisym: "coll x y \<Longrightarrow> coll y x \<Longrightarrow> x = y"
begin

lemma newest_first_total: "newest_first coll a b \<or> newest_first coll b a"
  using coll_total by (auto simp: newest_first_def)

lemma newest_first_trans: "newest_first coll a b \<Longrightarrow> newest_first coll b c \<Longrightarrow> newest_first coll a c"
  using coll_trans by (auto simp: newest_first_def)

lemma newest_first_antisym:
  "c_gpu_id a = c_gpu_id b \<Longrightarrow> newest_first coll a b \<Longrightarrow> newest_first coll b a \<Longrightarrow> natural_key a = natural_key b"
  using coll_antisym by (auto simp: newest_first_def natural_key_def)

lemma sorted_rows: "sorted_wrt (newest_first coll) (sort_by (newest_first coll) xs)"
  using newest_first_total newest_first_trans by (rule sorted_sort_by)

lemma filter_sort_by:
  assumes "unique_keys xs" "\<forall>r \<in> set xs. c_gpu_id r = gid"
  shows "filter P (sort_by (newest_first coll) xs) = sort_by (newest_first coll) (filter P xs)"
proof (rule sorted_wrt_mset_unique [where R = "newest_first coll"])
  show "sorted_wrt (newest_first coll) (filter P (sort_by (newest_first coll) xs))"
    using sorted_rows by (rule sorted_wrt_filter)
  show "a = b" if ab: "a \<in> set (filter P (sort_by (newest_first coll) xs))"
    "b \<in> set (filter P (sort_by (newest_first coll) xs))" "newest_first coll a b" "newest_first coll b a" for a b
  proof -
    from ab assms(2) have "natural_key a = natural_key b" by (intro newest_first_antisym) auto
    with ab assms(1) show ?thesis by (auto simp: unique_keys_def distinct_map dest: inj_onD)
  qed
qed (simp_all add: sorted_rows mset_filter)

text \<open>In the sorted list, the rows after a row are exactly those the keyset predicate keeps.\<close>

lemma keyset_drop:
  assumes sorted: "sorted_wrt (newest_first coll) L" and uniq: "unique_keys L" and gpu: "\<forall>r \<in> set L. c_gpu_id r = gid"
    and i: "i < length L"
  shows "filter (row_before coll (c_timestamp (L ! i)) (c_metric_name (L ! i))) L = drop (Suc i) L"
proof -
  let ?c = "L ! i" and ?P = "row_before coll (c_timestamp (L ! i)) (c_metric_name (L ! i))"
  from i have L: "L = take i L @ ?c # drop (Suc i) L" by (simp add: id_take_nth_drop)
  have "\<not> ?P r" if "r \<in> set (take i L)" for r
  proof -
    from sorted L that have "newest_first coll r ?c" by (metis sorted_wrt_append list.set_intros(1))
    then show ?thesis using coll_antisym by (auto simp: newest_first_def row_before_def)
  qed
  moreover have "\<not> ?P ?c" by (simp add: row_before_def)
  moreover have "?P r" if r: "r \<in> set (drop (Suc i) L)" for r
  proof -
    from sorted L r have "newest_first coll ?c r" by (metis sorted_wrt_append sorted_wrt.simps(2))
    moreover have "distinct (map natural_key (take i L @ ?c # drop (Suc i) L))"
      using uniq L by (metis unique_keys_def)
    then have "natural_key r \<noteq> natural_key ?c" using r by auto (metis image_eqI)
    moreover have "c_gpu_id r = c_gpu_id ?c" using gpu r i by (metis in_set_dropD nth_mem)
    ultimately show ?thesis by (auto simp: newest_first_def row_before_def natural_key_def)
  qed
  ultimately show ?thesis
    by (subst L, subst filter_append) (auto simp: filter_empty_conv filter_id_conv)
qed

lemma keyset_rows:
  assumes "table_wf t" and L: "L = sort_by (newest_first coll) (window_rows t gid start stop)" and i: "i < length L"
  shows "sort_by (newest_first coll) (filter (row_before coll (c_timestamp (L ! i)) (c_metric_name (L ! i)))
      (window_rows t gid start stop)) = drop (Suc i) L"
proof -
  have u: "unique_keys (window_rows t gid start stop)" "\<forall>r \<in> set (window_rows t gid start stop). c_gpu_id r = gid"
    using assms(1) by (auto simp: table_wf_def unique_keys_def window_rows_def distinct_map_filter)
  then have "unique_keys L" unfolding unique_keys_def L
    by (metis mset_sort_by mset_map mset_eq_imp_distinct_iff)
  moreover have "\<forall>r \<in> set L. c_gpu_id r = gid" using u(2) L by simp
  moreover have "sorted_wrt (newest_first coll) L" unfolding L by (rule sorted_rows)
  ultimately show ?thesis using filter_sort_by [OF u, folded L] keyset_drop [OF _ _ _ i] by metis
qed

end

text \<open>The collation \<open>C\<close> compares bytes.\<close>

fun bytes_le :: "string \<Rightarrow> string \<Rightarrow> bool" where
  "bytes_le [] ys = True"
| "bytes_le (x # xs) [] = False"
| "bytes_le (x # xs) (y # ys) \<longleftrightarrow> (of_char x :: nat) < of_char y \<or> x = y \<and> bytes_le xs ys"

lemma of_char_neq: "(of_char x :: nat) < of_char y \<Longrightarrow> x \<noteq> y"
  by auto

lemma of_char_nat_eq: "(of_char x :: nat) = of_char y \<longleftrightarrow> x = y"
  by simp

interpretation bytes: collation bytes_le
proof
  fix x y z :: string
  show "bytes_le x y \<or> bytes_le y x"
    by (induction x y rule: bytes_le.induct) (auto simp: not_less of_char_nat_eq [symmetric] simp del: of_char_eq_iff)
  show "bytes_le x y \<Longrightarrow> bytes_le y z \<Longrightarrow> bytes_le x z"
  proof (induction x y arbitrary: z rule: bytes_le.induct)
    case (3 x xs y ys)
    then show ?case by (cases z) (auto simp: of_char_neq)
  qed auto
  show "bytes_le x y \<Longrightarrow> bytes_le y x \<Longrightarrow> x = y"
  proof (induction x y rule: bytes_le.induct)
    case (1 ys)
    then show ?case by (cases ys) auto
  qed (auto dest: of_char_neq)
qed

section \<open>Properties of the reads\<close>

text \<open>Two readings of one metric of a GPU within one microsecond have the same natural key: the second is dropped.\<close>

lemma same_microsecond_collapses:
  assumes "GpuID m' = GpuID m" "MetricName m' = MetricName m" "Timestamp m div 1000 = Timestamp m' div 1000"
  shows "InsertSQL m' (InsertSQL m t) = InsertSQL m t"
proof -
  have "natural_key (insert_row m') = natural_key (insert_row m)"
    using assms by (simp add: natural_key_def insert_row_def pg_timestamp_def)
  moreover have "natural_key (insert_row m) \<in> natural_key ` set (InsertSQL m t)"
    by (simp add: InsertSQL_def Let_def)
  ultimately show ?thesis by (simp add: InsertSQL_def [of m'] Let_def)
qed

lemma window_InsertSQL:
  assumes "\<not> P (insert_row m)"
  shows "filter P (window_rows (InsertSQL m t) gid start stop) = filter P (window_rows t gid start stop)"
  using assms by (auto simp: InsertSQL_def window_rows_def Let_def)

lemma window_inserts:
  "\<forall>m \<in> set ms. \<not> P (insert_row m) \<Longrightarrow>
     filter P (window_rows (fold InsertSQL ms t) gid start stop) = filter P (window_rows t gid start stop)"
  by (induction ms arbitrary: t) (simp_all add: window_InsertSQL)

text \<open>C31. Cursor pages are offset pages, and stay so while rows are ingested: let a row be at position
  \<open>i\<close> of the result. Fetching after that row by keyset, even after any number of inserts of rows that do
  not sort behind it (newer readings), returns what fetching from offset \<open>i + 1\<close> returned before.\<close>

theorem keyset_equals_offset:
  assumes "collation coll" "table_wf t" "0 \<le> limit"
    "Telemetry coll NetOk t gid start stop 1 (int i) = Inr [m]"
    "\<forall>x \<in> set ms. \<not> row_before coll (Timestamp m) (MetricName m) (insert_row x)"
  shows "TelemetryAfter coll NetOk (fold InsertSQL ms t) gid start stop (Timestamp m) (MetricName m) limit =
    Telemetry coll NetOk t gid start stop limit (int i + 1)"
proof -
  define L where "L = sort_by (newest_first coll) (window_rows t gid start stop)"
  have "take 1 (drop i (map cols L)) = [m]"
    using assms(4) by (simp add: Telemetry_eq L_def [symmetric] take_map drop_map)
  then have i: "i < length L" "m = cols (L ! i)"
    by (cases "i < length L"; simp add: drop_map [symmetric] Cons_nth_drop_Suc [symmetric])+
  have "L ! i \<in> set t" using i(1) unfolding L_def by (metis filter_is_subset nth_mem set_sort_by subset_iff window_rows_def)
  with assms(2) i(2) have ts: "pg_timestamp (Timestamp m) = c_timestamp (L ! i)" "Timestamp m = c_timestamp (L ! i)"
    "MetricName m = c_metric_name (L ! i)" by (simp_all add: cols_def)
  have "sort_by (newest_first coll) (filter (row_before coll (c_timestamp (L ! i)) (c_metric_name (L ! i)))
      (window_rows (fold InsertSQL ms t) gid start stop)) = drop (Suc i) L"
    using collation.keyset_rows [OF assms(1,2) L_def i(1)] assms(5) ts by (simp add: window_inserts)
  moreover have "nat (int i + 1) = Suc i" by simp
  ultimately show ?thesis using assms(3) ts by (simp add: TelemetryAfter_eq Telemetry_eq L_def [symmetric])
qed

lemma scanIds_fails:
  "scanIds r ((map Inr xs)[n := Inl e]) None =
     (if n < length xs then Inl (ReadError ''db: DistinctGPUIDs: scan'' e) else Inr (r @ xs))"
  by (induction xs arbitrary: n r) (auto split: nat.split)

lemma DistinctGPUIDs_complete: "DistinctGPUIDs coll net t = Inr ids \<Longrightarrow> ids = sort_by coll (remdups (map c_gpu_id t))"
  by (cases net) (auto simp: DistinctGPUIDs_def pool_Query_def scanIds_eq scanIds_fails split: if_splits)

text \<open>C32. No partial answers: when a read function of the database succeeds in spite of what happened on
  the connection, its result is the complete one, and failed scans and broken streams are errors.\<close>

theorem reads_are_complete:
  "(\<forall>ms. Telemetry coll net t gid start stop limit offset = Inr ms \<longrightarrow>
      Telemetry coll NetOk t gid start stop limit offset = Inr ms) \<and>
   (\<forall>ms. TelemetryAfter coll net t gid start stop ts mn limit = Inr ms \<longrightarrow>
      TelemetryAfter coll NetOk t gid start stop ts mn limit = Inr ms) \<and>
   (\<forall>n. TelemetryCount net t gid start stop = Inr n \<longrightarrow> n = int (length (window_rows t gid start stop))) \<and>
   (\<forall>ids. DistinctGPUIDs coll net t = Inr ids \<longrightarrow> ids = sort_by coll (remdups (map c_gpu_id t))) \<and>
   (\<forall>b. GPUExists net t gid = Inr b \<longrightarrow> b = (gid \<in> c_gpu_id ` set t))"
proof (intro conjI allI impI)
  have scan: "(case pool_Query net xs of Inl e \<Rightarrow> Inl (ReadError c e) | Inr rows \<Rightarrow> scanMetrics rows) = Inr ms \<Longrightarrow> xs = ms"
    for xs :: "GpuMetric list" and ms c
  proof (cases net)
    case (NetScan n e)
    then show "(case pool_Query net xs of Inl e \<Rightarrow> Inl (ReadError c e) | Inr rows \<Rightarrow> scanMetrics rows) = Inr ms \<Longrightarrow> xs = ms"
      by (cases "n < length xs") (simp_all add: pool_Query_def scanMetrics_def scan_loop_fails scan_loop_eq list_update_beyond)
  qed (auto simp: pool_Query_def scanMetrics_def scan_loop_eq)
  have limited: "(case limit_query net l off xs of Inl e \<Rightarrow> Inl (ReadError c e) | Inr rows \<Rightarrow> scanMetrics rows) = Inr ms \<Longrightarrow>
      (case limit_query NetOk l off xs of Inl e \<Rightarrow> Inl (ReadError c' e) | Inr rows \<Rightarrow> scanMetrics rows) = Inr ms"
    for l off c c' ms and xs :: "GpuMetric list"
    using scan [where xs = "take (nat l) (drop (nat off) xs)" and ms = ms and c = c] unfolding limit_query_def
    by (auto simp: pool_Query_def [of NetOk] split: if_splits)
  show "Telemetry coll NetOk t gid start stop limit offset = Inr ms"
    if "Telemetry coll net t gid start stop limit offset = Inr ms" for ms
    using that unfolding Telemetry_def Let_def by (auto split: if_splits intro: limited)
  show "TelemetryAfter coll NetOk t gid start stop ts mn limit = Inr ms"
    if "TelemetryAfter coll net t gid start stop ts mn limit = Inr ms" for ms
    using that unfolding TelemetryAfter_def by (rule limited)
  show "ids = sort_by coll (remdups (map c_gpu_id t))" if "DistinctGPUIDs coll net t = Inr ids" for ids
    using that by (rule DistinctGPUIDs_complete)
  show "n = int (length (window_rows t gid start stop))" if "TelemetryCount net t gid start stop = Inr n" for n
    using that by (cases net) (auto simp: TelemetryCount_def pool_QueryRow_def Let_def window_rows_def split: if_splits)
  show "b = (gid \<in> c_gpu_id ` set t)" if "GPUExists net t gid = Inr b" for b
    using that by (cases net) (auto simp: GPUExists_def pool_QueryRow_def)
qed

section \<open>A small table\<close>

definition demo_metric :: "string \<Rightarrow> gotime \<Rightarrow> GpuMetric" where
  "demo_metric mn ts = \<lparr>GpuID = ''g'', Timestamp = ts, MetricName = mn, Value = 0, Device = ''d'', ModelName = ''m'',
     Hostname = '''', Container = '''', Pod = '''', Namespace = '''', LabelsRaw = ''''\<rparr>"

definition demo_table :: "metric_row list" where
  "demo_table = fold InsertSQL [demo_metric ''b'' 1000, demo_metric ''a'' 2500, demo_metric ''b'' 2999, demo_metric ''b'' 1500] []"

lemma table_wf_demo: "table_wf demo_table"
  unfolding demo_table_def by (rule table_wf_inserts) simp

theorem keyset_equals_offset_witness:
  "TelemetryAfter bytes_le NetOk (fold InsertSQL [demo_metric ''a'' 3000] demo_table) ''g'' None None 2000 ''b'' 5 =
     Telemetry bytes_le NetOk demo_table ''g'' None None 5 1 \<and>
   Telemetry bytes_le NetOk demo_table ''g'' None None 5 1 = Inr [demo_metric ''a'' 2000, demo_metric ''b'' 1000]"
proof (rule conjI)
  have row: "Telemetry bytes_le NetOk demo_table ''g'' None None 1 (int 0) = Inr [demo_metric ''b'' 2000]" by code_simp
  have newer: "\<forall>x \<in> set [demo_metric ''a'' 3000].
      \<not> row_before bytes_le (Timestamp (demo_metric ''b'' 2000)) (MetricName (demo_metric ''b'' 2000)) (insert_row x)"
    by code_simp
  from keyset_equals_offset [OF bytes.collation_axioms table_wf_demo _ row newer, of 5]
  show "TelemetryAfter bytes_le NetOk (fold InsertSQL [demo_metric ''a'' 3000] demo_table) ''g'' None None 2000 ''b'' 5 =
     Telemetry bytes_le NetOk demo_table ''g'' None None 5 1"
    by (simp add: demo_metric_def)
  show "Telemetry bytes_le NetOk demo_table ''g'' None None 5 1 = Inr [demo_metric ''a'' 2000, demo_metric ''b'' 1000]"
    by code_simp
qed

theorem reads_are_complete_witness:
  "Telemetry bytes_le (NetScan 7 (ConnError ''lost'')) demo_table ''g'' None None 2 0 =
     Telemetry bytes_le NetOk demo_table ''g'' None None 2 0"
proof -
  have "Telemetry bytes_le (NetScan 7 (ConnError ''lost'')) demo_table ''g'' None None 2 0 =
      Inr [demo_metric ''b'' 2000, demo_metric ''a'' 2000]" by code_simp
  with reads_are_complete [of bytes_le "NetScan 7 (ConnError ''lost'')" demo_table "''g''" None None 2 0 0 "''''"]
  show ?thesis by metis
qed

end
