(* ===== verification/Collector.thy ===== *)
theory Collector
  imports Telemetry_Db Env_Config
begin

text \<open>
  Persistence in the collector (\<open>internal/collector/collector.go\<close>): writing a batch, isolating poison rows
  by bisection and dead-lettering them. The Postgres driver and \<open>protojson\<close> are an argument, the record
  \<open>driver\<close>, of every function that uses them; a pool is whatever state that driver has. What the collector relies on
  is the locale \<open>durable_db\<close>, in which it is proved that a successful write handled every message; the
  locale is interpreted on a model of the driver over the tables of \<open>Telemetry_Db\<close>, with arbitrary
  rejected rows and faults.
\<close>

section \<open>The driver\<close>

text \<open>The results of a batch: one per \<open>br.Exec()\<close>, in order, and that of \<open>br.Close()\<close>.\<close>

record batch_results =
  execErrs :: "db_error option list"
  closeErr :: "db_error option"

record 'p driver =
  SendBatch :: "'p \<Rightarrow> GpuMetric list \<Rightarrow> batch_results \<times> 'p"
  ExecDLQInsert :: "'p \<Rightarrow> DLQRow \<Rightarrow> db_error option \<times> 'p"
  errText :: "db_error \<Rightarrow> string"
  protojson_Marshal :: "TelemetryMessage \<Rightarrow> string option"

text \<open>The errors of the collector; \<open>Panics\<close> stands for a panic, which ends the process.\<close>

datatype collector_error =
    PersistBatch db_error
  | MarshalDLQPayload uint64
  | DeadLetterInsert uint64 db_error
  | OpenStream string
  | SendHandshake string
  | SendAck uint64 string
  | RecvError string
  | CtxError
  | Panics

section \<open>Writing a batch\<close>

fun queue_loop :: "GpuMetric list \<Rightarrow> TelemetryMessage list \<Rightarrow> GpuMetric list" where
  "queue_loop b [] = b"
| "queue_loop b (tmsg # msgs) = (case FromProto tmsg of
      Inl err \<Rightarrow> queue_loop b msgs
    | Inr m \<Rightarrow> queue_loop (b @ [m]) msgs)"

fun drain_execs :: "db_error option \<Rightarrow> db_error option list \<Rightarrow> db_error option" where
  "drain_execs firstErr [] = firstErr"
| "drain_execs firstErr (None # rs) = drain_execs firstErr rs"
| "drain_execs firstErr (Some err # rs) = drain_execs (if firstErr = None then Some err else firstErr) rs"

definition persistBatch :: "'p driver \<Rightarrow> 'p \<Rightarrow> TelemetryMessage list \<Rightarrow> collector_error option \<times> 'p" where
  "persistBatch drv pool msgs =
     (let b = queue_loop [] msgs in
      if length b = 0 then (None, pool)
      else
        let (br, pool) = SendBatch drv pool b;
            firstErr = drain_execs None (take (length b) (execErrs br));
            firstErr = (case closeErr br of Some cerr \<Rightarrow> if firstErr = None then Some cerr else firstErr | None \<Rightarrow> firstErr)
        in case firstErr of
             Some e \<Rightarrow> (Some (PersistBatch e), pool)
           | None \<Rightarrow> (None, pool))"

text \<open>\<open>errors.As\<close> looks through the wrapping.\<close>

definition unwrap :: "collector_error \<Rightarrow> db_error option" where
  "unwrap err = (case err of PersistBatch e \<Rightarrow> Some e | DeadLetterInsert i e \<Rightarrow> Some e | _ \<Rightarrow> None)"

definition isPoisonErr :: "collector_error \<Rightarrow> bool" where
  "isPoisonErr err = (case unwrap err of
      Some (PgError code tmsg) \<Rightarrow> \<not> length code < 2 \<and> (take 2 code = ''22'' \<or> take 2 code = ''23'')
    | _ \<Rightarrow> False)"

text \<open>The text of the errors \<open>persistBatch\<close> returns, the only ones a row is dead-lettered for.\<close>

definition persist_Error :: "'p driver \<Rightarrow> collector_error \<Rightarrow> string" where
  "persist_Error drv err = (case unwrap err of
      Some e \<Rightarrow> ''collector: persist batch: '' @ errText drv e
    | None \<Rightarrow> '''')"

definition deadLetterRow ::
  "'p driver \<Rightarrow> 'p \<Rightarrow> TelemetryMessage \<Rightarrow> collector_error \<Rightarrow> collector_error option \<times> 'p" where
  "deadLetterRow drv pool tmsg cause =
     (case protojson_Marshal drv tmsg of
        None \<Rightarrow> (Some (MarshalDLQPayload (pbId tmsg)), pool)
      | Some payload \<Rightarrow>
          (case ExecDLQInsert drv pool \<lparr>d_broker_id = sint (pbId tmsg), d_delivery_attempts = sint (pbDeliveryAttempts tmsg),
                 d_payload = payload, d_error = persist_Error drv cause\<rparr> of
             (Some err, pool) \<Rightarrow> (Some (DeadLetterInsert (pbId tmsg) err), pool)
           | (None, pool) \<Rightarrow> (None, pool)))"

function persistResilient ::
  "'p driver \<Rightarrow> 'p \<Rightarrow> TelemetryMessage list \<Rightarrow> (nat \<times> collector_error option) \<times> 'p" where
  "persistResilient drv pool msgs =
     (case persistBatch drv pool msgs of
        (None, pool) \<Rightarrow> ((0, None), pool)
      | (Some err, pool) \<Rightarrow>
          if \<not> isPoisonErr err then ((0, Some err), pool)
          else if length msgs = 1 then
            (case deadLetterRow drv pool (msgs ! 0) err of
               (Some dlErr, pool) \<Rightarrow> ((0, Some dlErr), pool)
             | (None, pool) \<Rightarrow> ((1, None), pool))
          else
            let mid = length msgs div 2 in
            (case persistResilient drv pool (take mid msgs) of
               ((left, Some err), pool) \<Rightarrow> ((left, Some err), pool)
             | ((left, None), pool) \<Rightarrow>
                 (case persistResilient drv pool (drop mid msgs) of
                    ((right, err), pool) \<Rightarrow> ((left + right, err), pool))))"
  by pat_completeness auto

lemma persistBatch_Nil [simp]: "persistBatch drv pool [] = (None, pool)"
  by (simp add: persistBatch_def)

lemma bisect_shrinks:
  assumes "(Some err, pool') = persistBatch drv pool msgs" "length msgs \<noteq> 1"
  shows "length msgs div 2 < length msgs" "length msgs - length msgs div 2 < length msgs"
proof -
  have "msgs \<noteq> []" using assms(1) by auto
  with assms(2) have "2 \<le> length msgs" by (cases msgs; cases "tl msgs") auto
  then show "length msgs div 2 < length msgs" "length msgs - length msgs div 2 < length msgs" by linarith+
qed

termination persistResilient
  by (relation "measure (\<lambda>(drv, pool, msgs). length msgs)") (auto dest: bisect_shrinks)

declare persistResilient.simps [simp del]

section \<open>What a write achieves\<close>

lemma queue_loop_append: "queue_loop b msgs = b @ queue_loop [] msgs"
proof (induction msgs arbitrary: b)
  case (Cons tmsg msgs)
  show ?case
  proof (cases "FromProto tmsg")
    case (Inr m)
    then show ?thesis using Cons.IH [of "b @ [m]"] Cons.IH [of "[m]"] by simp
  qed (use Cons.IH [of b] in simp)
qed simp

lemma queue_loop_Cons:
  "queue_loop [] (tmsg # msgs) = (case FromProto tmsg of Inl e \<Rightarrow> [] | Inr m \<Rightarrow> [m]) @ queue_loop [] msgs"
  by (cases "FromProto tmsg") (simp, simp, metis append_Cons append_Nil queue_loop_append)

lemma queue_loop_app [simp]: "queue_loop [] (xs @ ys) = queue_loop [] xs @ queue_loop [] ys"
  by (induction xs) (simp_all add: queue_loop_Cons del: queue_loop.simps(2))

lemma queue_loop_mem: "g \<in> set (queue_loop [] msgs) \<longleftrightarrow> (\<exists>m \<in> set msgs. FromProto m = Inr g)"
  by (induction msgs) (auto simp: queue_loop_Cons simp del: queue_loop.simps(2) split: sum.splits)

lemma drain_execs_None: "drain_execs fe rs = None \<longleftrightarrow> fe = None \<and> (\<forall>r \<in> set rs. r = None)"
  by (induction fe rs rule: drain_execs.induct) auto

lemma drain_execs_Some: "drain_execs (Some e) rs = Some e"
  by (induction rs) (simp, rename_tac r rs, case_tac r, auto)

lemma drain_execs_first: "drain_execs None (replicate i None @ Some e # rs) = Some e"
  by (induction i) (simp_all add: drain_execs_Some)

text \<open>A run of the bisection, rule by rule.\<close>

inductive bisection :: "'p driver \<Rightarrow> 'p \<Rightarrow> TelemetryMessage list \<Rightarrow> nat \<Rightarrow> collector_error option \<Rightarrow> 'p \<Rightarrow> bool"
  for drv where
  whole: "persistBatch drv p msgs = (None, p') \<Longrightarrow> bisection drv p msgs 0 None p'"
| transient: "persistBatch drv p msgs = (Some err, p') \<Longrightarrow> \<not> isPoisonErr err \<Longrightarrow> bisection drv p msgs 0 (Some err) p'"
| row: "persistBatch drv p [m] = (Some err, q) \<Longrightarrow> isPoisonErr err \<Longrightarrow> deadLetterRow drv q m err = (None, p') \<Longrightarrow>
    bisection drv p [m] 1 None p'"
| row_fails: "persistBatch drv p [m] = (Some err, q) \<Longrightarrow> isPoisonErr err \<Longrightarrow> deadLetterRow drv q m err = (Some e, p') \<Longrightarrow>
    bisection drv p [m] 0 (Some e) p'"
| left_fails: "persistBatch drv p msgs = (Some err, q) \<Longrightarrow> isPoisonErr err \<Longrightarrow> length msgs \<noteq> 1 \<Longrightarrow>
    bisection drv q (take (length msgs div 2) msgs) l (Some e) p' \<Longrightarrow> bisection drv p msgs l (Some e) p'"
| halves: "persistBatch drv p msgs = (Some err, q) \<Longrightarrow> isPoisonErr err \<Longrightarrow> length msgs \<noteq> 1 \<Longrightarrow>
    bisection drv q (take (length msgs div 2) msgs) l None q' \<Longrightarrow>
    bisection drv q' (drop (length msgs div 2) msgs) r e p' \<Longrightarrow> bisection drv p msgs (l + r) e p'"

lemma persistResilient_bisection: "persistResilient drv p msgs = ((n, e), p') \<Longrightarrow> bisection drv p msgs n e p'"
proof (induction drv p msgs arbitrary: n e p' rule: persistResilient.induct)
  case (1 drv p msgs)
  obtain pe q where pb: "persistBatch drv p msgs = (pe, q)" by fastforce
  note run = "1.prems" [unfolded persistResilient.simps [of drv p msgs]]
  show ?case
  proof (cases pe)
    case None
    with pb run show ?thesis by (auto intro: bisection.whole)
  next
    case (Some err)
    note pb = pb [unfolded Some]
    consider "\<not> isPoisonErr err" | "isPoisonErr err" "length msgs = 1" | "isPoisonErr err" "length msgs \<noteq> 1" by blast
    then show ?thesis
    proof cases
      case 1
      with pb run show ?thesis by (auto intro: bisection.transient)
    next
      case 2
      then obtain m where "msgs = [m]" by (auto simp: length_Suc_conv)
      with pb run 2 show ?thesis
        by (auto split: option.splits prod.splits intro: bisection.row [of drv p m, simplified] bisection.row_fails [of drv p m])
    next
      case 3
      let ?mid = "length msgs div 2"
      obtain l le q1 where left: "persistResilient drv q (take ?mid msgs) = ((l, le), q1)" by (metis prod.exhaust)
      have IHl: "bisection drv q (take ?mid msgs) l le q1" using "1.IH"(1) [OF pb [symmetric] refl] 3 left by simp
      show ?thesis
      proof (cases le)
        case (Some e1)
        with run pb 3 left have "n = l" "e = Some e1" "p' = q1" by simp_all
        with IHl Some pb 3 show ?thesis by (auto intro: bisection.left_fails)
      next
        case None
        obtain r re q2 where right: "persistResilient drv q1 (drop ?mid msgs) = ((r, re), q2)" by (metis prod.exhaust)
        have IHr: "bisection drv q1 (drop ?mid msgs) r re q2"
          using "1.IH"(2) [OF pb [symmetric] refl] 3 left right None by simp
        from run pb 3 left None right have "n = l + r" "e = re" "p' = q2" by simp_all
        with IHl IHr None pb 3 show ?thesis by (auto intro: bisection.halves)
      qed
    qed
  qed
qed

text \<open>
  What the collector relies on of its database: an error-free batch is stored, an error-free insert is
  dead-lettered, one result per queued row, and neither call takes back what is durable.
\<close>

locale durable_db =
  fixes drv :: "'p driver" and stored :: "'p \<Rightarrow> GpuMetric \<Rightarrow> bool" and dead :: "'p \<Rightarrow> DLQRow \<Rightarrow> bool"
  assumes one_result_each: "SendBatch drv p gs = (br, p') \<Longrightarrow> length (execErrs br) = length gs"
    and send_stores: "SendBatch drv p gs = (br, p') \<Longrightarrow> \<forall>r \<in> set (execErrs br). r = None \<Longrightarrow> closeErr br = None \<Longrightarrow>
      g \<in> set gs \<Longrightarrow> stored p' g"
    and send_keeps: "SendBatch drv p gs = (br, p') \<Longrightarrow> stored p g \<Longrightarrow> stored p' g"
    and send_keeps_dead: "SendBatch drv p gs = (br, p') \<Longrightarrow> dead p r \<Longrightarrow> dead p' r"
    and exec_stores: "ExecDLQInsert drv p r = (None, p') \<Longrightarrow> dead p' r"
    and exec_keeps: "ExecDLQInsert drv p r = (e, p') \<Longrightarrow> stored p g \<Longrightarrow> stored p' g"
    and exec_keeps_dead: "ExecDLQInsert drv p r = (e, p') \<Longrightarrow> dead p r' \<Longrightarrow> dead p' r'"
begin

definition dead_lettered :: "'p \<Rightarrow> TelemetryMessage \<Rightarrow> bool" where
  "dead_lettered p m \<longleftrightarrow> (\<exists>r. dead p r \<and> d_broker_id r = sint (pbId m) \<and> protojson_Marshal drv m = Some (d_payload r))"

definition handled :: "'p \<Rightarrow> TelemetryMessage \<Rightarrow> bool" where
  "handled p m \<longleftrightarrow> (\<forall>g. FromProto m = Inr g \<longrightarrow> stored p g \<or> dead_lettered p m)"

definition keeps :: "'p \<Rightarrow> 'p \<Rightarrow> bool" where
  "keeps p p' \<longleftrightarrow> (\<forall>g. stored p g \<longrightarrow> stored p' g) \<and> (\<forall>r. dead p r \<longrightarrow> dead p' r)"

lemma keeps_refl [simp]: "keeps p p"
  by (simp add: keeps_def)

lemma keeps_trans: "keeps p q \<Longrightarrow> keeps q r \<Longrightarrow> keeps p r"
  by (auto simp: keeps_def)

lemma handled_mono: "keeps p p' \<Longrightarrow> handled p m \<Longrightarrow> handled p' m"
  unfolding keeps_def handled_def dead_lettered_def by blast

lemma persistBatch_keeps: "persistBatch drv p msgs = (e, p') \<Longrightarrow> keeps p p'"
  by (auto simp: persistBatch_def Let_def keeps_def split: if_splits prod.splits option.splits
      intro: send_keeps send_keeps_dead)

lemma persistBatch_stores:
  assumes "persistBatch drv p msgs = (None, p')" "m \<in> set msgs" "FromProto m = Inr g"
  shows "stored p' g"
proof -
  from assms(2,3) have g: "g \<in> set (queue_loop [] msgs)" by (auto simp: queue_loop_mem)
  obtain br q where send: "SendBatch drv p (queue_loop [] msgs) = (br, q)" by fastforce
  from g assms(1) send have "drain_execs None (take (length (queue_loop [] msgs)) (execErrs br)) = None" "closeErr br = None" "q = p'"
    by (auto simp: persistBatch_def Let_def split: if_splits option.splits)
  moreover have "length (execErrs br) = length (queue_loop [] msgs)" using send by (rule one_result_each)
  ultimately have "\<forall>r \<in> set (execErrs br). r = None" by (simp add: drain_execs_None)
  with send_stores [OF send _ _ g] \<open>closeErr br = None\<close> \<open>q = p'\<close> show ?thesis by simp
qed

lemma persistBatch_ok: "persistBatch drv p msgs = (None, p') \<Longrightarrow> m \<in> set msgs \<Longrightarrow> handled p' m"
  by (auto simp: handled_def intro: persistBatch_stores)

lemma deadLetterRow_keeps: "deadLetterRow drv p m c = (e, p') \<Longrightarrow> keeps p p'"
  by (auto simp: deadLetterRow_def keeps_def split: option.splits prod.splits dest: exec_keeps exec_keeps_dead)

lemma deadLetterRow_ok: "deadLetterRow drv p m c = (None, p') \<Longrightarrow> handled p' m"
  unfolding deadLetterRow_def handled_def dead_lettered_def
  by (auto split: option.splits prod.splits dest!: exec_stores)


end

context durable_db
begin


lemma bisection_keeps: "bisection drv p msgs n e p' \<Longrightarrow> keeps p p'"
  by (induction rule: bisection.induct) (meson keeps_trans persistBatch_keeps deadLetterRow_keeps)+

lemma persistResilient_keeps: "persistResilient drv p msgs = ((n, e), p') \<Longrightarrow> keeps p p'"
  by (rule bisection_keeps [OF persistResilient_bisection])

text \<open>A successful write handled every message of the batch, so acknowledging them is safe.\<close>

lemma persistResilient_handles:
  assumes "persistResilient drv p msgs = ((n, None), p')" "m \<in> set msgs"
  shows "handled p' m"
proof -
  have "bisection drv p msgs n e p' \<Longrightarrow> e = None \<Longrightarrow> m \<in> set msgs \<Longrightarrow> handled p' m" for e
  proof (induction rule: bisection.induct)
    case (halves p msgs err q l q' r e p')
    from halves.prems(2) consider "m \<in> set (take (length msgs div 2) msgs)" | "m \<in> set (drop (length msgs div 2) msgs)"
      by (metis UnE append_take_drop_id set_append)
    then show ?case
    proof cases
      case 1
      with halves show ?thesis using bisection_keeps handled_mono by blast
    qed (use halves in blast)
  qed (auto intro: persistBatch_ok deadLetterRow_ok)
  with persistResilient_bisection [OF assms(1)] assms(2) show ?thesis by blast
qed

end

section \<open>Postgres behind the driver\<close>

text \<open>
  A batch runs in one implicit transaction: its rows are inserted in order, and the first row the server
  rejects rolls everything back and is the error of every later result. Which rows are rejected (data
  exceptions, constraints) is the function \<open>violates\<close>. A fault hits a round trip by its number, before the
  server saw it or after it committed, when the client cannot tell.
\<close>

record Pool =
  pgMetrics :: "metric_row list"
  pgDLQ :: "DLQRow list"
  pgOps :: nat

datatype db_fault = FaultBefore db_error | FaultAfter db_error

definition accepted :: "(metric_row \<Rightarrow> db_error option) \<Rightarrow> GpuMetric list \<Rightarrow> nat" where
  "accepted violates gs = length (takeWhile (\<lambda>g. violates (insert_row g) = None) gs)"

definition pg_SendBatch ::
  "(metric_row \<Rightarrow> db_error option) \<Rightarrow> (nat \<Rightarrow> db_fault option) \<Rightarrow> Pool \<Rightarrow> GpuMetric list \<Rightarrow> batch_results \<times> Pool" where
  "pg_SendBatch violates fault p gs =
     (let i = accepted violates gs; n = length gs;
          refused = p\<lparr>pgOps := Suc (pgOps p)\<rparr>;
          committed = (if i = n then refused\<lparr>pgMetrics := fold InsertSQL gs (pgMetrics p)\<rparr> else refused);
          lost = (\<lambda>e. \<lparr>execErrs = replicate n (Some e), closeErr = Some e\<rparr>)
      in case fault (pgOps p) of
           Some (FaultBefore e) \<Rightarrow> (lost e, refused)
         | Some (FaultAfter e) \<Rightarrow> (lost e, committed)
         | None \<Rightarrow>
             if i = n then (\<lparr>execErrs = replicate n None, closeErr = None\<rparr>, committed)
             else let err = violates (insert_row (gs ! i)) in
               (\<lparr>execErrs = replicate i None @ replicate (n - i) err, closeErr = err\<rparr>, refused))"

definition pg_ExecDLQInsert ::
  "(DLQRow \<Rightarrow> db_error option) \<Rightarrow> (nat \<Rightarrow> db_fault option) \<Rightarrow> Pool \<Rightarrow> DLQRow \<Rightarrow> db_error option \<times> Pool" where
  "pg_ExecDLQInsert dlqViolates fault p r =
     (let refused = p\<lparr>pgOps := Suc (pgOps p)\<rparr>;
          committed = (if dlqViolates r = None then refused\<lparr>pgDLQ := DLQInsertSQL r (pgDLQ p)\<rparr> else refused)
      in case fault (pgOps p) of
           Some (FaultBefore e) \<Rightarrow> (Some e, refused)
         | Some (FaultAfter e) \<Rightarrow> (Some e, committed)
         | None \<Rightarrow> (dlqViolates r, committed))"

definition pg_driver ::
  "(metric_row \<Rightarrow> db_error option) \<Rightarrow> (DLQRow \<Rightarrow> db_error option) \<Rightarrow> (nat \<Rightarrow> db_fault option) \<Rightarrow>
   (db_error \<Rightarrow> string) \<Rightarrow> (TelemetryMessage \<Rightarrow> string option) \<Rightarrow> Pool driver" where
  "pg_driver violates dlqViolates fault etext json =
     \<lparr>SendBatch = pg_SendBatch violates fault, ExecDLQInsert = pg_ExecDLQInsert dlqViolates fault,
      errText = etext, protojson_Marshal = json\<rparr>"

lemma pg_driver_simps [simp]:
  "SendBatch (pg_driver violates dlqViolates fault etext json) = pg_SendBatch violates fault"
  "ExecDLQInsert (pg_driver violates dlqViolates fault etext json) = pg_ExecDLQInsert dlqViolates fault"
  "errText (pg_driver violates dlqViolates fault etext json) = etext"
  "protojson_Marshal (pg_driver violates dlqViolates fault etext json) = json"
  by (simp_all add: pg_driver_def)

definition pg_stored :: "Pool \<Rightarrow> GpuMetric \<Rightarrow> bool" where
  "pg_stored p g \<longleftrightarrow> natural_key (insert_row g) \<in> natural_key ` set (pgMetrics p)"

definition pg_dead :: "Pool \<Rightarrow> DLQRow \<Rightarrow> bool" where
  "pg_dead p r \<longleftrightarrow> r \<in> set (pgDLQ p)"

lemma InsertSQL_keys: "natural_key ` set (InsertSQL m t) = insert (natural_key (insert_row m)) (natural_key ` set t)"
  by (auto simp: InsertSQL_def Let_def)

lemma inserts_keys:
  "natural_key ` set (fold InsertSQL gs t) = natural_key ` set t \<union> (\<lambda>g. natural_key (insert_row g)) ` set gs"
  by (induction gs arbitrary: t) (auto simp: InsertSQL_keys)

lemma accepted_le: "accepted violates gs \<le> length gs"
  by (simp add: accepted_def length_takeWhile_le)

lemma accepted_all: "accepted violates gs = length gs \<longleftrightarrow> (\<forall>g \<in> set gs. violates (insert_row g) = None)"
  by (induction gs) (auto simp: accepted_def)

lemma accepted_nth: "accepted violates gs < length gs \<Longrightarrow> violates (insert_row (gs ! accepted violates gs)) \<noteq> None"
  unfolding accepted_def by (rule nth_length_takeWhile)

interpretation pg: durable_db "pg_driver violates dlqViolates fault etext json" pg_stored pg_dead
  for violates dlqViolates fault etext json
proof
  fix p p' gs br g r r' e
  let ?drv = "pg_driver violates dlqViolates fault etext json"
  assume send: "SendBatch ?drv p gs = (br, p')"
  have keys: "natural_key ` set (pgMetrics p) \<subseteq> natural_key ` set (pgMetrics p')" "pgDLQ p' = pgDLQ p"
    using send by (auto simp: pg_SendBatch_def Let_def inserts_keys split: option.splits db_fault.splits if_splits)
  show "length (execErrs br) = length gs"
    using send accepted_le [of violates gs]
    by (auto simp: pg_SendBatch_def Let_def split: option.splits db_fault.splits if_splits)
  show "pg_stored p' g" if "pg_stored p g" using that keys(1) by (auto simp: pg_stored_def)
  show "pg_dead p' r" if "pg_dead p r" using that keys(2) by (simp add: pg_dead_def)
  show "pg_stored p' g" if ok: "\<forall>r \<in> set (execErrs br). r = None" "closeErr br = None" "g \<in> set gs"
    using send ok accepted_nth [of violates gs] accepted_le [of violates gs]
    by (auto simp: pg_SendBatch_def Let_def pg_stored_def inserts_keys split: option.splits db_fault.splits if_splits)
next
  fix p p' g and r r' :: DLQRow and e
  let ?drv = "pg_driver violates dlqViolates fault etext json"
  show "pg_dead p' r" if "ExecDLQInsert ?drv p r = (None, p')"
    using that by (auto simp: pg_ExecDLQInsert_def Let_def pg_dead_def DLQInsertSQL_def split: option.splits db_fault.splits if_splits)
  assume exec: "ExecDLQInsert ?drv p r = (e, p')"
  show "pg_stored p' g" if "pg_stored p g"
    using that exec by (auto simp: pg_ExecDLQInsert_def Let_def pg_stored_def split: option.splits db_fault.splits if_splits)
  show "pg_dead p' r'" if "pg_dead p r'"
    using that exec by (auto simp: pg_ExecDLQInsert_def Let_def pg_dead_def DLQInsertSQL_def split: option.splits db_fault.splits if_splits)
qed

section \<open>Poison isolation, exactly\<close>

definition poison_err :: "(metric_row \<Rightarrow> db_error option) \<Rightarrow> TelemetryMessage \<Rightarrow> db_error option" where
  "poison_err violates m = (case FromProto m of Inl e \<Rightarrow> None | Inr g \<Rightarrow> violates (insert_row g))"

definition good_rows :: "(metric_row \<Rightarrow> db_error option) \<Rightarrow> TelemetryMessage list \<Rightarrow> GpuMetric list" where
  "good_rows violates msgs = filter (\<lambda>g. violates (insert_row g) = None) (queue_loop [] msgs)"

definition dlq_row ::
  "(metric_row \<Rightarrow> db_error option) \<Rightarrow> (db_error \<Rightarrow> string) \<Rightarrow> (TelemetryMessage \<Rightarrow> string option) \<Rightarrow> TelemetryMessage \<Rightarrow> DLQRow" where
  "dlq_row violates etext json m = \<lparr>d_broker_id = sint (pbId m), d_delivery_attempts = sint (pbDeliveryAttempts m),
     d_payload = the (json m), d_error = ''collector: persist batch: '' @ etext (the (poison_err violates m))\<rparr>"

lemma good_rows_append [simp]: "good_rows violates (xs @ ys) = good_rows violates xs @ good_rows violates ys"
  by (simp add: good_rows_def)

lemma poison_in_queue:
  "(\<forall>g \<in> set (queue_loop [] msgs). violates (insert_row g) = None) \<longleftrightarrow> (\<forall>m \<in> set msgs. poison_err violates m = None)"
  by (auto simp: queue_loop_mem poison_err_def split: sum.splits)

lemma good_rows_all:
  "\<forall>m \<in> set msgs. poison_err violates m = None \<Longrightarrow> good_rows violates msgs = queue_loop [] msgs"
  using poison_in_queue [of msgs violates] by (auto simp: good_rows_def)

lemma pg_persistBatch:
  fixes violates dlqViolates etext json
  defines "drv \<equiv> pg_driver violates dlqViolates (\<lambda>_. None) etext json"
  shows "\<forall>m \<in> set msgs. poison_err violates m = None \<Longrightarrow>
      \<exists>n. persistBatch drv p msgs = (None, p\<lparr>pgMetrics := fold InsertSQL (queue_loop [] msgs) (pgMetrics p), pgOps := n\<rparr>)"
    and "\<exists>m \<in> set msgs. poison_err violates m \<noteq> None \<Longrightarrow>
      \<exists>e n. persistBatch drv p msgs = (Some (PersistBatch e), p\<lparr>pgOps := n\<rparr>) \<and> (\<exists>m \<in> set msgs. poison_err violates m = Some e)"
proof -
  let ?b = "queue_loop [] msgs"
  show "\<exists>n. persistBatch drv p msgs = (None, p\<lparr>pgMetrics := fold InsertSQL (queue_loop [] msgs) (pgMetrics p), pgOps := n\<rparr>)"
    if "\<forall>m \<in> set msgs. poison_err violates m = None"
  proof (cases "?b = []")
    case True
    then show ?thesis by (intro exI [of _ "pgOps p"]) (simp add: persistBatch_def)
  next
    case False
    from that have "accepted violates ?b = length ?b" by (simp add: accepted_all poison_in_queue)
    then have "pg_SendBatch violates (\<lambda>_. None) p ?b = (\<lparr>execErrs = replicate (length ?b) None, closeErr = None\<rparr>,
        p\<lparr>pgMetrics := fold InsertSQL ?b (pgMetrics p), pgOps := Suc (pgOps p)\<rparr>)"
      by (simp add: pg_SendBatch_def Let_def)
    moreover have "drain_execs None (replicate k None) = None" for k by (simp add: drain_execs_None)
    ultimately show ?thesis using False
      by (intro exI [of _ "Suc (pgOps p)"]) (simp add: persistBatch_def Let_def drv_def)
  qed
  show "\<exists>e n. persistBatch drv p msgs = (Some (PersistBatch e), p\<lparr>pgOps := n\<rparr>) \<and> (\<exists>m \<in> set msgs. poison_err violates m = Some e)"
    if "\<exists>m \<in> set msgs. poison_err violates m \<noteq> None"
  proof -
    let ?i = "accepted violates ?b"
    from that have i: "?i < length ?b"
      using accepted_le [of violates ?b] accepted_all [of violates ?b] by (auto simp: poison_in_queue order.order_iff_strict)
    from accepted_nth [OF this] obtain e where e: "violates (insert_row (?b ! ?i)) = Some e" by blast
    from i have "?b ! ?i \<in> set ?b" by simp
    with e have "\<exists>m \<in> set msgs. poison_err violates m = Some e" by (force simp: queue_loop_mem poison_err_def)
    moreover have "drain_execs None (replicate ?i None @ replicate (length ?b - ?i) (Some e)) = Some e"
      using i by (cases "length ?b - ?i") (simp_all add: drain_execs_first)
    ultimately show ?thesis using i e
      by (auto simp: persistBatch_def pg_SendBatch_def Let_def drv_def)
  qed
qed

text \<open>What isolating the poison rows of a batch means, and how it composes over the bisection.\<close>

definition isolates ::
  "(metric_row \<Rightarrow> db_error option) \<Rightarrow> (db_error \<Rightarrow> string) \<Rightarrow> (TelemetryMessage \<Rightarrow> string option) \<Rightarrow>
   Pool \<Rightarrow> TelemetryMessage list \<Rightarrow> (nat \<times> collector_error option) \<times> Pool \<Rightarrow> bool" where
  "isolates violates etext json p msgs out \<longleftrightarrow>
     (let bad = filter (\<lambda>m. poison_err violates m \<noteq> None) msgs in
      fst out = (length bad, None) \<and>
      pgMetrics (snd out) = fold InsertSQL (good_rows violates msgs) (pgMetrics p) \<and>
      pgDLQ (snd out) = pgDLQ p @ map (dlq_row violates etext json) bad)"

lemma isolates_append:
  assumes "isolates violates etext json p xs ((l, None), q)" "isolates violates etext json q ys ((r, None), p')"
  shows "isolates violates etext json p (xs @ ys) ((l + r, None), p')"
  using assms by (simp add: isolates_def Let_def)

lemma isolates_row:
  assumes dlq: "dlqViolates (dlq_row violates etext json m) = None" and json: "json m \<noteq> None" and e: "poison_err violates m = Some e"
    and q: "q = p\<lparr>pgOps := n\<rparr>"
  obtains p' where "deadLetterRow (pg_driver violates dlqViolates (\<lambda>_. None) etext json) q m (PersistBatch e) = (None, p')"
    "isolates violates etext json p [m] ((1, None), p')"
proof -
  from json obtain pl where "json m = Some pl" by blast
  with e dlq q have "deadLetterRow (pg_driver violates dlqViolates (\<lambda>_. None) etext json) q m (PersistBatch e) =
      (None, p\<lparr>pgOps := Suc n, pgDLQ := pgDLQ p @ [dlq_row violates etext json m]\<rparr>)"
    by (simp add: deadLetterRow_def pg_ExecDLQInsert_def Let_def DLQInsertSQL_def dlq_row_def persist_Error_def unwrap_def)
  moreover have "good_rows violates [m] = []"
    using e by (auto simp: good_rows_def poison_err_def split: sum.splits)
  ultimately show thesis using that e by (simp add: isolates_def Let_def)
qed

lemma persistResilient_isolates:
  assumes "\<And>m e. m \<in> set msgs \<Longrightarrow> poison_err violates m = Some e \<Longrightarrow>
      isPoisonErr (PersistBatch e) \<and> json m \<noteq> None \<and> dlqViolates (dlq_row violates etext json m) = None"
  shows "isolates violates etext json p msgs (persistResilient (pg_driver violates dlqViolates (\<lambda>_. None) etext json) p msgs)"
  using assms
proof (induction "length msgs" arbitrary: msgs p rule: less_induct)
  case (less msgs p)
  let ?drv = "pg_driver violates dlqViolates (\<lambda>_. None) etext json"
  show ?case
  proof (cases "\<forall>m \<in> set msgs. poison_err violates m = None")
    case True
    with pg_persistBatch(1) [OF True, of dlqViolates etext json p] show ?thesis
      by (auto simp: persistResilient.simps [of ?drv] good_rows_all isolates_def Let_def filter_empty_conv)
  next
    case False
    then have "\<exists>m \<in> set msgs. poison_err violates m \<noteq> None" by blast
    from pg_persistBatch(2) [OF this, of dlqViolates etext json p] obtain e n m where
      pb: "persistBatch ?drv p msgs = (Some (PersistBatch e), p\<lparr>pgOps := n\<rparr>)" "m \<in> set msgs" "poison_err violates m = Some e"
      by auto
    note pe = less.prems [OF pb(2,3)]
    show ?thesis
    proof (cases "length msgs = 1")
      case True
      with pb(2) have msgs: "msgs = [m]" by (auto simp: length_Suc_conv)
      from isolates_row [where p = p and n = n and q = "p\<lparr>pgOps := n\<rparr>" and json = json and m = m and e = e
          and violates = violates and dlqViolates = dlqViolates and etext = etext] pe pb(3)
      obtain p' where
        "deadLetterRow ?drv (p\<lparr>pgOps := n\<rparr>) m (PersistBatch e) = (None, p')" "isolates violates etext json p [m] ((1, None), p')" by blast
      then show ?thesis using pb pe msgs by (simp add: persistResilient.simps [of ?drv])
    next
      case False
      let ?mid = "length msgs div 2" and ?q = "p\<lparr>pgOps := n\<rparr>"
      note shrink = bisect_shrinks [OF pb(1) [symmetric] False]
      obtain l q where left: "persistResilient ?drv ?q (take ?mid msgs) = (l, q)" by fastforce
      obtain r p' where right: "persistResilient ?drv q (drop ?mid msgs) = (r, p')" by fastforce
      have L: "isolates violates etext json p (take ?mid msgs) (l, q)"
        using less.hyps [of "take ?mid msgs" ?q] shrink less.prems left by (auto simp: isolates_def Let_def dest: in_set_takeD)
      have R: "isolates violates etext json q (drop ?mid msgs) (r, p')"
        using less.hyps [of "drop ?mid msgs" q] shrink less.prems right by (auto dest: in_set_dropD)
      from L R obtain nl nr where n: "l = (nl, None)" "r = (nr, None)" by (simp add: isolates_def Let_def)
      with pb(1) pe False left right have "persistResilient ?drv p msgs = ((nl + nr, None), p')"
        by (simp add: persistResilient.simps [of ?drv p msgs] Let_def)
      with isolates_append [OF L [unfolded n] R [unfolded n]] show ?thesis by simp
    qed
  qed
qed

text \<open>C29. Poison isolation: on a connection without faults, when every row of the batch that the server rejects is
  rejected for its data (SQLSTATE class 22 or 23), can be marshalled, and has a dead-letter row that the server accepts
  (a NUL in the payload would be refused there too), writing the batch succeeds whatever its mix of rows: it inserts
  exactly the good rows, in order, and dead-letters exactly the rejected ones, in order, with their id,
  attempts, payload and the server's error, and returns their number. Unparsable messages are skipped.\<close>

theorem poison_rows_isolated:
  assumes "\<And>m e. m \<in> set msgs \<Longrightarrow> poison_err violates m = Some e \<Longrightarrow>
      isPoisonErr (PersistBatch e) \<and> json m \<noteq> None \<and> dlqViolates (dlq_row violates etext json m) = None"
  shows "\<exists>p'. persistResilient (pg_driver violates dlqViolates (\<lambda>_. None) etext json) p msgs =
      ((length (filter (\<lambda>m. poison_err violates m \<noteq> None) msgs), None), p') \<and>
    pgMetrics p' = fold InsertSQL (good_rows violates msgs) (pgMetrics p) \<and>
    pgDLQ p' = pgDLQ p @ map (dlq_row violates etext json) (filter (\<lambda>m. poison_err violates m \<noteq> None) msgs)"
proof -
  have "isolates violates etext json p msgs (persistResilient (pg_driver violates dlqViolates (\<lambda>_. None) etext json) p msgs)"
    using assms by (rule persistResilient_isolates)
  then show ?thesis
    by (cases "persistResilient (pg_driver violates dlqViolates (\<lambda>_. None) etext json) p msgs")
      (auto simp: isolates_def Let_def)
qed

section \<open>Redelivery\<close>

fun fault_err :: "db_fault \<Rightarrow> db_error" where
  "fault_err (FaultBefore e) = e"
| "fault_err (FaultAfter e) = e"

definition settled :: "(metric_row \<Rightarrow> db_error option) \<Rightarrow> Pool \<Rightarrow> TelemetryMessage \<Rightarrow> bool" where
  "settled violates p m \<longleftrightarrow> (\<forall>g. FromProto m = Inr g \<longrightarrow> violates (insert_row g) \<noteq> None \<or> pg_stored p g)"

lemma InsertSQL_stored: "natural_key (insert_row m) \<in> natural_key ` set t \<Longrightarrow> InsertSQL m t = t"
  by (simp add: InsertSQL_def Let_def)

lemma inserts_stored: "\<forall>g \<in> set gs. natural_key (insert_row g) \<in> natural_key ` set t \<Longrightarrow> fold InsertSQL gs t = t"
  by (induction gs arbitrary: t) (simp_all add: InsertSQL_stored)

lemma settled_queue:
  "\<forall>m \<in> set msgs. settled violates p m \<Longrightarrow> accepted violates (queue_loop [] msgs) = length (queue_loop [] msgs) \<Longrightarrow>
     fold InsertSQL (queue_loop [] msgs) (pgMetrics p) = pgMetrics p"
  by (intro inserts_stored ballI) (metis accepted_all option.discI pg_stored_def queue_loop_mem settled_def)

lemma persistBatch_settled:
  assumes "persistBatch (pg_driver violates dlqViolates fault etext json) p msgs = (e, p')"
    "\<forall>m \<in> set msgs. settled violates p m"
  shows "pgMetrics p' = pgMetrics p"
  using assms(1) settled_queue [OF assms(2)]
  by (auto simp: persistBatch_def pg_SendBatch_def Let_def split: if_splits option.splits db_fault.splits)

lemma deadLetterRow_metrics:
  "deadLetterRow (pg_driver violates dlqViolates fault etext json) p m c = (e, p') \<Longrightarrow> pgMetrics p' = pgMetrics p"
  by (auto simp: deadLetterRow_def pg_ExecDLQInsert_def Let_def split: option.splits db_fault.splits prod.splits if_splits)

lemma settled_cong: "pgMetrics p = pgMetrics q \<Longrightarrow> settled violates p m = settled violates q m"
  by (simp add: settled_def pg_stored_def)

lemma bisection_settled:
  assumes "bisection (pg_driver violates dlqViolates fault etext json) p msgs n e p'" "\<forall>m \<in> set msgs. settled violates p m"
  shows "pgMetrics p' = pgMetrics p"
  using assms
proof (induction rule: bisection.induct)
  case (left_fails p msgs err q l e p')
  then show ?case using persistBatch_settled settled_cong by (metis in_set_takeD)
next
  case (halves p msgs err q l q' r e p')
  then have "pgMetrics q = pgMetrics p" using persistBatch_settled by blast
  with halves have "pgMetrics q' = pgMetrics p" using settled_cong by (metis in_set_takeD)
  with halves show ?case using settled_cong by (metis in_set_dropD)
qed (metis persistBatch_settled deadLetterRow_metrics)+

lemma persistBatch_row_poison:
  assumes "persistBatch (pg_driver violates dlqViolates fault etext json) p [m] = (Some err, p')" "isPoisonErr err"
    "\<And>k f. fault k = Some f \<Longrightarrow> \<not> isPoisonErr (PersistBatch (fault_err f))"
  shows "settled violates q m"
proof (cases "FromProto m")
  case (Inr g)
  show ?thesis
  proof (cases "fault (pgOps p)")
    case (Some f)
    with assms(1) Inr have "err = PersistBatch (fault_err f)"
      by (cases f) (auto simp: persistBatch_def pg_SendBatch_def Let_def)
    with assms(2,3) Some show ?thesis by blast
  next
    case None
    with assms(1) Inr show ?thesis
      by (auto simp: persistBatch_def pg_SendBatch_def Let_def settled_def accepted_def split: if_splits)
  qed
qed (simp add: settled_def)

lemma settled_keeps: "pg.keeps p q \<Longrightarrow> settled violates p m \<Longrightarrow> settled violates q m"
  by (auto simp: settled_def pg.keeps_def)

lemma bisection_settles:
  assumes "bisection (pg_driver violates dlqViolates fault etext json) p msgs n e p'" "e = None" "m \<in> set msgs"
    and transient: "\<And>k f. fault k = Some f \<Longrightarrow> \<not> isPoisonErr (PersistBatch (fault_err f))"
  shows "settled violates p' m"
  using assms(1-3)
proof (induction rule: bisection.induct)
  case (whole p msgs p')
  then show ?case unfolding settled_def using pg.persistBatch_stores by blast
next
  case (row p m' err q p')
  with persistBatch_row_poison [OF row(1,2) transient] show ?case by simp
next
  case (halves p msgs err q l q' r e p')
  from halves.prems(2) consider "m \<in> set (take (length msgs div 2) msgs)" | "m \<in> set (drop (length msgs div 2) msgs)"
    by (metis UnE append_take_drop_id set_append)
  then show ?case
  proof cases
    case 1
    with halves.IH(1) halves.hyps(5) show ?thesis using pg.bisection_keeps settled_keeps by metis
  qed (use halves in blast)
qed simp_all

text \<open>C30. Redelivery is harmless: once a batch was written successfully, under any transient faults on the way,
  delivering any of its messages again (with whatever broker ids and attempt counts, in any batches) to a
  database that still has those rows never changes \<open>gpu_metrics\<close>, whatever faults hit the second write.\<close>

theorem redelivery_idempotent:
  assumes "persistResilient (pg_driver violates dlqViolates fault etext json) p msgs = ((n, None), p')"
    "\<And>k f. fault k = Some f \<Longrightarrow> \<not> isPoisonErr (PersistBatch (fault_err f))"
    "natural_key ` set (pgMetrics p') \<subseteq> natural_key ` set (pgMetrics q)"
    "\<And>m. m \<in> set again \<Longrightarrow> \<exists>m0 \<in> set msgs. \<exists>i a. m = m0\<lparr>pbId := i, pbDeliveryAttempts := a\<rparr>"
    "persistResilient (pg_driver violates dlqViolates2 fault2 etext2 json2) q again = (out, q')"
  shows "pgMetrics q' = pgMetrics q"
proof -
  have "settled violates q m" if "m \<in> set again" for m
  proof -
    from assms(4) [OF that] obtain m0 i a where m0: "m0 \<in> set msgs" "m = m0\<lparr>pbId := i, pbDeliveryAttempts := a\<rparr>" by blast
    from bisection_settles [OF persistResilient_bisection [OF assms(1)] refl m0(1) assms(2)]
    have "settled violates p' m0" .
    then have "settled violates p' m" using m0(2) by (simp add: settled_def FromProto_broker_fields)
    with assms(3) show ?thesis unfolding settled_def pg_stored_def by blast
  qed
  moreover obtain k e where "out = (k, e)" by fastforce
  ultimately show ?thesis
    using bisection_settled [OF persistResilient_bisection, of violates dlqViolates2 fault2 etext2 json2 q again k e q'] assms(5)
    by simp
qed

section \<open>A batch with a poison row\<close>

definition demo_tm :: "string \<Rightarrow> string \<Rightarrow> uint64 \<Rightarrow> TelemetryMessage" where
  "demo_tm ts mn i = \<lparr>pbTimestamp = ts, pbMetricName = mn, pbGpuId = ''0'', pbDevice = '''', pbUuid = ''g'', pbModelName = '''',
     pbHostname = '''', pbContainer = '''', pbPod = '''', pbNamespace = '''', pbValue = 0, pbLabelsRaw = '''', pbId = i,
     pbDeliveryAttempts = 1\<rparr>"

text \<open>The server refuses the metric name \<open>x\<close>; the third message has no valid timestamp.\<close>

definition demo_violates :: "metric_row \<Rightarrow> db_error option" where
  "demo_violates r = (if c_metric_name r = ''x'' then Some (PgError ''23514'' ''check'') else None)"

definition demo_json :: "TelemetryMessage \<Rightarrow> string option" where
  "demo_json m = Some (pbMetricName m)"

definition demo_etext :: "db_error \<Rightarrow> string" where
  "demo_etext e = (case e of PgError c t \<Rightarrow> t | ConnError t \<Rightarrow> t)"

definition demo_batch :: "TelemetryMessage list" where
  "demo_batch = [demo_tm ''1970-01-01T00:00:00Z'' ''a'' 1, demo_tm ''1970-01-01T00:00:00Z'' ''x'' 2,
     demo_tm ''today'' ''a'' 3, demo_tm ''1970-01-01T00:00:00Z'' ''b'' 4]"

definition demo_pool :: Pool where
  "demo_pool = \<lparr>pgMetrics = [], pgDLQ = [], pgOps = 0\<rparr>"

lemma demo_poison: "demo_violates r = Some e \<Longrightarrow> isPoisonErr (PersistBatch e)"
  by (auto simp: demo_violates_def isPoisonErr_def unwrap_def split: if_splits)

lemma demo_outcome:
  "length (filter (\<lambda>m. poison_err demo_violates m \<noteq> None) demo_batch) = 1"
  "map c_metric_name (fold InsertSQL (good_rows demo_violates demo_batch) (pgMetrics demo_pool)) = [''a'', ''b'']"
  "map d_payload (pgDLQ demo_pool @ map (dlq_row demo_violates demo_etext demo_json)
     (filter (\<lambda>m. poison_err demo_violates m \<noteq> None) demo_batch)) = [''x'']"
  by code_simp+

lemma demo_poison_err: "poison_err demo_violates m = Some e \<Longrightarrow> isPoisonErr (PersistBatch e)"
  using demo_poison by (auto simp: poison_err_def split: sum.splits)

theorem poison_rows_isolated_witness:
  "\<exists>p'. persistResilient (pg_driver demo_violates (\<lambda>_. None) (\<lambda>_. None) demo_etext demo_json) demo_pool demo_batch = ((1, None), p') \<and>
    map c_metric_name (pgMetrics p') = [''a'', ''b''] \<and> map d_payload (pgDLQ p') = [''x'']"
proof -
  have "\<exists>p'. persistResilient (pg_driver demo_violates (\<lambda>_. None) (\<lambda>_. None) demo_etext demo_json) demo_pool demo_batch =
        ((length (filter (\<lambda>m. poison_err demo_violates m \<noteq> None) demo_batch), None), p') \<and>
      pgMetrics p' = fold InsertSQL (good_rows demo_violates demo_batch) (pgMetrics demo_pool) \<and>
      pgDLQ p' = pgDLQ demo_pool @ map (dlq_row demo_violates demo_etext demo_json)
        (filter (\<lambda>m. poison_err demo_violates m \<noteq> None) demo_batch)"
    by (rule poison_rows_isolated) (simp add: demo_json_def demo_poison_err)
  then obtain p' where "persistResilient (pg_driver demo_violates (\<lambda>_. None) (\<lambda>_. None) demo_etext demo_json) demo_pool demo_batch =
        ((length (filter (\<lambda>m. poison_err demo_violates m \<noteq> None) demo_batch), None), p')"
      "pgMetrics p' = fold InsertSQL (good_rows demo_violates demo_batch) (pgMetrics demo_pool)"
      "pgDLQ p' = pgDLQ demo_pool @ map (dlq_row demo_violates demo_etext demo_json)
        (filter (\<lambda>m. poison_err demo_violates m \<noteq> None) demo_batch)" by (elim exE conjE) (rule that)
  with demo_outcome show ?thesis by (intro exI [of _ p']) simp
qed

lemma demo_batch_written:
  "\<exists>p'. persistResilient (pg_driver demo_violates (\<lambda>_. None) (\<lambda>_. None) demo_etext demo_json) demo_pool demo_batch = ((1, None), p') \<and>
    map c_metric_name (pgMetrics p') = [''a'', ''b'']"
proof -
  obtain out p' where run:
    "persistResilient (pg_driver demo_violates (\<lambda>_. None) (\<lambda>_. None) demo_etext demo_json) demo_pool demo_batch = (out, p')"
    by fastforce
  have "isolates demo_violates demo_etext demo_json demo_pool demo_batch
      (persistResilient (pg_driver demo_violates (\<lambda>_. None) (\<lambda>_. None) demo_etext demo_json) demo_pool demo_batch)"
    by (rule persistResilient_isolates) (simp add: demo_json_def demo_poison_err)
  with run demo_outcome show ?thesis by (simp add: isolates_def Let_def)
qed

theorem redelivery_idempotent_witness:
  "\<exists>p' q' out. persistResilient (pg_driver demo_violates (\<lambda>_. None) (\<lambda>_. None) demo_etext demo_json) demo_pool demo_batch = ((1, None), p') \<and>
    persistResilient (pg_driver demo_violates (\<lambda>_. None) (\<lambda>_. Some (FaultAfter (ConnError ''lost''))) demo_etext demo_json) p' demo_batch = (out, q') \<and>
    pgMetrics q' = pgMetrics p' \<and> map c_metric_name (pgMetrics p') = [''a'', ''b'']"
proof -
  from demo_batch_written obtain p' where first:
    "persistResilient (pg_driver demo_violates (\<lambda>_. None) (\<lambda>_. None) demo_etext demo_json) demo_pool demo_batch = ((1, None), p')"
    "map c_metric_name (pgMetrics p') = [''a'', ''b'']" by (elim exE conjE) (rule that)
  obtain out q' where second:
    "persistResilient (pg_driver demo_violates (\<lambda>_. None) (\<lambda>_. Some (FaultAfter (ConnError ''lost''))) demo_etext demo_json) p' demo_batch = (out, q')"
    by (rule prod.exhaust)
  have again: "\<exists>m0 \<in> set demo_batch. \<exists>i a. m = m0\<lparr>pbId := i, pbDeliveryAttempts := a\<rparr>" if "m \<in> set demo_batch" for m
    using that by (intro bexI [of _ m] exI [of _ "pbId m"] exI [of _ "pbDeliveryAttempts m"]) simp_all
  have "pgMetrics q' = pgMetrics p'"
    by (rule redelivery_idempotent [OF first(1) _ order_refl again second]) simp_all
  with first second show ?thesis by (intro exI conjI)
qed

end
