(* ===== verification/Collector_Stream.thy ===== *)
theory Collector_Stream
  imports Collector
begin

text \<open>
  The consuming side of the collector (\<open>internal/collector/collector.go\<close>): one stream to the queue with
  its receiving and its batching goroutine (\<open>consumeStream\<close>), and the reconnect loop of the runner. The two
  goroutines share the channel \<open>msgCh\<close>; a run is a sequence of events, each the next step of one of them,
  so every interleaving is a sequence. \<open>send n\<close> is the error of the \<open>n\<close>-th \<open>stream.Send\<close>, if any.
\<close>

section \<open>Flush metrics\<close>

record FlushMetrics =
  dbErrorsTotal :: nat
  batchRows :: "nat list"
  batchesTotal :: nat
  deadLetteredTotal :: nat

text \<open>The observed latency is left out.\<close>

definition observeFlush :: "nat \<Rightarrow> nat \<Rightarrow> collector_error option \<Rightarrow> FlushMetrics \<Rightarrow> FlushMetrics" where
  "observeFlush rows isolated err mx =
     (if err \<noteq> None then mx\<lparr>dbErrorsTotal := Suc (dbErrorsTotal mx)\<rparr>
      else
        let mx = mx\<lparr>batchRows := batchRows mx @ [rows], batchesTotal := Suc (batchesTotal mx)\<rparr> in
        if isolated > 0 then mx\<lparr>deadLetteredTotal := deadLetteredTotal mx + isolated\<rparr> else mx)"

section \<open>The stream\<close>

datatype recv_state = Receiving | Pushing TelemetryMessage | RecvExited collector_error

record 'p ConsumeStream =
  csPool :: 'p
  csMsgCh :: "TelemetryMessage list"
  csRecv :: recv_state
  csBatch :: "TelemetryMessage list"
  csSends :: nat
  csCreditSent :: int
  csAcked :: "uint64 list"
  csMetrics :: FlushMetrics
  csReady :: bool
  csCtxDone :: bool
  csRet :: "collector_error option"

text \<open>Returning runs the deferred calls: the context is cancelled and readiness is taken back.\<close>

definition return_err :: "collector_error \<Rightarrow> 'p ConsumeStream \<Rightarrow> 'p ConsumeStream" where
  "return_err err cs = cs\<lparr>csRet := Some err, csReady := False, csCtxDone := True\<rparr>"

text \<open>
  Opening: the RPC, readiness, the channel of \<open>Credit\<close> pointers, the receiving goroutine, the credit
  handshake (an \<open>int32\<close>), the ticker. A channel beyond the address space (its header takes 96 bytes) and a ticker with a non-positive
  period panic; the period is \<open>FlushMS\<close> milliseconds in \<open>int64\<close>, which can overflow.
\<close>

definition make_chan_ok :: "int \<Rightarrow> int \<Rightarrow> bool" where
  "make_chan_ok sz n \<longleftrightarrow> 0 \<le> n \<and> sz * n \<le> maxAlloc - 96"

definition consumeStream_open ::
  "string option \<Rightarrow> (nat \<Rightarrow> string option) \<Rightarrow> CollectorConfig \<Rightarrow> FlushMetrics \<Rightarrow> 'p \<Rightarrow> collector_error + 'p ConsumeStream" where
  "consumeStream_open openErr send ccfg mx pool =
     (case openErr of
        Some err \<Rightarrow> Inl (OpenStream err)
      | None \<Rightarrow>
          if \<not> make_chan_ok 8 (ccCredit ccfg) then Inl Panics else
          let cs = \<lparr>csPool = pool, csMsgCh = [], csRecv = Receiving, csBatch = [], csSends = 1,
                csCreditSent = sint (word_of_int (ccCredit ccfg) :: uint32), csAcked = [], csMetrics = mx,
                csReady = True, csCtxDone = False, csRet = None\<rparr>
          in (case send 0 of
                Some err \<Rightarrow> Inr (return_err (SendHandshake err) cs)
              | None \<Rightarrow> if millis (ccFlushMS ccfg) \<le> 0 then Inl Panics else Inr cs))"

fun send_acks ::
  "(nat \<Rightarrow> string option) \<Rightarrow> TelemetryMessage list \<Rightarrow> 'p ConsumeStream \<Rightarrow> collector_error option \<times> 'p ConsumeStream" where
  "send_acks send [] cs = (None, cs)"
| "send_acks send (m # ms) cs =
     (case send (csSends cs) of
        Some err \<Rightarrow> (Some (SendAck (pbId m) err), cs\<lparr>csSends := Suc (csSends cs)\<rparr>)
      | None \<Rightarrow> send_acks send ms (cs\<lparr>csSends := Suc (csSends cs), csAcked := csAcked cs @ [pbId m]\<rparr>))"

definition flush ::
  "'p driver \<Rightarrow> (nat \<Rightarrow> string option) \<Rightarrow> 'p ConsumeStream \<Rightarrow> collector_error option \<times> 'p ConsumeStream" where
  "flush drv send cs =
     (if length (csBatch cs) = 0 then (None, cs)
      else
        (case persistResilient drv (csPool cs) (csBatch cs) of
           ((isolated, err), pool) \<Rightarrow>
             let cs = cs\<lparr>csPool := pool,
                   csMetrics := observeFlush (length (csBatch cs)) isolated err (csMetrics cs)\<rparr>
             in (case err of
                   Some e \<Rightarrow> (Some e, cs)
                 | None \<Rightarrow>
                     (case send_acks send (csBatch cs) cs of
                        (Some e, cs) \<Rightarrow> (Some e, cs)
                      | (None, cs) \<Rightarrow> (None, cs\<lparr>csBatch := []\<rparr>)))))"

definition flush_or_return :: "'p driver \<Rightarrow> (nat \<Rightarrow> string option) \<Rightarrow> 'p ConsumeStream \<Rightarrow> 'p ConsumeStream" where
  "flush_or_return drv send cs =
     (case flush drv send cs of (Some err, cs) \<Rightarrow> return_err err cs | (None, cs) \<Rightarrow> cs)"

text \<open>
  The receiving goroutine gets a message and offers it to the channel (or gives up when the context is
  done), or exits with the error of \<open>Recv\<close>, closing the channel. The batching goroutine takes a message,
  finds the channel closed and drained, sees a tick, or sees the context done. \<open>EvCancel\<close> is the caller
  cancelling. A step that is not enabled is \<open>None\<close>.
\<close>

datatype collector_event =
  EvRecv TelemetryMessage | EvRecvErr string | EvPush | EvRecvCancel | EvTake | EvClosed | EvTick | EvDone | EvCancel

fun consume_step ::
  "'p driver \<Rightarrow> (nat \<Rightarrow> string option) \<Rightarrow> CollectorConfig \<Rightarrow> collector_event \<Rightarrow> 'p ConsumeStream \<Rightarrow> 'p ConsumeStream option" where
  "consume_step drv send ccfg (EvRecv m) cs =
     (if csRecv cs = Receiving then Some (cs\<lparr>csRecv := Pushing m\<rparr>) else None)"
| "consume_step drv send ccfg (EvRecvErr err) cs =
     (if csRecv cs = Receiving then Some (cs\<lparr>csRecv := RecvExited (RecvError err)\<rparr>) else None)"
| "consume_step drv send ccfg EvPush cs =
     (case csRecv cs of
        Pushing m \<Rightarrow>
          if int (length (csMsgCh cs)) < ccCredit ccfg
          then Some (cs\<lparr>csMsgCh := csMsgCh cs @ [m], csRecv := Receiving\<rparr>) else None
      | _ \<Rightarrow> None)"
| "consume_step drv send ccfg EvRecvCancel cs =
     (case csRecv cs of
        Pushing m \<Rightarrow> if csCtxDone cs then Some (cs\<lparr>csRecv := RecvExited CtxError\<rparr>) else None
      | _ \<Rightarrow> None)"
| "consume_step drv send ccfg EvTake cs =
     (case csMsgCh cs of
        m # ms \<Rightarrow>
          if csRet cs \<noteq> None then None
          else
            let cs = cs\<lparr>csMsgCh := ms, csBatch := csBatch cs @ [m]\<rparr> in
            Some (if int (length (csBatch cs)) \<ge> ccBatchSize ccfg then flush_or_return drv send cs else cs)
      | [] \<Rightarrow> None)"
| "consume_step drv send ccfg EvClosed cs =
     (case csRecv cs of
        RecvExited err \<Rightarrow>
          if csRet cs \<noteq> None \<or> csMsgCh cs \<noteq> [] then None
          else Some (return_err err (snd (flush drv send cs)))
      | _ \<Rightarrow> None)"
| "consume_step drv send ccfg EvTick cs = (if csRet cs \<noteq> None then None else Some (flush_or_return drv send cs))"
| "consume_step drv send ccfg EvDone cs =
     (if csRet cs \<noteq> None \<or> \<not> csCtxDone cs then None else Some (return_err CtxError cs))"
| "consume_step drv send ccfg EvCancel cs = Some (cs\<lparr>csCtxDone := True\<rparr>)"

fun consume_run ::
  "'p driver \<Rightarrow> (nat \<Rightarrow> string option) \<Rightarrow> CollectorConfig \<Rightarrow> collector_event list \<Rightarrow> 'p ConsumeStream \<Rightarrow> 'p ConsumeStream option" where
  "consume_run drv send ccfg [] cs = Some cs"
| "consume_run drv send ccfg (ev # evs) cs = do { cs \<leftarrow> consume_step drv send ccfg ev cs; consume_run drv send ccfg evs cs }"

section \<open>The reconnect loop\<close>

text \<open>
  One round of \<open>Runner.Run\<close>: the context is already done at the top, the dial fails, or a stream ended after
  some time; then the wait, which the context may cut short. The result is the waits taken and whether
  the loop returned.
\<close>

datatype run_event =
    CtxAtTop
  | DialFails (wait_cancelled: bool)
  | StreamEnds (elapsed: duration) (ctx_err: bool) (wait_cancelled: bool)

definition maxBackoff :: duration where "maxBackoff = 5 * Second"
definition baseBackoff :: duration where "baseBackoff = 100 * Millisecond"

fun Run_loop :: "duration \<Rightarrow> run_event list \<Rightarrow> duration list \<times> bool" where
  "Run_loop delay [] = ([], False)"
| "Run_loop delay (CtxAtTop # evs) = ([], True)"
| "Run_loop delay (DialFails cancelled # evs) =
     (if cancelled then ([delay], True)
      else let (waits, ret) = Run_loop (min (delay * 2) maxBackoff) evs in (delay # waits, ret))"
| "Run_loop delay (StreamEnds el ctxErr cancelled # evs) =
     (if ctxErr then ([], True)
      else
        let delay = (if el > 5 * Second then baseBackoff else delay) in
        if cancelled then ([delay], True)
        else let (waits, ret) = Run_loop (min (delay * 2) maxBackoff) evs in (delay # waits, ret))"

definition Runner_Run :: "run_event list \<Rightarrow> duration list \<times> bool" where
  "Runner_Run evs = Run_loop baseBackoff evs"

section \<open>Acknowledged means durable\<close>

fun received :: "collector_event list \<Rightarrow> TelemetryMessage list" where
  "received [] = []"
| "received (EvRecv m # evs) = m # received evs"
| "received (_ # evs) = received evs"

lemma send_acks_prefix:
  "send_acks send ms cs = (e, cs') \<Longrightarrow> \<exists>k sn. k \<le> length ms \<and> (e = None \<longrightarrow> k = length ms) \<and>
     cs' = cs\<lparr>csSends := sn, csAcked := csAcked cs @ map pbId (take k ms)\<rparr>"
proof (induction send ms cs rule: send_acks.induct)
  case (1 send cs)
  then have "e = None" "cs' = cs\<lparr>csSends := csSends cs, csAcked := csAcked cs @ map pbId (take 0 [])\<rparr>" by simp_all
  then show ?case by (metis le_refl list.size(3))
next
  case (2 send m ms cs)
  show ?case
  proof (cases "send (csSends cs)")
    case None
    let ?cs = "cs\<lparr>csSends := Suc (csSends cs), csAcked := csAcked cs @ [pbId m]\<rparr>"
    from None "2.prems" have "send_acks send ms ?cs = (e, cs')" by simp
    from "2.IH" [OF None this] obtain k sn where k: "k \<le> length ms" "e = None \<longrightarrow> k = length ms"
      "cs' = ?cs\<lparr>csSends := sn, csAcked := csAcked ?cs @ map pbId (take k ms)\<rparr>" by (elim exE conjE) (rule that)
    from k(3) have "cs' = cs\<lparr>csSends := sn, csAcked := csAcked cs @ map pbId (take (Suc k) (m # ms))\<rparr>" by simp
    moreover from k have "Suc k \<le> length (m # ms)" "e = None \<longrightarrow> Suc k = length (m # ms)" by simp_all
    ultimately show ?thesis by metis
  next
    case (Some err)
    with "2.prems" have "e = Some (SendAck (pbId m) err) \<and> cs' = cs\<lparr>csSends := Suc (csSends cs)\<rparr>" by auto
    then have "e \<noteq> None" "cs' = cs\<lparr>csSends := Suc (csSends cs), csAcked := csAcked cs @ map pbId (take 0 (m # ms))\<rparr>"
      by simp_all
    then show ?thesis by (metis le0)
  qed
qed

lemma flush_split:
  assumes "flush drv send cs = (e, cs')"
  obtains (empty) "csBatch cs = []" "e = None" "cs' = cs"
  | (failed) n p' err mx where "persistResilient drv (csPool cs) (csBatch cs) = ((n, Some err), p')" "e = Some err"
      "cs' = cs\<lparr>csPool := p', csMetrics := mx\<rparr>"
  | (acked) n p' k mx sn where "persistResilient drv (csPool cs) (csBatch cs) = ((n, None), p')" "k \<le> length (csBatch cs)"
      "e = None \<longrightarrow> k = length (csBatch cs)"
      "cs' = cs\<lparr>csPool := p', csMetrics := mx, csSends := sn, csAcked := csAcked cs @ map pbId (take k (csBatch cs)),
         csBatch := (if e = None then [] else csBatch cs)\<rparr>"
proof (cases "csBatch cs = []")
  case True
  with assms have "e = None" "cs' = cs" by (simp_all add: flush_def)
  with True show thesis by (rule empty)
next
  case False
  obtain n pe p' where pr: "persistResilient drv (csPool cs) (csBatch cs) = ((n, pe), p')" by (metis prod.exhaust)
  let ?mx = "observeFlush (length (csBatch cs)) n pe (csMetrics cs)"
  show thesis
  proof (cases pe)
    case (Some err)
    with assms False pr have "e = Some err \<and> cs' = cs\<lparr>csPool := p', csMetrics := ?mx\<rparr>"
      by (auto simp: flush_def Let_def)
    with pr Some show thesis by (intro failed [of n err p' ?mx]) simp_all
  next
    case None
    obtain ae cs1 where sa: "send_acks send (csBatch cs) (cs\<lparr>csPool := p', csMetrics := ?mx\<rparr>) = (ae, cs1)" by (metis prod.exhaust)
    from send_acks_prefix [OF sa] obtain k sn where k: "k \<le> length (csBatch cs)" "ae = None \<longrightarrow> k = length (csBatch cs)"
      "cs1 = cs\<lparr>csPool := p', csMetrics := ?mx, csSends := sn, csAcked := csAcked cs @ map pbId (take k (csBatch cs))\<rparr>"
      by (elim exE conjE, intro that) simp_all
    from assms False pr None sa have "e = ae" "cs' = (if ae = None then cs1\<lparr>csBatch := []\<rparr> else cs1)"
      by (auto simp: flush_def Let_def split: option.splits)
    with k pr None show thesis by (intro acked [where n = n and p' = p' and k = k and mx = ?mx and sn = sn]) simp_all
  qed
qed

definition pending :: "recv_state \<Rightarrow> TelemetryMessage list \<Rightarrow> bool" where
  "pending r rest \<longleftrightarrow> (case r of Receiving \<Rightarrow> rest = [] | Pushing m \<Rightarrow> rest = [m] | RecvExited e \<Rightarrow> True)"

context durable_db
begin

definition acked_handled :: "TelemetryMessage list \<Rightarrow> 'p ConsumeStream \<Rightarrow> bool" where
  "acked_handled A cs \<longleftrightarrow> csAcked cs = map pbId A \<and> (\<forall>m \<in> set A. handled (csPool cs) m)"

text \<open>Of the received messages a prefix \<open>A\<close> is acknowledged; while the stream runs, the rest is in the batch, the
  channel and the hands of the receiving goroutine, in this order.\<close>

definition running_inv :: "CollectorConfig \<Rightarrow> TelemetryMessage list \<Rightarrow> TelemetryMessage list \<Rightarrow> 'p ConsumeStream \<Rightarrow> bool" where
  "running_inv ccfg B rest cs \<longleftrightarrow> B = csBatch cs @ csMsgCh cs @ rest \<and> pending (csRecv cs) rest \<and>
     (csBatch cs = [] \<or> int (length (csBatch cs)) < ccBatchSize ccfg)"

definition stream_inv :: "CollectorConfig \<Rightarrow> TelemetryMessage list \<Rightarrow> 'p ConsumeStream \<Rightarrow> bool" where
  "stream_inv ccfg R cs \<longleftrightarrow> (\<exists>A B rest. R = A @ B \<and> acked_handled A cs \<and> (csRet cs = None \<longrightarrow> running_inv ccfg B rest cs))"

lemma stream_invI:
  "R = A @ B \<Longrightarrow> acked_handled A cs \<Longrightarrow> (csRet cs = None \<Longrightarrow> running_inv ccfg B rest cs) \<Longrightarrow> stream_inv ccfg R cs"
  unfolding stream_inv_def by (intro exI conjI impI) simp_all

lemma flush_acks:
  assumes "flush drv send cs = (e, cs')" "acked_handled A cs"
  obtains k where "k \<le> length (csBatch cs)" "acked_handled (A @ take k (csBatch cs)) cs'"
    "e = None \<longrightarrow> k = length (csBatch cs) \<and> csBatch cs' = []"
    "csMsgCh cs' = csMsgCh cs" "csRecv cs' = csRecv cs" "csRet cs' = csRet cs"
  using assms(1)
proof (cases rule: flush_split)
  case empty
  with assms(2) show thesis by (intro that [of 0]) simp_all
next
  case (failed n p' err mx)
  have "keeps (csPool cs) p'" using failed(1) by (rule persistResilient_keeps)
  with assms(2) failed show thesis by (intro that [of 0]) (auto simp: acked_handled_def intro: handled_mono)
next
  case (acked n p' k mx sn)
  have "keeps (csPool cs) p'" using acked(1) by (rule persistResilient_keeps)
  moreover have "handled p' m" if "m \<in> set (take k (csBatch cs))" for m
    using acked(1) in_set_takeD [OF that] by (rule persistResilient_handles)
  ultimately have "acked_handled (A @ take k (csBatch cs)) cs'"
    using assms(2) acked(4) by (auto simp: acked_handled_def intro: handled_mono)
  with acked show thesis by (intro that [of k]) simp_all
qed

lemma flush_or_return_inv:
  assumes "R = A @ csBatch cs @ csMsgCh cs @ rest" "acked_handled A cs" "pending (csRecv cs) rest"
  shows "stream_inv ccfg R (flush_or_return drv send cs)"
proof -
  obtain e cs' where f: "flush drv send cs = (e, cs')" by fastforce
  from flush_acks [OF f assms(2)] obtain k where k: "k \<le> length (csBatch cs)" "acked_handled (A @ take k (csBatch cs)) cs'"
    "e = None \<longrightarrow> k = length (csBatch cs) \<and> csBatch cs' = []"
    "csMsgCh cs' = csMsgCh cs" "csRecv cs' = csRecv cs" "csRet cs' = csRet cs" .
  show ?thesis
  proof (rule stream_invI [where A = "A @ take k (csBatch cs)" and B = "drop k (csBatch cs) @ csMsgCh cs @ rest" and rest = rest])
    show "R = (A @ take k (csBatch cs)) @ drop k (csBatch cs) @ csMsgCh cs @ rest" using assms(1) by simp
    show "acked_handled (A @ take k (csBatch cs)) (flush_or_return drv send cs)"
      using f k(2) by (cases e) (simp_all add: flush_or_return_def return_err_def acked_handled_def)
    show "running_inv ccfg (drop k (csBatch cs) @ csMsgCh cs @ rest) rest (flush_or_return drv send cs)"
      if "csRet (flush_or_return drv send cs) = None"
      using that f k assms(3) by (cases e) (simp_all add: flush_or_return_def return_err_def running_inv_def)
  qed
qed

lemma recv_step_inv:
  assumes "R = A @ B" "acked_handled A cs" "csRet cs = None \<longrightarrow> running_inv ccfg B rest cs"
    and step: "consume_step drv send ccfg ev cs = Some cs'" and ev: "ev \<notin> {EvTake, EvClosed, EvTick, EvDone}"
  shows "stream_inv ccfg (R @ received [ev]) cs'"
proof (cases ev)
  case (EvRecv m)
  with assms show ?thesis
    by (intro stream_invI [where A = A and B = "B @ [m]" and rest = "rest @ [m]"])
      (auto simp: acked_handled_def running_inv_def pending_def split: if_splits)
next
  case (EvRecvErr err)
  with assms show ?thesis
    by (intro stream_invI [where A = A and B = B and rest = rest])
      (auto simp: acked_handled_def running_inv_def pending_def split: if_splits)
next
  case EvPush
  with assms show ?thesis
    by (intro stream_invI [where A = A and B = B and rest = "[]"])
      (auto simp: acked_handled_def running_inv_def pending_def split: if_splits recv_state.splits)
next
  case EvRecvCancel
  with assms show ?thesis
    by (intro stream_invI [where A = A and B = B and rest = rest])
      (auto simp: acked_handled_def running_inv_def pending_def split: if_splits recv_state.splits)
next
  case EvCancel
  with assms show ?thesis
    by (intro stream_invI [where A = A and B = B and rest = rest]) (auto simp: acked_handled_def running_inv_def)
qed (use ev in auto)

lemma batch_step_inv:
  assumes R: "R = A @ B" and ah: "acked_handled A cs" and run: "csRet cs = None \<longrightarrow> running_inv ccfg B rest cs"
    and step: "consume_step drv send ccfg ev cs = Some cs'" and ev: "ev \<in> {EvTake, EvClosed, EvTick, EvDone}"
  shows "stream_inv ccfg R cs'"
proof -
  have B: "B = csBatch cs @ csMsgCh cs @ rest" "pending (csRecv cs) rest"
    using run step ev by (auto simp: running_inv_def split: list.splits recv_state.splits if_splits)
  show ?thesis using ev
  proof (elim insertE emptyE)
    assume "ev = EvTake"
    with step obtain m ms where ch: "csMsgCh cs = m # ms" by (auto split: list.splits)
    let ?cs = "cs\<lparr>csMsgCh := ms, csBatch := csBatch cs @ [m]\<rparr>"
    have ah': "acked_handled A ?cs" using ah by (simp add: acked_handled_def)
    have cs': "cs' = (if int (length (csBatch ?cs)) \<ge> ccBatchSize ccfg then flush_or_return drv send ?cs else ?cs)"
      using step \<open>ev = EvTake\<close> ch by (auto simp: Let_def split: if_splits)
    show ?thesis
    proof (cases "int (length (csBatch ?cs)) \<ge> ccBatchSize ccfg")
      case True
      with cs' flush_or_return_inv [OF _ ah', of R rest] R B ch show ?thesis by simp
    next
      case False
      with cs' R B ch ah' show ?thesis
        by (intro stream_invI [where A = A and B = B and rest = rest]) (auto simp: running_inv_def)
    qed
  next
    assume "ev = EvClosed"
    with step obtain err where cs': "cs' = return_err err (snd (flush drv send cs))" by (auto split: recv_state.splits if_splits)
    obtain e cs1 where f: "flush drv send cs = (e, cs1)" by fastforce
    from flush_acks [OF f ah] obtain k where k: "acked_handled (A @ take k (csBatch cs)) cs1" by metis
    then show ?thesis using R B f cs'
      by (intro stream_invI [where A = "A @ take k (csBatch cs)" and B = "drop k (csBatch cs) @ csMsgCh cs @ rest"])
        (auto simp: acked_handled_def return_err_def)
  next
    assume "ev = EvTick"
    with step have "cs' = flush_or_return drv send cs" by (auto split: if_splits)
    with R B flush_or_return_inv [OF _ ah] show ?thesis by simp
  next
    assume "ev = EvDone"
    with step R ah show ?thesis
      by (intro stream_invI [where A = A and B = B]) (auto simp: acked_handled_def return_err_def split: if_splits)
  qed
qed

lemma consume_step_inv:
  assumes inv: "stream_inv ccfg R cs" and step: "consume_step drv send ccfg ev cs = Some cs'"
  shows "stream_inv ccfg (R @ received [ev]) cs'"
proof -
  from inv obtain A B rest where AB: "R = A @ B" "acked_handled A cs" "csRet cs = None \<longrightarrow> running_inv ccfg B rest cs"
    unfolding stream_inv_def by (elim exE conjE) (rule that)
  show ?thesis
  proof (cases "ev \<in> {EvTake, EvClosed, EvTick, EvDone}")
    case True
    then have "received [ev] = []" by auto
    with batch_step_inv [OF AB step True] show ?thesis by simp
  next
    case False
    with recv_step_inv [OF AB step] show ?thesis by simp
  qed
qed

lemma consume_run_inv:
  "stream_inv ccfg R cs \<Longrightarrow> consume_run drv send ccfg evs cs = Some cs' \<Longrightarrow> stream_inv ccfg (R @ received evs) cs'"
proof (induction evs arbitrary: R cs)
  case (Cons ev evs)
  then obtain cs1 where "consume_step drv send ccfg ev cs = Some cs1" "consume_run drv send ccfg evs cs1 = Some cs'"
    by (auto split: bind_splits)
  with Cons.IH [OF consume_step_inv [OF Cons.prems(1)]] have "stream_inv ccfg ((R @ received [ev]) @ received evs) cs'" by blast
  moreover have "received [ev] @ received evs = received (ev # evs)" by (cases ev) simp_all
  ultimately show ?case by simp
qed simp

lemma consumeStream_open_inv:
  "consumeStream_open openErr send ccfg mx pool = Inr cs \<Longrightarrow> stream_inv ccfg [] cs"
  by (intro stream_invI [where A = "[]" and B = "[]" and rest = "[]"])
    (auto simp: consumeStream_open_def Let_def return_err_def acked_handled_def running_inv_def pending_def split: option.splits if_splits)

text \<open>The acknowledged ids are those of a prefix of the received messages, and all of that prefix is handled.\<close>

lemma acks_are_durable:
  assumes "consumeStream_open openErr send ccfg mx pool = Inr cs0" "consume_run drv send ccfg evs cs0 = Some cs"
  shows "csAcked cs = map pbId (take (length (csAcked cs)) (received evs)) \<and>
    (\<forall>m \<in> set (take (length (csAcked cs)) (received evs)). handled (csPool cs) m)"
proof -
  from consume_run_inv [OF consumeStream_open_inv [OF assms(1)] assms(2)] obtain A B where
    "received evs = A @ B" "acked_handled A cs" by (auto simp: stream_inv_def)
  then show ?thesis by (simp add: acked_handled_def)
qed

text \<open>While the stream runs, what was received and not acknowledged is held, in order.\<close>

lemma unacked_is_held:
  assumes "consumeStream_open openErr send ccfg mx pool = Inr cs0" "consume_run drv send ccfg evs cs0 = Some cs"
    "csRet cs = None"
  obtains rest where "drop (length (csAcked cs)) (received evs) = csBatch cs @ csMsgCh cs @ rest" "pending (csRecv cs) rest"
    "csBatch cs = [] \<or> int (length (csBatch cs)) < ccBatchSize ccfg"
proof -
  from consume_run_inv [OF consumeStream_open_inv [OF assms(1)] assms(2)] assms(3) obtain A B rest where
    "received evs = A @ B" "acked_handled A cs" "running_inv ccfg B rest cs" by (auto simp: stream_inv_def)
  with that show thesis by (simp add: acked_handled_def running_inv_def)
qed

end

section \<open>Properties\<close>

text \<open>
  The configuration accepts every positive number: opening panics exactly when the credit exceeds what a channel can hold
  or the flush interval overflows to a non-positive duration, as \<open>COLLECTOR_FLUSH_MS=9223372036855\<close> does.
\<close>

lemma open_panics:
  "consumeStream_open None send ccfg mx pool = Inl Panics \<longleftrightarrow>
     \<not> make_chan_ok 8 (ccCredit ccfg) \<or> send 0 = None \<and> millis (ccFlushMS ccfg) \<le> 0"
  by (simp add: consumeStream_open_def Let_def split: option.splits)

lemma flush_interval_overflows: "millis 9223372036855 < 0"
  by (simp add: millis_def wrap64_def Millisecond_def)

text \<open>C28. An acknowledged message is durable: whatever the database rejects, whatever faults hit it, whichever
  sends fail and however the goroutines interleave, the ids a collector has acknowledged on a stream are
  those of the first messages it received, in order and once each, and every one of these messages is in
  \<open>gpu_metrics\<close> under its natural key or in \<open>gpu_metrics_dlq\<close> with its id and payload, unless its
  timestamp cannot be parsed.\<close>

theorem acked_rows_are_durable:
  assumes "consumeStream_open openErr send ccfg mx pool = Inr cs0"
    "consume_run (pg_driver violates dlqViolates fault etext json) send ccfg evs cs0 = Some cs"
  shows "csAcked cs = map pbId (take (length (csAcked cs)) (received evs)) \<and>
    (\<forall>m \<in> set (take (length (csAcked cs)) (received evs)). \<forall>g. FromProto m = Inr g \<longrightarrow>
       natural_key (insert_row g) \<in> natural_key ` set (pgMetrics (csPool cs)) \<or>
       (\<exists>r \<in> set (pgDLQ (csPool cs)). d_broker_id r = sint (pbId m) \<and> json m = Some (d_payload r)))"
  using pg.acks_are_durable [OF assms]
  unfolding pg.handled_def pg.dead_lettered_def pg_stored_def pg_dead_def pg_driver_simps by metis

text \<open>The channel between the goroutines has room: as long as the queue keeps to the credit (no more
  unacknowledged messages than the credit), the receiving goroutine can always hand over what it received
  while the stream runs, the batch stays below its size between steps, and nothing that was received and not
  acknowledged is lost or reordered.\<close>

theorem receiver_never_blocks:
  assumes "consumeStream_open openErr send ccfg mx pool = Inr cs0"
    "consume_run (pg_driver violates dlqViolates fault etext json) send ccfg evs cs0 = Some cs"
    "csRet cs = None" "int (length (received evs)) - int (length (csAcked cs)) \<le> ccCredit ccfg" "csRecv cs = Pushing m"
  shows "consume_step (pg_driver violates dlqViolates fault etext json) send ccfg EvPush cs \<noteq> None \<and>
    drop (length (csAcked cs)) (received evs) = csBatch cs @ csMsgCh cs @ [m] \<and>
    (csBatch cs = [] \<or> int (length (csBatch cs)) < ccBatchSize ccfg)"
proof -
  from pg.unacked_is_held [OF assms(1-3)] obtain rest where
    held: "drop (length (csAcked cs)) (received evs) = csBatch cs @ csMsgCh cs @ rest" "pending (csRecv cs) rest"
    and small: "csBatch cs = [] \<or> int (length (csBatch cs)) < ccBatchSize ccfg" .
  from held(2) assms(5) have rest: "rest = [m]" by (simp add: pending_def)
  from arg_cong [OF held(1), of length] rest assms(4) have "int (length (csMsgCh cs)) < ccCredit ccfg" by simp
  with held rest small assms(5) show ?thesis by simp
qed

lemma Run_loop_bounds:
  "baseBackoff \<le> d \<Longrightarrow> d \<le> maxBackoff \<Longrightarrow> Run_loop d evs = (waits, ret) \<Longrightarrow>
     \<forall>w \<in> set waits. baseBackoff \<le> w \<and> w \<le> maxBackoff"
proof (induction d evs arbitrary: waits ret rule: Run_loop.induct)
  case (3 d c evs)
  then show ?case
    by (cases c) (auto simp: Let_def baseBackoff_def maxBackoff_def unit_simps split: prod.splits)
next
  case (4 d el ce c evs)
  have b: "baseBackoff \<le> (if el > 5 * Second then baseBackoff else d)" "(if el > 5 * Second then baseBackoff else d) \<le> maxBackoff"
    using 4 by (auto simp: baseBackoff_def maxBackoff_def unit_simps)
  show ?case
  proof (cases "ce \<or> c")
    case True
    with 4 b show ?thesis by (auto simp: Let_def split: if_splits)
  next
    case False
    define d' where "d' = (if el > 5 * Second then baseBackoff else d)"
    obtain w r where run: "Run_loop (min (d' * 2) maxBackoff) evs = (w, r)" by fastforce
    have "baseBackoff \<le> min (d' * 2) maxBackoff" using b by (auto simp: d'_def baseBackoff_def maxBackoff_def unit_simps)
    with "4.IH" [of d' w r] run False have "\<forall>x \<in> set w. baseBackoff \<le> x \<and> x \<le> maxBackoff" by (auto simp: d'_def)
    moreover have "waits = d' # w" using "4.prems"(3) False run by (simp add: d'_def Let_def)
    ultimately show ?thesis using b by (simp add: d'_def)
  qed
qed auto

lemma Run_loop_doubles:
  assumes "\<forall>ev \<in> set evs. ev = DialFails False \<or> (\<exists>el \<le> 5 * Second. ev = StreamEnds el False False)"
  shows "Run_loop (min (baseBackoff * 2 ^ k) maxBackoff) evs = (map (\<lambda>i. min (baseBackoff * 2 ^ (k + i)) maxBackoff) [0..<length evs], False)"
  using assms
proof (induction evs arbitrary: k)
  case (Cons ev evs)
  let ?b = "\<lambda>k. min (baseBackoff * 2 ^ k) maxBackoff"
  have step: "min (?b k * 2) maxBackoff = ?b (Suc k)" by (simp add: baseBackoff_def maxBackoff_def unit_simps)
  have shift: "map (\<lambda>i. ?b (k + i)) [0..<length (ev # evs)] = ?b k # map (\<lambda>i. ?b (Suc k + i)) [0..<length evs]"
    by (simp add: upt_conv_Cons map_Suc_upt [symmetric] del: upt_Suc)
  from Cons.prems consider "ev = DialFails False" | el where "el \<le> 5 * Second" "ev = StreamEnds el False False" by auto
  then show ?case
  proof cases
    case 1
    then have "Run_loop (?b k) (ev # evs) = (case Run_loop (min (?b k * 2) maxBackoff) evs of (w, r) \<Rightarrow> (?b k # w, r))" by simp
    also have "\<dots> = (?b k # map (\<lambda>i. ?b (Suc k + i)) [0..<length evs], False)"
      unfolding step using Cons.IH [of "Suc k"] Cons.prems by simp
    finally show ?thesis using shift by simp
  next
    case 2
    then have "Run_loop (?b k) (ev # evs) = (case Run_loop (min (?b k * 2) maxBackoff) evs of (w, r) \<Rightarrow> (?b k # w, r))"
      by (simp add: Let_def)
    also have "\<dots> = (?b k # map (\<lambda>i. ?b (Suc k + i)) [0..<length evs], False)"
      unfolding step using Cons.IH [of "Suc k"] Cons.prems by simp
    finally show ?thesis using shift by simp
  qed
qed simp

text \<open>Reconnecting backs off within bounds: every wait of the runner is between 100 ms and 5 s; as long as
  dials fail or streams end within 5 s, the waits double from 100 ms up to the cap and the runner never
  gives up; it returns only when its context is cancelled.\<close>

theorem reconnect_backoff:
  "(\<forall>w \<in> set (fst (Runner_Run evs)). 100 * Millisecond \<le> w \<and> w \<le> 5 * Second) \<and>
   ((\<forall>ev \<in> set evs. ev = DialFails False \<or> (\<exists>el \<le> 5 * Second. ev = StreamEnds el False False)) \<longrightarrow>
      Runner_Run evs = (map (\<lambda>i. min (100 * Millisecond * 2 ^ i) (5 * Second)) [0..<length evs], False)) \<and>
   (snd (Runner_Run evs) \<longrightarrow> (\<exists>ev \<in> set evs. ev = CtxAtTop \<or> ev = DialFails True \<or> (\<exists>el c w. ev = StreamEnds el c w \<and> (c \<or> w))))"
proof (intro conjI impI)
  have "baseBackoff \<le> maxBackoff" by (simp add: baseBackoff_def maxBackoff_def unit_simps)
  with Run_loop_bounds [of baseBackoff evs] show "\<forall>w \<in> set (fst (Runner_Run evs)). 100 * Millisecond \<le> w \<and> w \<le> 5 * Second"
    by (simp add: Runner_Run_def baseBackoff_def maxBackoff_def prod_eq_iff)
  show "Runner_Run evs = (map (\<lambda>i. min (100 * Millisecond * 2 ^ i) (5 * Second)) [0..<length evs], False)"
    if "\<forall>ev \<in> set evs. ev = DialFails False \<or> (\<exists>el \<le> 5 * Second. ev = StreamEnds el False False)"
    using Run_loop_doubles [OF that, of 0] by (simp add: Runner_Run_def baseBackoff_def maxBackoff_def unit_simps)
  have "snd (Run_loop d evs) \<Longrightarrow> \<exists>ev \<in> set evs. ev = CtxAtTop \<or> ev = DialFails True \<or> (\<exists>el c w. ev = StreamEnds el c w \<and> (c \<or> w))" for d
    by (induction d evs rule: Run_loop.induct) (auto simp: Let_def split: if_splits prod.splits)
  then show "\<exists>ev \<in> set evs. ev = CtxAtTop \<or> ev = DialFails True \<or> (\<exists>el c w. ev = StreamEnds el c w \<and> (c \<or> w))"
    if "snd (Runner_Run evs)" using that by (simp add: Runner_Run_def)
qed

section \<open>A run\<close>

definition demo_cfg :: CollectorConfig where
  "demo_cfg = \<lparr>ccMQAddr = '''', ccBatchSize = 2, ccFlushMS = 500, ccCredit = 3, ccHealthAddr = ''''\<rparr>"

definition demo_metrics :: FlushMetrics where
  "demo_metrics = \<lparr>dbErrorsTotal = 0, batchRows = [], batchesTotal = 0, deadLetteredTotal = 0\<rparr>"

definition demo_drv :: "Pool driver" where
  "demo_drv = pg_driver demo_violates (\<lambda>_. None) (\<lambda>_. None) demo_etext demo_json"

definition demo_run :: "collector_event list \<Rightarrow> Pool ConsumeStream option" where
  "demo_run evs = (case consumeStream_open None (\<lambda>_. None) demo_cfg demo_metrics demo_pool of
      Inr cs \<Rightarrow> consume_run demo_drv (\<lambda>_. None) demo_cfg evs cs | Inl e \<Rightarrow> None)"

definition demo_events :: "collector_event list" where
  "demo_events = [EvRecv (demo_tm ''1970-01-01T00:00:00Z'' ''a'' 1), EvPush, EvTake,
     EvRecv (demo_tm ''1970-01-01T00:00:00Z'' ''x'' 2), EvPush, EvTake, EvRecv (demo_tm ''1970-01-01T00:00:00Z'' ''b'' 3)]"

lemma demo_run_acks: "map_option csAcked (demo_run demo_events) = Some [1, 2]"
  by code_simp

lemma demo_run_state:
  "map_option csRet (demo_run demo_events) = Some None"
  "map_option csRecv (demo_run demo_events) = Some (Pushing (demo_tm ''1970-01-01T00:00:00Z'' ''b'' 3))"
  by code_simp+

lemma demo_opened: "\<exists>cs0. consumeStream_open None (\<lambda>_. None) demo_cfg demo_metrics demo_pool = Inr cs0 \<and>
    demo_run evs = consume_run (pg_driver demo_violates (\<lambda>_. None) (\<lambda>_. None) demo_etext demo_json) (\<lambda>_. None) demo_cfg evs cs0"
  by (simp add: demo_run_def consumeStream_open_def Let_def demo_drv_def make_chan_ok_def maxAlloc_def demo_cfg_def millis_def wrap64_def Millisecond_def)

theorem acked_rows_are_durable_witness:
  "\<exists>cs. demo_run demo_events = Some cs \<and> csAcked cs = [1, 2] \<and>
     (\<forall>m \<in> set (take 2 (received demo_events)). \<forall>g. FromProto m = Inr g \<longrightarrow>
       natural_key (insert_row g) \<in> natural_key ` set (pgMetrics (csPool cs)) \<or>
       (\<exists>r \<in> set (pgDLQ (csPool cs)). d_broker_id r = sint (pbId m) \<and> demo_json m = Some (d_payload r)))"
proof -
  from demo_run_acks obtain cs where cs: "demo_run demo_events = Some cs" "csAcked cs = [1, 2]" by auto
  from demo_opened [of demo_events] obtain cs0 where
    "consumeStream_open None (\<lambda>_. None) demo_cfg demo_metrics demo_pool = Inr cs0"
    "consume_run (pg_driver demo_violates (\<lambda>_. None) (\<lambda>_. None) demo_etext demo_json) (\<lambda>_. None) demo_cfg demo_events cs0 = Some cs"
    using cs by auto
  note durable = acked_rows_are_durable [OF this]
  have "length (csAcked cs) = 2" using cs(2) by simp
  from durable [unfolded this, THEN conjunct2] cs show ?thesis by (intro exI conjI) simp_all
qed

theorem receiver_never_blocks_witness:
  "\<exists>cs. demo_run demo_events = Some cs \<and> consume_step demo_drv (\<lambda>_. None) demo_cfg EvPush cs \<noteq> None"
proof -
  from demo_run_acks obtain cs where cs: "demo_run demo_events = Some cs" "csAcked cs = [1, 2]" by auto
  with demo_run_state have st: "csRet cs = None" "csRecv cs = Pushing (demo_tm ''1970-01-01T00:00:00Z'' ''b'' 3)" by simp_all
  from demo_opened [of demo_events] cs obtain cs0 where
    run: "consumeStream_open None (\<lambda>_. None) demo_cfg demo_metrics demo_pool = Inr cs0"
    "consume_run (pg_driver demo_violates (\<lambda>_. None) (\<lambda>_. None) demo_etext demo_json) (\<lambda>_. None) demo_cfg demo_events cs0 = Some cs"
    by auto
  have "int (length (received demo_events)) - int (length (csAcked cs)) \<le> ccCredit demo_cfg"
    by (simp add: cs demo_events_def demo_cfg_def)
  from receiver_never_blocks [OF run st(1) this st(2)] cs show ?thesis by (auto simp: demo_drv_def)
qed

theorem reconnect_backoff_witness:
  "fst (Runner_Run [DialFails False, StreamEnds 0 False False, StreamEnds (6 * Second) False True]) =
     [100 * Millisecond, 200 * Millisecond, 100 * Millisecond] \<and>
   Runner_Run [DialFails False, DialFails False] = ([100 * Millisecond, 200 * Millisecond], False)"
  using reconnect_backoff [of "[DialFails False, DialFails False]"]
  by (simp add: Runner_Run_def baseBackoff_def maxBackoff_def unit_simps Let_def)

end
