(* ===== verification/Pipeline.thy ===== *)
theory Pipeline
  imports Broker_Payload Collector_Stream
begin

text \<open>
  The queue, any number of collector streams and the database together: what a producer had admitted is still
  held by the broker or has reached the database. Broker operations and the steps of the collectors'
  goroutines interleave freely; a collector receives only what some \<open>Lease\<close> handed out, and the
  broker acknowledges only ids that some collector has sent on its stream. Streams come and go, messages and
  acknowledgements may be delayed, reordered, repeated or lost. The write of one batch is one step.
\<close>

type_synonym 'p collector = "CollectorConfig \<times> (nat \<Rightarrow> string option) \<times> 'p ConsumeStream"

inductive pipeline_run ::
  "(nat \<Rightarrow> gotime) \<Rightarrow> BrokerConfig \<Rightarrow> 'p driver \<Rightarrow> 'p \<Rightarrow> history \<Rightarrow> Broker \<Rightarrow> 'p \<Rightarrow> 'p collector list \<Rightarrow> bool"
  for tn c drv p0 where
  start: "NewBroker tn c = Some b \<Longrightarrow> pipeline_run tn c drv p0 [] b p0 []"
| broker: "pipeline_run tn c drv p0 h b p cl \<Longrightarrow> exec op b = Some (r, b') \<Longrightarrow> (\<And>i k. op \<noteq> OpAck i k) \<Longrightarrow>
    pipeline_run tn c drv p0 ((op, r) # h) b' p cl"
| ack: "pipeline_run tn c drv p0 h b p cl \<Longrightarrow> (ccfg, send, cs) \<in> set cl \<Longrightarrow> i \<in> set (csAcked cs) \<Longrightarrow>
    exec (OpAck i k) b = Some (r, b') \<Longrightarrow> pipeline_run tn c drv p0 ((OpAck i k, r) # h) b' p cl"
| connect: "pipeline_run tn c drv p0 h b p cl \<Longrightarrow> consumeStream_open openErr send ccfg mx p = Inr cs \<Longrightarrow>
    pipeline_run tn c drv p0 h b p (cl @ [(ccfg, send, cs)])"
| collect: "pipeline_run tn c drv p0 h b p cl \<Longrightarrow> j < length cl \<Longrightarrow> cl ! j = (ccfg, send, cs) \<Longrightarrow>
    (\<And>m. ev = EvRecv m \<Longrightarrow> m \<in> handed_out h) \<Longrightarrow> consume_step drv send ccfg ev (cs\<lparr>csPool := p\<rparr>) = Some cs' \<Longrightarrow>
    pipeline_run tn c drv p0 h b (csPool cs') (cl[j := (ccfg, send, cs')])"

lemma pipeline_broker_run: "pipeline_run tn c drv p0 h b p cl \<Longrightarrow> broker_run tn c h b"
  by (induction rule: pipeline_run.induct) (auto intro: broker_run.intros)

lemma handed_out_grows: "handed_out h \<subseteq> handed_out (x # h)"
  by (auto simp: handed_out_def)

context durable_db
begin

lemma flush_keeps: "flush drv send cs = (e, cs') \<Longrightarrow> keeps (csPool cs) (csPool cs')"
  by (erule flush_split) (auto dest: persistResilient_keeps)

lemma flush_or_return_keeps: "keeps (csPool cs) (csPool (flush_or_return drv send cs))"
proof -
  obtain e cs' where f: "flush drv send cs = (e, cs')" by fastforce
  from flush_keeps [OF f] f show ?thesis by (cases e) (simp_all add: flush_or_return_def return_err_def)
qed

lemma consume_step_keeps:
  assumes "consume_step drv send ccfg ev cs = Some cs'"
  shows "keeps (csPool cs) (csPool cs')"
proof (cases ev)
  case EvTake
  with assms obtain m ms where "csMsgCh cs = m # ms" by (auto split: list.splits)
  with assms EvTake flush_or_return_keeps [of "cs\<lparr>csMsgCh := ms, csBatch := csBatch cs @ [m]\<rparr>" send] show ?thesis
    by (auto simp: Let_def split: if_splits)
next
  case EvClosed
  obtain e cs1 where f: "flush drv send cs = (e, cs1)" by fastforce
  from assms EvClosed f flush_keeps [OF f] show ?thesis by (auto simp: return_err_def split: recv_state.splits if_splits)
next
  case EvTick
  with assms flush_or_return_keeps [of cs send] show ?thesis by (auto split: if_splits)
qed (use assms in \<open>auto simp: return_err_def split: if_splits recv_state.splits\<close>)

lemma stream_inv_pool: "stream_inv ccfg R cs \<Longrightarrow> keeps (csPool cs) p \<Longrightarrow> stream_inv ccfg R (cs\<lparr>csPool := p\<rparr>)"
  unfolding stream_inv_def acked_handled_def running_inv_def by simp (metis handled_mono)

text \<open>Every stream is sound against the common pool: what it received was handed out, what it acknowledged is handled.\<close>

definition stream_sound :: "history \<Rightarrow> 'p \<Rightarrow> 'p collector \<Rightarrow> bool" where
  "stream_sound h p cl \<longleftrightarrow> (case cl of (ccfg, send, cs) \<Rightarrow> \<exists>R. set R \<subseteq> handed_out h \<and> stream_inv ccfg R (cs\<lparr>csPool := p\<rparr>))"

lemma stream_sound_more: "stream_sound h p cl \<Longrightarrow> stream_sound (x # h) p cl"
  using handed_out_grows [of h x] unfolding stream_sound_def by (auto split: prod.splits)

lemma stream_sound_pool:
  assumes "stream_sound h p cl" "keeps p p'"
  shows "stream_sound h p' cl"
proof -
  obtain ccfg send cs where cl: "cl = (ccfg, send, cs)" by (cases cl)
  with assms(1) obtain R where R: "set R \<subseteq> handed_out h" "stream_inv ccfg R (cs\<lparr>csPool := p\<rparr>)" by (auto simp: stream_sound_def)
  from stream_inv_pool [OF R(2), of p'] assms(2) have "stream_inv ccfg R (cs\<lparr>csPool := p'\<rparr>)" by simp
  with R(1) cl show ?thesis by (auto simp: stream_sound_def)
qed

lemma stream_sound_step:
  assumes "stream_sound h p (ccfg, send, cs)" "consume_step drv send ccfg ev (cs\<lparr>csPool := p\<rparr>) = Some cs'"
    "\<And>m. ev = EvRecv m \<Longrightarrow> m \<in> handed_out h"
  shows "stream_sound h (csPool cs') (ccfg, send, cs')"
proof -
  from assms(1) obtain R where R: "set R \<subseteq> handed_out h" "stream_inv ccfg R (cs\<lparr>csPool := p\<rparr>)" by (auto simp: stream_sound_def)
  have "set (received [ev]) \<subseteq> handed_out h" using assms(3) by (cases ev) auto
  with R(1) have "set (R @ received [ev]) \<subseteq> handed_out h" by simp
  moreover have "stream_inv ccfg (R @ received [ev]) (cs'\<lparr>csPool := csPool cs'\<rparr>)"
    using consume_step_inv [OF R(2) assms(2)] by simp
  ultimately show ?thesis unfolding stream_sound_def by blast
qed

lemma stream_sound_acked:
  assumes "stream_sound h p (ccfg, send, cs)" "i \<in> set (csAcked cs)"
  shows "\<exists>m \<in> handed_out h. pbId m = i \<and> handled p m"
proof -
  from assms(1) obtain R A B where "set R \<subseteq> handed_out h" "R = A @ B" "acked_handled A (cs\<lparr>csPool := p\<rparr>)"
    by (auto simp: stream_sound_def stream_inv_def)
  with assms(2) show ?thesis by (auto simp: acked_handled_def)
qed

definition acks_sound :: "history \<Rightarrow> 'p \<Rightarrow> bool" where
  "acks_sound h p \<longleftrightarrow> (\<forall>i. i \<in># acked_ids h \<longrightarrow> (\<exists>m \<in> handed_out h. pbId m = i \<and> handled p m))"

lemma acks_sound_more: "acks_sound h p \<Longrightarrow> acks x = {#} \<Longrightarrow> acks_sound (x # h) p"
  using handed_out_grows [of h x] unfolding acks_sound_def by auto

lemma pipeline_sound:
  assumes "pipeline_run tn c drv p0 h b p cl"
  shows "(\<forall>x \<in> set cl. stream_sound h p x) \<and> acks_sound h p"
  using assms
proof (induction rule: pipeline_run.induct)
  case (start b)
  then show ?case by (simp add: acks_sound_def)
next
  case (broker h b p cl op r b')
  have "acks (op, r) = {#}" using broker.hyps(3) by (cases op) auto
  with broker.IH show ?case using stream_sound_more acks_sound_more by blast
next
  case (ack h b p cl ccfg send cs i k r b')
  then obtain m where m: "m \<in> handed_out h" "pbId m = i" "handled p m" using stream_sound_acked by blast
  have "j = i" if "j \<in># acks (OpAck i k, r)" for j
    using that by (cases "(OpAck i k, r)" rule: acks.cases) auto
  then have "acks_sound ((OpAck i k, r) # h) p"
    using ack.IH m handed_out_grows [of h "(OpAck i k, r)"] unfolding acks_sound_def by simp blast
  with ack.IH show ?case using stream_sound_more by blast
next
  case (connect h b p cl openErr send ccfg mx cs)
  have "csPool cs = p" using connect.hyps(2)
    by (auto simp: consumeStream_open_def Let_def return_err_def split: option.splits if_splits)
  then have "stream_inv ccfg [] (cs\<lparr>csPool := p\<rparr>)"
    using stream_inv_pool [OF consumeStream_open_inv [OF connect.hyps(2)], of p] by simp
  then have "stream_sound h p (ccfg, send, cs)" unfolding stream_sound_def by (auto intro: exI [of _ "[]"])
  with connect.IH show ?case by simp
next
  case (collect h b p cl j ccfg send cs ev cs')
  have kp: "keeps p (csPool cs')" using consume_step_keeps [OF collect.hyps(5)] by simp
  have "stream_sound h p (ccfg, send, cs)" using collect.IH collect.hyps(2,3) nth_mem by metis
  from stream_sound_step [OF this collect.hyps(5,4)] have "stream_sound h (csPool cs') (ccfg, send, cs')" .
  moreover have "stream_sound h (csPool cs') x" if "x \<in> set cl" for x using that collect.IH stream_sound_pool [OF _ kp] by blast
  ultimately have "\<forall>x \<in> set (cl[j := (ccfg, send, cs')]). stream_sound h (csPool cs') x"
    using set_update_subset_insert [of cl j] by blast
  moreover have "acks_sound h (csPool cs')" using collect.IH handled_mono [OF kp] unfolding acks_sound_def by blast
  ultimately show ?case by blast
qed

end

section \<open>Nothing is lost\<close>

lemma FromProto_attempts [simp]: "FromProto (m\<lparr>pbDeliveryAttempts := a\<rparr>) = FromProto m"
  by (simp add: FromProto_def Let_def cong: option.case_cong)

text \<open>An admitted message the broker no longer holds was handed out to a collector that handled it.\<close>

lemma left_is_handled:
  assumes "pipeline_run tn c (pg_driver violates dlqViolates fault etext json) p0 h b p cl" "length h < 2 ^ 64 - 1"
    "Policy c = PolicyReject \<or> Policy c = PolicyBlock" "stDLQEvictedTotal (Inspect b) = 0"
    "(OpEnqueue m0, REnq (Admitted m)) \<in> set h" "pbId m \<notin># all_ids b"
  shows "\<exists>a. pg.handled violates dlqViolates fault etext json p (m\<lparr>pbDeliveryAttempts := a\<rparr>)"
proof -
  have run: "broker_run tn c h b" using assms(1) by (rule pipeline_broker_run)
  have adm: "pbId m \<in># admitted_ids h" using admitted_msg_id [OF assms(5)] by simp
  from run_ledger [OF run assms(2)] have l: "ledger h b" by simp
  have "Policy (cfg b) \<noteq> PolicyDropOldest"
    using assms(3) run_inv [OF run] by (auto simp: applyDefaults_def policy_defs)
  from run_no_overflow [OF run assms(2) this] assms(4) have "droppedOverflow b + dlqEvicted b = 0"
    by (simp add: Inspect_def)
  from ledger_lossless [OF l this] adm assms(6) have "pbId m \<in># acked_ids h" by simp
  with pg.pipeline_sound [OF assms(1)] obtain m' where m': "m' \<in> handed_out h" "pbId m' = pbId m"
    "pg.handled violates dlqViolates fault etext json p m'"
    unfolding pg.acks_sound_def by blast
  have "m' = m\<lparr>pbDeliveryAttempts := pbDeliveryAttempts m'\<rparr>"
    using handed_out_is_admitted [OF run assms(2) m'(1) assms(5) _ m'(2)] by simp
  with m'(3) show ?thesis by metis
qed

lemma pg_handled:
  "pg.handled violates dlqViolates fault etext json p (m\<lparr>pbDeliveryAttempts := a\<rparr>) \<Longrightarrow> FromProto m = Inr g \<Longrightarrow>
     natural_key (insert_row g) \<in> natural_key ` set (pgMetrics p) \<or>
     (\<exists>r \<in> set (pgDLQ p). d_broker_id r = sint (pbId m) \<and> json (m\<lparr>pbDeliveryAttempts := a\<rparr>) = Some (d_payload r))"
  unfolding pg.handled_def pg.dead_lettered_def pg_stored_def pg_dead_def pg_driver_simps by auto

text \<open>C1. End to end, nothing is lost: under the reject and block policies, as long as the broker's dead-letter ring
  has not overflowed, every message a producer got admitted is still held by the broker, or it has been
  processed by a collector: unless its timestamp cannot be parsed (such a message is acknowledged and stored
  nowhere), \<open>gpu_metrics\<close> has the row of its
  natural key or \<open>gpu_metrics_dlq\<close> has it under its broker id with its payload. This holds at every moment of
  every interleaving of producers, collectors and sweeper, with any faults and rejections of the database.\<close>

theorem pipeline_at_least_once:
  assumes "pipeline_run tn c (pg_driver violates dlqViolates fault etext json) p0 h b p cl" "length h < 2 ^ 64 - 1"
    "Policy c = PolicyReject \<or> Policy c = PolicyBlock" "stDLQEvictedTotal (Inspect b) = 0"
    "(OpEnqueue m0, REnq (Admitted m)) \<in> set h"
  shows "pbId m \<in># all_ids b \<or>
    (\<forall>g. FromProto m = Inr g \<longrightarrow>
       natural_key (insert_row g) \<in> natural_key ` set (pgMetrics p) \<or>
       (\<exists>r \<in> set (pgDLQ p). \<exists>a. d_broker_id r = sint (pbId m) \<and> json (m\<lparr>pbDeliveryAttempts := a\<rparr>) = Some (d_payload r)))"
  using left_is_handled [OF assms] pg_handled [where m = m and p = p and json = json] by blast

section \<open>A pipeline\<close>

text \<open>Executing a sequence of steps, with sends that succeed.\<close>

datatype pipe_event = PipeOp op | PipeAck nat uint64 uint64 | PipeConnect CollectorConfig | PipeCollect nat collector_event

type_synonym 'p pipe = "history \<times> Broker \<times> 'p \<times> 'p collector list"

fun is_ack :: "op \<Rightarrow> bool" where
  "is_ack (OpAck i k) = True"
| "is_ack _ = False"

fun pipe_step :: "'p driver \<Rightarrow> FlushMetrics \<Rightarrow> pipe_event \<Rightarrow> 'p pipe \<Rightarrow> 'p pipe option" where
  "pipe_step drv mx (PipeOp op) (h, b, p, cl) =
     (if is_ack op then None else map_option (\<lambda>(r, b'). ((op, r) # h, b', p, cl)) (exec op b))"
| "pipe_step drv mx (PipeAck j i k) (h, b, p, cl) =
     (if j < length cl \<and> i \<in> set (csAcked (snd (snd (cl ! j))))
      then map_option (\<lambda>(r, b'). ((OpAck i k, r) # h, b', p, cl)) (exec (OpAck i k) b) else None)"
| "pipe_step drv mx (PipeConnect ccfg) (h, b, p, cl) =
     (case consumeStream_open None (\<lambda>_. None) ccfg mx p of
        Inr cs \<Rightarrow> Some (h, b, p, cl @ [(ccfg, \<lambda>_. None, cs)]) | Inl e \<Rightarrow> None)"
| "pipe_step drv mx (PipeCollect j ev) (h, b, p, cl) =
     (if j < length cl \<and> (case ev of EvRecv m \<Rightarrow> list_ex (\<lambda>x. snd x = RMsg (Some m)) h | _ \<Rightarrow> True)
      then (case cl ! j of (ccfg, send, cs) \<Rightarrow>
        map_option (\<lambda>cs'. (h, b, csPool cs', cl[j := (ccfg, send, cs')])) (consume_step drv send ccfg ev (cs\<lparr>csPool := p\<rparr>)))
      else None)"

fun pipe_steps :: "'p driver \<Rightarrow> FlushMetrics \<Rightarrow> pipe_event list \<Rightarrow> 'p pipe \<Rightarrow> 'p pipe option" where
  "pipe_steps drv mx [] s = Some s"
| "pipe_steps drv mx (ev # evs) s = Option.bind (pipe_step drv mx ev s) (pipe_steps drv mx evs)"

definition in_run :: "(nat \<Rightarrow> gotime) \<Rightarrow> BrokerConfig \<Rightarrow> 'p driver \<Rightarrow> 'p \<Rightarrow> 'p pipe \<Rightarrow> bool" where
  "in_run tn c drv p0 s \<longleftrightarrow> (case s of (h, b, p, cl) \<Rightarrow> pipeline_run tn c drv p0 h b p cl)"

lemma pipe_step_run: "pipe_step drv mx ev s = Some s' \<Longrightarrow> in_run tn c drv p0 s \<Longrightarrow> in_run tn c drv p0 s'"
proof (induction drv mx ev s rule: pipe_step.induct)
  case (1 drv mx op h b p cl)
  then show ?case by (auto simp: in_run_def split: if_splits intro!: pipeline_run.broker)
next
  case (2 drv mx j i k h b p cl)
  obtain ccfg send cs where cs: "cl ! j = (ccfg, send, cs)" by (metis prod.exhaust)
  from 2(1) have ok: "j < length cl" "i \<in> set (csAcked (snd (snd (cl ! j))))" by (simp_all split: if_splits)
  with cs have mem: "(ccfg, send, cs) \<in> set cl" "i \<in> set (csAcked cs)" by (metis nth_mem, simp)
  obtain r b' where e: "exec (OpAck i k) b = Some (r, b')" by (metis exec.simps(4) prod.exhaust)
  with 2(1) ok have "s' = ((OpAck i k, r) # h, b', p, cl)" by simp
  with 2(2) pipeline_run.ack [OF _ mem e] show ?case by (simp add: in_run_def)
next
  case (3 drv mx ccfg h b p cl)
  then show ?case by (auto simp: in_run_def split: sum.splits intro: pipeline_run.connect)
next
  case (4 drv mx j ev h b p cl)
  obtain ccfg send cs where cs: "cl ! j = (ccfg, send, cs)" by (metis prod.exhaust)
  from 4(1) have ok: "j < length cl" "case ev of EvRecv m \<Rightarrow> list_ex (\<lambda>x. snd x = RMsg (Some m)) h | _ \<Rightarrow> True"
    by (simp_all split: if_splits)
  have got: "m \<in> handed_out h" if "ev = EvRecv m" for m
    using ok(2) that unfolding handed_out_def list_ex_iff by fastforce
  from 4(1) ok cs obtain cs' where st: "consume_step drv send ccfg ev (cs\<lparr>csPool := p\<rparr>) = Some cs'"
    "s' = (h, b, csPool cs', cl[j := (ccfg, send, cs')])" by (auto split: if_splits)
  have "pipeline_run tn c drv p0 h b p cl" using 4(2) by (simp add: in_run_def)
  from pipeline_run.collect [OF this ok(1) cs got st(1)] show ?case unfolding st(2) in_run_def by simp
qed

lemma pipe_steps_run: "pipe_steps drv mx evs s = Some s' \<Longrightarrow> in_run tn c drv p0 s \<Longrightarrow> in_run tn c drv p0 s'"
proof (induction evs arbitrary: s)
  case (Cons ev evs)
  then obtain s1 where "pipe_step drv mx ev s = Some s1" "pipe_steps drv mx evs s1 = Some s'" by (cases "pipe_step drv mx ev s") auto
  with Cons show ?case using pipe_step_run by metis
qed simp

text \<open>Two messages are admitted and handed out, the collector writes the first and sends its acknowledgement.\<close>

definition demo_pipe_events :: "pipe_event list" where
  "demo_pipe_events =
     [PipeOp (OpEnqueue (demo_msg ''0'')), PipeOp (OpEnqueue (demo_msg ''1'')), PipeOp (OpLease 7),
      PipeConnect Collector_Stream.demo_cfg,
      PipeCollect 0 (EvRecv ((demo_msg ''0'')\<lparr>pbId := 1, pbDeliveryAttempts := 1\<rparr>)), PipeCollect 0 EvPush, PipeCollect 0 EvTake,
      PipeCollect 0 EvTick, PipeAck 0 1 7]"

definition demo_pipe :: "Pool pipe" where
  "demo_pipe = the (pipe_steps demo_drv demo_metrics demo_pipe_events ([], demo_start, demo_pool, []))"

lemma demo_pipe_some: "pipe_steps demo_drv demo_metrics demo_pipe_events ([], demo_start, demo_pool, []) \<noteq> None"
  by code_simp

lemma demo_pipe_run: "in_run demo_clock Broker_Safety.demo_cfg demo_drv demo_pool demo_pipe"
proof -
  have "in_run demo_clock Broker_Safety.demo_cfg demo_drv demo_pool ([], demo_start, demo_pool, [])"
    using demo_start_new by (simp add: in_run_def pipeline_run.start)
  with pipe_steps_run demo_pipe_some show ?thesis unfolding demo_pipe_def by (metis option.collapse)
qed

theorem pipeline_at_least_once_witness:
  "case demo_pipe of (h, b, p, cl) \<Rightarrow>
     1 \<notin># all_ids b \<and> 2 \<in># all_ids b \<and>
     (\<forall>g. FromProto (demo_msg ''0'') = Inr g \<longrightarrow>
       natural_key (insert_row g) \<in> natural_key ` set (pgMetrics p) \<or>
       (\<exists>r \<in> set (pgDLQ p). \<exists>a. d_broker_id r = 1 \<and> demo_json ((demo_msg ''0'')\<lparr>pbId := 1, pbDeliveryAttempts := a\<rparr>) = Some (d_payload r)))"
proof -
  have pol: "Policy Broker_Safety.demo_cfg = PolicyReject" by (simp add: Broker_Safety.demo_cfg_def)
  obtain h b p cl where s: "demo_pipe = (h, b, p, cl)" by (metis prod.exhaust)
  have facts: "length (fst demo_pipe) < 10" "stDLQEvictedTotal (Inspect (fst (snd demo_pipe))) = 0"
    "list_ex (\<lambda>x. x = (OpEnqueue (demo_msg ''0''), REnq (Admitted ((demo_msg ''0'')\<lparr>pbId := 1\<rparr>)))) (fst demo_pipe)"
    "1 \<notin># all_ids (fst (snd demo_pipe))" "2 \<in># all_ids (fst (snd demo_pipe))" by code_simp+
  have "pipeline_run demo_clock Broker_Safety.demo_cfg (pg_driver demo_violates (\<lambda>_. None) (\<lambda>_. None) demo_etext demo_json) demo_pool h b p cl"
    using demo_pipe_run unfolding s in_run_def demo_drv_def by simp
  moreover have "(OpEnqueue (demo_msg ''0''), REnq (Admitted ((demo_msg ''0'')\<lparr>pbId := 1\<rparr>))) \<in> set h"
    using facts(3) unfolding s list_ex_iff by simp
  moreover have "length h < 2 ^ 64 - 1" "stDLQEvictedTotal (Inspect b) = 0" using facts(1,2) unfolding s by simp_all
  ultimately have out: "1 \<in># all_ids b \<or>
    (\<forall>g. FromProto ((demo_msg ''0'')\<lparr>pbId := 1\<rparr>) = Inr g \<longrightarrow>
       natural_key (insert_row g) \<in> natural_key ` set (pgMetrics p) \<or>
       (\<exists>r \<in> set (pgDLQ p). \<exists>a. d_broker_id r = 1 \<and>
          demo_json ((demo_msg ''0'')\<lparr>pbId := 1, pbDeliveryAttempts := a\<rparr>) = Some (d_payload r)))"
    using pipeline_at_least_once [OF _ _ disjI1 [OF pol], where m = "(demo_msg ''0'')\<lparr>pbId := 1\<rparr>"] by simp
  have "FromProto ((demo_msg ''0'')\<lparr>pbId := 1\<rparr>) = FromProto (demo_msg ''0'')"
    by (simp add: FromProto_def Let_def cong: option.case_cong)
  with out show ?thesis using facts(4,5) unfolding s by simp
qed

end
