(* ===== verification/Provenance.thy ===== *)
theory Provenance
  imports Pipeline
begin

text \<open>
  The other half of \<open>Pipeline\<close>: nothing is made up. Every row of \<open>gpu_metrics\<close> and every row of
  \<open>gpu_metrics_dlq\<close> was in the database before, or is that of a message the broker admitted, and the table keeps
  its type: unique natural keys and whole microseconds. What the database promises for this is the locale
  \<open>sourced_db\<close>, interpreted on the same model of the driver as \<open>durable_db\<close>.
\<close>

section \<open>A database whose content comes from given messages\<close>

definition row_of :: "'p driver \<Rightarrow> DLQRow \<Rightarrow> TelemetryMessage \<Rightarrow> bool" where
  "row_of drv r m \<longleftrightarrow> d_broker_id r = sint (pbId m) \<and> d_delivery_attempts r = sint (pbDeliveryAttempts m) \<and>
     protojson_Marshal drv m = Some (d_payload r)"

locale sourced_db =
  fixes drv :: "'p driver" and sourced :: "TelemetryMessage set \<Rightarrow> 'p \<Rightarrow> bool"
  assumes sourced_mono: "sourced M p \<Longrightarrow> M \<subseteq> N \<Longrightarrow> sourced N p"
    and send_sourced: "SendBatch drv p gs = (br, p') \<Longrightarrow> sourced M p \<Longrightarrow>
      (\<And>g. g \<in> set gs \<Longrightarrow> \<exists>m \<in> M. FromProto m = Inr g) \<Longrightarrow> sourced M p'"
    and exec_sourced: "ExecDLQInsert drv p r = (e, p') \<Longrightarrow> sourced M p \<Longrightarrow> m \<in> M \<Longrightarrow> row_of drv r m \<Longrightarrow> sourced M p'"
begin

lemma persistBatch_sourced:
  assumes "persistBatch drv p msgs = (e, p')" "sourced M p" "set msgs \<subseteq> M"
  shows "sourced M p'"
proof (cases "queue_loop [] msgs = []")
  case False
  then obtain br where "SendBatch drv p (queue_loop [] msgs) = (br, p')"
    using assms(1) by (auto simp: persistBatch_def Let_def split: prod.splits option.splits if_splits)
  with assms(2,3) show ?thesis by (elim send_sourced) (auto simp: queue_loop_mem)
qed (use assms in \<open>simp add: persistBatch_def\<close>)

lemma deadLetterRow_sourced:
  "deadLetterRow drv p m c = (e, p') \<Longrightarrow> sourced M p \<Longrightarrow> m \<in> M \<Longrightarrow> sourced M p'"
  by (auto simp: deadLetterRow_def row_of_def split: option.splits prod.splits intro: exec_sourced)

lemma bisection_sourced: "bisection drv p msgs n e p' \<Longrightarrow> sourced M p \<Longrightarrow> set msgs \<subseteq> M \<Longrightarrow> sourced M p'"
proof (induction rule: bisection.induct)
  case (left_fails p msgs err q l e p')
  then show ?case using persistBatch_sourced set_take_subset by (metis subset_trans)
next
  case (halves p msgs err q l q' r e p')
  then show ?case using persistBatch_sourced set_take_subset set_drop_subset by (metis subset_trans)
qed (auto dest: persistBatch_sourced deadLetterRow_sourced)

text \<open>What a stream holds: the message on its way to the channel, the channel and the batch.\<close>

definition stream_within :: "TelemetryMessage set \<Rightarrow> 'p ConsumeStream \<Rightarrow> bool" where
  "stream_within M cs \<longleftrightarrow> set (csBatch cs) \<subseteq> M \<and> set (csMsgCh cs) \<subseteq> M \<and> (\<forall>m. csRecv cs = Pushing m \<longrightarrow> m \<in> M)"

lemma stream_within_mono: "stream_within M cs \<Longrightarrow> M \<subseteq> N \<Longrightarrow> stream_within N cs"
  by (auto simp: stream_within_def)

lemma stream_within_pool [simp]: "stream_within M (cs\<lparr>csPool := p\<rparr>) = stream_within M cs"
  by (simp add: stream_within_def)

lemma flush_sourced:
  assumes "flush drv send cs = (e, cs')" "sourced M (csPool cs)" "stream_within M cs"
  shows "sourced M (csPool cs') \<and> stream_within M cs'"
  using assms(1)
proof (cases rule: flush_split)
  case (failed n p' err mx)
  with assms(2,3) bisection_sourced [OF persistResilient_bisection] show ?thesis by (simp add: stream_within_def)
next
  case (acked n p' k mx sn)
  with assms(2,3) bisection_sourced [OF persistResilient_bisection] show ?thesis by (simp add: stream_within_def)
qed (use assms in simp)

lemma return_err_within [simp]:
  "csPool (return_err err cs) = csPool cs" "stream_within M (return_err err cs) = stream_within M cs"
  by (simp_all add: return_err_def stream_within_def)

lemma flush_or_return_sourced:
  assumes "sourced M (csPool cs)" "stream_within M cs"
  shows "sourced M (csPool (flush_or_return drv send cs)) \<and> stream_within M (flush_or_return drv send cs)"
proof -
  obtain e cs' where f: "flush drv send cs = (e, cs')" by fastforce
  with flush_sourced [OF f assms] show ?thesis by (cases e) (simp_all add: flush_or_return_def)
qed

lemma consume_step_sourced:
  assumes "consume_step drv send ccfg ev cs = Some cs'" "sourced M (csPool cs)" "stream_within M cs"
    "\<And>m. ev = EvRecv m \<Longrightarrow> m \<in> M"
  shows "sourced M (csPool cs') \<and> stream_within M cs'"
proof (cases ev)
  case EvTake
  with assms(1) obtain m ms where ch: "csMsgCh cs = m # ms" by (auto split: list.splits)
  let ?cs = "cs\<lparr>csMsgCh := ms, csBatch := csBatch cs @ [m]\<rparr>"
  have "sourced M (csPool ?cs)" "stream_within M ?cs" using assms(2,3) ch by (auto simp: stream_within_def)
  with flush_or_return_sourced [OF this, of send] assms(1) EvTake ch show ?thesis
    by (auto simp: Let_def split: if_splits)
next
  case EvClosed
  obtain e cs1 where f: "flush drv send cs = (e, cs1)" by fastforce
  from assms(1) EvClosed f flush_sourced [OF f assms(2,3)] show ?thesis by (auto split: recv_state.splits if_splits)
next
  case EvTick
  with assms(1) flush_or_return_sourced [OF assms(2,3), of send] show ?thesis by (auto split: if_splits)
qed (use assms in \<open>auto simp: stream_within_def return_err_def split: if_splits recv_state.splits\<close>)

definition pipe_within :: "TelemetryMessage set \<Rightarrow> 'p \<Rightarrow> 'p collector list \<Rightarrow> bool" where
  "pipe_within M p cl \<longleftrightarrow> sourced M p \<and> (\<forall>(ccfg, send, cs) \<in> set cl. stream_within M cs)"

lemma pipe_within_mono: "pipe_within M p cl \<Longrightarrow> M \<subseteq> N \<Longrightarrow> pipe_within N p cl"
  unfolding pipe_within_def using sourced_mono [of M p N] stream_within_mono [of M _ N] by blast

text \<open>In a pipeline everything a stream holds, and so everything written, was handed out by the broker.\<close>

lemma pipeline_sourced:
  assumes "pipeline_run tn c drv p0 h b p cl" "sourced {} p0"
  shows "pipe_within (handed_out h) p cl"
  using assms
proof (induction rule: pipeline_run.induct)
  case (start b)
  from sourced_mono [OF this(2)] show ?case by (simp add: pipe_within_def)
next
  case (broker h b p cl op r b')
  then show ?case by (intro pipe_within_mono [OF _ handed_out_grows])
next
  case (ack h b p cl ccfg send cs i k r b')
  then show ?case by (intro pipe_within_mono [OF _ handed_out_grows])
next
  case (connect h b p cl openErr send ccfg mx cs)
  then have "stream_within (handed_out h) cs"
    by (auto simp: consumeStream_open_def Let_def stream_within_def return_err_def split: option.splits if_splits)
  with connect show ?case by (simp add: pipe_within_def)
next
  case (collect h b p cl j ccfg send cs ev cs')
  then have "(ccfg, send, cs) \<in> set cl" by (metis nth_mem)
  with collect.IH collect.prems have "sourced (handed_out h) p" "stream_within (handed_out h) cs" by (auto simp: pipe_within_def)
  then have "sourced (handed_out h) (csPool cs') \<and> stream_within (handed_out h) cs'"
    by (intro consume_step_sourced [OF collect.hyps(5)] collect.hyps(4)) simp_all
  moreover have "set (cl[j := (ccfg, send, cs')]) \<subseteq> insert (ccfg, send, cs') (set cl)" by (rule set_update_subset_insert)
  ultimately show ?case using collect.IH collect.prems unfolding pipe_within_def by blast
qed

end

section \<open>Postgres\<close>

text \<open>The rows are those of an earlier database \<open>p0\<close> or come from the given messages, and the table is well formed.\<close>

definition pg_sourced :: "(TelemetryMessage \<Rightarrow> string option) \<Rightarrow> Pool \<Rightarrow> TelemetryMessage set \<Rightarrow> Pool \<Rightarrow> bool" where
  "pg_sourced json p0 M p \<longleftrightarrow> (table_wf (pgMetrics p0) \<longrightarrow> table_wf (pgMetrics p)) \<and>
     (\<forall>r \<in> set (pgMetrics p). r \<in> set (pgMetrics p0) \<or> (\<exists>m \<in> M. \<exists>g. FromProto m = Inr g \<and> r = insert_row g)) \<and>
     (\<forall>r \<in> set (pgDLQ p). r \<in> set (pgDLQ p0) \<or> (\<exists>m \<in> M. d_broker_id r = sint (pbId m) \<and>
        d_delivery_attempts r = sint (pbDeliveryAttempts m) \<and> json m = Some (d_payload r)))"

lemma inserts_rows: "r \<in> set (fold InsertSQL gs t) \<Longrightarrow> r \<in> set t \<or> r \<in> insert_row ` set gs"
proof (induction gs arbitrary: t)
  case (Cons g gs)
  then have "r \<in> set (InsertSQL g t) \<or> r \<in> insert_row ` set gs" by simp
  then show ?case by (auto simp: InsertSQL_def Let_def split: if_splits)
qed simp

lemma pg_SendBatch_metrics:
  "pg_SendBatch violates fault p gs = (br, p') \<Longrightarrow>
     (pgMetrics p' = pgMetrics p \<or> pgMetrics p' = fold InsertSQL gs (pgMetrics p)) \<and> pgDLQ p' = pgDLQ p"
  by (auto simp: pg_SendBatch_def Let_def split: option.splits db_fault.splits if_splits)

lemma pg_ExecDLQInsert_dlq:
  "pg_ExecDLQInsert dlqViolates fault p r = (e, p') \<Longrightarrow>
     (pgDLQ p' = pgDLQ p \<or> pgDLQ p' = pgDLQ p @ [r]) \<and> pgMetrics p' = pgMetrics p"
  by (auto simp: pg_ExecDLQInsert_def Let_def DLQInsertSQL_def split: option.splits db_fault.splits if_splits)

interpretation pg_src: sourced_db "pg_driver violates dlqViolates fault etext json" "pg_sourced json p0"
  for violates dlqViolates fault etext json p0
proof
  fix M N p
  show "pg_sourced json p0 N p" if "pg_sourced json p0 M p" "M \<subseteq> N"
    using that unfolding pg_sourced_def by blast
next
  fix p gs br p' M
  assume send: "SendBatch (pg_driver violates dlqViolates fault etext json) p gs = (br, p')" and src: "pg_sourced json p0 M p"
    and gs: "\<And>g. g \<in> set gs \<Longrightarrow> \<exists>m \<in> M. FromProto m = Inr g"
  from send pg_SendBatch_metrics [of violates fault p gs br p']
  have m: "pgMetrics p' = pgMetrics p \<or> pgMetrics p' = fold InsertSQL gs (pgMetrics p)" and d: "pgDLQ p' = pgDLQ p" by simp_all
  have "\<exists>m \<in> M. \<exists>g. FromProto m = Inr g \<and> r = insert_row g" if "r \<in> insert_row ` set gs" for r using that gs by blast
  with src m d show "pg_sourced json p0 M p'"
    unfolding pg_sourced_def using table_wf_inserts [of "pgMetrics p" gs] inserts_rows [of _ gs "pgMetrics p"] by metis
next
  fix p r e p' M m
  assume "ExecDLQInsert (pg_driver violates dlqViolates fault etext json) p r = (e, p')" "pg_sourced json p0 M p" "m \<in> M"
    "row_of (pg_driver violates dlqViolates fault etext json) r m"
  with pg_ExecDLQInsert_dlq [of dlqViolates fault p r e p'] show "pg_sourced json p0 M p'"
    unfolding pg_sourced_def row_of_def by auto
qed

section \<open>Nothing is made up\<close>

lemma handed_out_from_admitted:
  assumes "broker_run tn c h b" "m' \<in> handed_out h"
  shows "\<exists>m0 m. (OpEnqueue m0, REnq (Admitted m)) \<in> set h \<and> m' = m\<lparr>pbDeliveryAttempts := pbDeliveryAttempts m'\<rparr>"
proof -
  have "payload m' \<in> payloads h" using run_payloads [OF assms(1)] assms(2) by blast
  from payloads_admitted [OF this] obtain y m where y: "y \<in> set h" "admitted_msg y = Some m" "payload m' = payload m" by blast
  from y(2) obtain m0 where "y = (OpEnqueue m0, REnq (Admitted m))" by (cases y rule: admitted_msg.cases) simp_all
  moreover have "m' = m\<lparr>pbDeliveryAttempts := pbDeliveryAttempts m'\<rparr>" using y(3) by (cases m; cases m') (simp add: payload_def)
  ultimately show ?thesis using y(1) by blast
qed

text \<open>The two tables of a pipeline, separately.\<close>

lemma pipeline_pg_sourced:
  assumes "pipeline_run tn c (pg_driver violates dlqViolates fault etext json) p0 h b p cl"
  shows "pg_sourced json p0 (handed_out h) p"
proof -
  have "pg_sourced json p0 {} p0" by (simp add: pg_sourced_def)
  from pg_src.pipeline_sourced [OF assms this] show ?thesis by (simp add: pg_src.pipe_within_def)
qed

lemma admitted_rows:
  assumes "pipeline_run tn c (pg_driver violates dlqViolates fault etext json) p0 h b p cl"
  shows "table_wf (pgMetrics p0) \<Longrightarrow> table_wf (pgMetrics p)"
    "r \<in> set (pgMetrics p) \<Longrightarrow> r \<in> set (pgMetrics p0) \<or>
       (\<exists>m0 m g. (OpEnqueue m0, REnq (Admitted m)) \<in> set h \<and> FromProto m = Inr g \<and> r = insert_row g)"
proof -
  have "\<exists>m0 m. (OpEnqueue m0, REnq (Admitted m)) \<in> set h \<and> FromProto m = FromProto m'" if "m' \<in> handed_out h" for m'
    using handed_out_from_admitted [OF pipeline_broker_run [OF assms] that] FromProto_attempts by metis
  with pipeline_pg_sourced [OF assms] show "table_wf (pgMetrics p0) \<Longrightarrow> table_wf (pgMetrics p)"
    "r \<in> set (pgMetrics p) \<Longrightarrow> r \<in> set (pgMetrics p0) \<or>
       (\<exists>m0 m g. (OpEnqueue m0, REnq (Admitted m)) \<in> set h \<and> FromProto m = Inr g \<and> r = insert_row g)"
    unfolding pg_sourced_def by (blast, metis)
qed

lemma admitted_dead_letters:
  assumes "pipeline_run tn c (pg_driver violates dlqViolates fault etext json) p0 h b p cl" "r \<in> set (pgDLQ p)"
  shows "r \<in> set (pgDLQ p0) \<or>
    (\<exists>m0 m a. (OpEnqueue m0, REnq (Admitted m)) \<in> set h \<and> d_broker_id r = sint (pbId m) \<and>
       d_delivery_attempts r = sint a \<and> json (m\<lparr>pbDeliveryAttempts := a\<rparr>) = Some (d_payload r))"
proof -
  have "\<exists>m0 m a. (OpEnqueue m0, REnq (Admitted m)) \<in> set h \<and> pbId m = pbId m' \<and> a = pbDeliveryAttempts m' \<and>
      m\<lparr>pbDeliveryAttempts := a\<rparr> = m'" if "m' \<in> handed_out h" for m'
    using handed_out_from_admitted [OF pipeline_broker_run [OF assms(1)] that]
    by (metis TelemetryMessage.select_convs(13) TelemetryMessage.surjective TelemetryMessage.update_convs(14))
  with pipeline_pg_sourced [OF assms(1)] assms(2) show ?thesis unfolding pg_sourced_def by metis
qed

text \<open>C3. The database is well typed and holds nothing but what was admitted. On a \<open>gpu_metrics\<close> table with unique
  natural keys and whole microseconds, every pipeline of producers, broker and collectors keeps it so, and at
  every moment each row that was not there at the start is exactly the row of a message the broker
  admitted, with all its columns; each new row of \<open>gpu_metrics_dlq\<close> has the id and the payload of an
  admitted message and the number of its delivery. This holds under any faults, rejections and repeated deliveries.\<close>

theorem database_holds_only_admitted:
  assumes "pipeline_run tn c (pg_driver violates dlqViolates fault etext json) p0 h b p cl" "table_wf (pgMetrics p0)"
  shows "table_wf (pgMetrics p) \<and>
    (\<forall>r \<in> set (pgMetrics p). r \<in> set (pgMetrics p0) \<or>
       (\<exists>m0 m g. (OpEnqueue m0, REnq (Admitted m)) \<in> set h \<and> FromProto m = Inr g \<and> r = insert_row g)) \<and>
    (\<forall>r \<in> set (pgDLQ p). r \<in> set (pgDLQ p0) \<or>
       (\<exists>m0 m a. (OpEnqueue m0, REnq (Admitted m)) \<in> set h \<and> d_broker_id r = sint (pbId m) \<and>
          d_delivery_attempts r = sint a \<and> json (m\<lparr>pbDeliveryAttempts := a\<rparr>) = Some (d_payload r)))"
  using admitted_rows [OF assms(1)] admitted_dead_letters [OF assms(1)] assms(2) by blast

theorem database_holds_only_admitted_witness:
  "case demo_pipe of (h, b, p, cl) \<Rightarrow> table_wf (pgMetrics p) \<and> pgMetrics p \<noteq> [] \<and>
     (\<forall>r \<in> set (pgMetrics p). \<exists>m0 m g. (OpEnqueue m0, REnq (Admitted m)) \<in> set h \<and> FromProto m = Inr g \<and> r = insert_row g)"
proof -
  obtain h b p cl where s: "demo_pipe = (h, b, p, cl)" by (metis prod.exhaust)
  have facts: "pgMetrics (fst (snd (snd demo_pipe))) \<noteq> []" "pgMetrics demo_pool = []" by code_simp+
  have "pipeline_run demo_clock Broker_Safety.demo_cfg (pg_driver demo_violates (\<lambda>_. None) (\<lambda>_. None) demo_etext demo_json) demo_pool h b p cl"
    using demo_pipe_run unfolding s in_run_def demo_drv_def by simp
  from database_holds_only_admitted [OF this] facts show ?thesis unfolding s by simp
qed

end
