(* ===== verification/Go_Base64.thy ===== *)
theory Go_Base64
  imports Vantage_Prelude
begin

text \<open>
  \<open>base64.RawURLEncoding\<close> of Go's \<open>encoding/base64\<close>, the outer layer of a pagination cursor: the URL
  alphabet without padding. Decoding skips line breaks, refuses any other foreign character and a single
  left-over digit, and ignores the unused bits of the last digit, as the non-strict encoding does.
\<close>

definition alphabet :: string where
  "alphabet = ''ABCDEFGHIJKLMNOPQRSTUVWXYZabcdefghijklmnopqrstuvwxyz0123456789-_''"

definition digit_of :: "nat \<Rightarrow> char" where
  "digit_of v = alphabet ! v"

fun position :: "char \<Rightarrow> nat \<Rightarrow> string \<Rightarrow> nat option" where
  "position c n [] = None"
| "position c n (d # ds) = (if c = d then Some n else position c (Suc n) ds)"

definition value_of :: "char \<Rightarrow> nat option" where
  "value_of c = position c 0 alphabet"

fun encode_bytes :: "nat list \<Rightarrow> nat list" where
  "encode_bytes [] = []"
| "encode_bytes [a] = [a div 4, (a mod 4) * 16]"
| "encode_bytes [a, b] = [a div 4, (a mod 4) * 16 + b div 16, (b mod 16) * 4]"
| "encode_bytes (a # b # c # bs) =
     (a div 4) # ((a mod 4) * 16 + b div 16) # ((b mod 16) * 4 + c div 64) # (c mod 64) # encode_bytes bs"

definition EncodeToString :: "string \<Rightarrow> string" where
  "EncodeToString s = map digit_of (encode_bytes (map of_char s))"

fun decode_digits :: "nat list \<Rightarrow> nat list option" where
  "decode_digits [] = Some []"
| "decode_digits [u] = None"
| "decode_digits [u, v] = Some [u * 4 + v div 16]"
| "decode_digits [u, v, w] = Some [u * 4 + v div 16, (v mod 16) * 16 + w div 4]"
| "decode_digits (u # v # w # x # ds) =
     map_option (\<lambda>bs. (u * 4 + v div 16) # ((v mod 16) * 16 + w div 4) # ((w mod 4) * 64 + x) # bs) (decode_digits ds)"

definition DecodeString :: "string \<Rightarrow> string option" where
  "DecodeString s = do {
     ds \<leftarrow> those (map value_of (filter (\<lambda>c. c \<noteq> CHR 0x0A \<and> c \<noteq> CHR 0x0D) s));
     bs \<leftarrow> decode_digits ds;
     Some (map char_of bs)
   }"

section \<open>The round trip\<close>

lemma digits_ok: "list_all (\<lambda>v. value_of (digit_of v) = Some v \<and> digit_of v \<noteq> CHR 0x0A \<and> digit_of v \<noteq> CHR 0x0D) [0..<64]"
  by code_simp

lemma digit_of_ok:
  assumes "v < 64"
  shows "value_of (digit_of v) = Some v" "digit_of v \<noteq> CHR 0x0A" "digit_of v \<noteq> CHR 0x0D"
  using digits_ok assms by (auto simp: list_all_iff)

lemma those_map_Some: "those (map Some xs) = Some xs"
  by (induction xs) auto

lemma encode_bytes_small: "\<forall>b \<in> set bs. b < 256 \<Longrightarrow> v \<in> set (encode_bytes bs) \<Longrightarrow> v < 64"
  by (induction bs rule: encode_bytes.induct) (auto simp: less_mult_imp_div_less)

lemma decode_encode_bytes: "\<forall>b \<in> set bs. b < 256 \<Longrightarrow> decode_digits (encode_bytes bs) = Some bs"
proof (induction bs rule: encode_bytes.induct)
  case (4 a b c bs)
  have "(a mod 4 * 16 + b div 16) div 16 = a mod 4" "(a mod 4 * 16 + b div 16) mod 16 = b div 16"
    using 4 by (auto simp: less_mult_imp_div_less)
  moreover have "(b mod 16 * 4 + c div 64) div 4 = b mod 16" "(b mod 16 * 4 + c div 64) mod 4 = c div 64"
    using 4 by (auto simp: less_mult_imp_div_less)
  ultimately show ?case using 4 by simp
next
  case (3 a b)
  have "(a mod 4 * 16 + b div 16) div 16 = a mod 4" "(a mod 4 * 16 + b div 16) mod 16 = b div 16"
    using 3 by (auto simp: less_mult_imp_div_less)
  then show ?case by simp
qed simp_all

lemma DecodeString_EncodeToString [simp]: "DecodeString (EncodeToString s) = Some s"
proof -
  let ?bs = "map of_char s :: nat list"
  have small: "\<forall>b \<in> set ?bs. b < 256" by auto
  then have d: "v < 64" if "v \<in> set (encode_bytes ?bs)" for v using encode_bytes_small that by blast
  then have "filter (\<lambda>c. c \<noteq> CHR 0x0A \<and> c \<noteq> CHR 0x0D) (EncodeToString s) = EncodeToString s"
    by (auto simp: EncodeToString_def filter_id_conv digit_of_ok)
  moreover have "map value_of (EncodeToString s) = map Some (encode_bytes ?bs)"
    using d by (simp add: EncodeToString_def digit_of_ok)
  ultimately show ?thesis
    using decode_encode_bytes [OF small] by (simp add: DecodeString_def those_map_Some comp_def)
qed

end
