(* ===== verification/Go_Json.thy ===== *)
theory Go_Json
  imports Go_Time
begin

text \<open>
  The part of Go's \<open>encoding/json\<close> a pagination cursor goes through. Texts are byte strings. Writing escapes a
  string as \<open>json.Marshal\<close> does, with its HTML escapes and its treatment of broken UTF-8. Reading is a lexer,
  the validity check of the whole text by a stack of open brackets as in the scanner of the package, and the
  members of the top-level object; strings are unquoted, and instants are read by \<open>UnmarshalTime\<close>.
\<close>

section \<open>UTF-8\<close>

definition byte :: "char \<Rightarrow> int" where
  "byte c = of_char c"

definition byte_char :: "int \<Rightarrow> char" where
  "byte_char n = char_of (nat n)"

text \<open>The length of the rune a text starts with, 0 when it is not valid (\<open>utf8.DecodeRune\<close>).\<close>

definition tail_ok :: "(int \<times> int) list \<Rightarrow> string \<Rightarrow> bool" where
  "tail_ok rs s \<longleftrightarrow> length rs \<le> length s \<and> list_all (\<lambda>((lo, hi), c). lo \<le> byte c \<and> byte c \<le> hi) (zip rs s)"

definition rune_tail :: "int \<Rightarrow> (int \<times> int) list option" where
  "rune_tail b =
     (if b < 0x80 then Some []
      else if b < 0xC2 then None
      else if b \<le> 0xDF then Some [(0x80, 0xBF)]
      else if b = 0xE0 then Some [(0xA0, 0xBF), (0x80, 0xBF)]
      else if b = 0xED then Some [(0x80, 0x9F), (0x80, 0xBF)]
      else if b \<le> 0xEF then Some [(0x80, 0xBF), (0x80, 0xBF)]
      else if b = 0xF0 then Some [(0x90, 0xBF), (0x80, 0xBF), (0x80, 0xBF)]
      else if b \<le> 0xF3 then Some [(0x80, 0xBF), (0x80, 0xBF), (0x80, 0xBF)]
      else if b = 0xF4 then Some [(0x80, 0x8F), (0x80, 0xBF), (0x80, 0xBF)]
      else None)"

fun rune_size :: "string \<Rightarrow> nat" where
  "rune_size [] = 0"
| "rune_size (c # s) = (case rune_tail (byte c) of
      None \<Rightarrow> 0
    | Some rs \<Rightarrow> if tail_ok rs s then Suc (length rs) else 0)"

function valid_utf8 :: "string \<Rightarrow> bool" where
  "valid_utf8 [] = True"
| "valid_utf8 (c # s) = (rune_size (c # s) > 0 \<and> valid_utf8 (drop (rune_size (c # s) - 1) s))"
  by pat_completeness auto
termination by (relation "measure length") auto

definition RuneError :: string where
  "RuneError = [CHR 0xEF, CHR 0xBF, CHR 0xBD]"

definition EncodeRune :: "int \<Rightarrow> string" where
  "EncodeRune r =
     (if r < 0x80 then [byte_char r]
      else if r < 0x800 then [byte_char (0xC0 + r div 0x40), byte_char (0x80 + r mod 0x40)]
      else if r < 0x10000 then
        [byte_char (0xE0 + r div 0x1000), byte_char (0x80 + r div 0x40 mod 0x40), byte_char (0x80 + r mod 0x40)]
      else
        [byte_char (0xF0 + r div 0x40000), byte_char (0x80 + r div 0x1000 mod 0x40), byte_char (0x80 + r div 0x40 mod 0x40),
         byte_char (0x80 + r mod 0x40)])"

section \<open>Writing strings\<close>

definition hex_digit :: "int \<Rightarrow> char" where
  "hex_digit n = ''0123456789abcdef'' ! nat n"

abbreviation quote_char :: char where "quote_char \<equiv> CHR 0x22"
abbreviation backslash :: char where "backslash \<equiv> CHR 0x5C"

definition escape_ascii :: "char \<Rightarrow> string" where
  "escape_ascii c =
     (if c = backslash \<or> c = quote_char then [backslash, c]
      else if c = CHR 0x08 then [backslash, CHR ''b'']
      else if c = CHR 0x0C then [backslash, CHR ''f'']
      else if c = CHR 0x0A then [backslash, CHR ''n'']
      else if c = CHR 0x0D then [backslash, CHR ''r'']
      else if c = CHR 0x09 then [backslash, CHR ''t'']
      else if byte c < 0x20 \<or> c \<in> {CHR ''<'', CHR ''>'', CHR ''&''}
        then backslash # ''u00'' @ [hex_digit (byte c div 16), hex_digit (byte c mod 16)]
      else [c])"

function appendString :: "string \<Rightarrow> string" where
  "appendString [] = []"
| "appendString (c # s) =
     (if byte c < 0x80 then escape_ascii c @ appendString s
      else if rune_size (c # s) = 0 then backslash # ''ufffd'' @ appendString s
      else
        let n = rune_size (c # s); r = take n (c # s) in
        (if r = [CHR 0xE2, CHR 0x80, CHR 0xA8] then backslash # ''u2028''
         else if r = [CHR 0xE2, CHR 0x80, CHR 0xA9] then backslash # ''u2029''
         else r) @ appendString (drop (n - 1) s))"
  by pat_completeness auto
termination by (relation "measure length") auto

definition quoted :: "string \<Rightarrow> string" where
  "quoted s = quote_char # s @ [quote_char]"

section \<open>Tokens\<close>

datatype token = TOpen bool | TClose bool | TComma | TColon | TStr string | TNum string | TTrue | TFalse | TNull

definition isHex :: "char \<Rightarrow> bool" where
  "isHex c \<longleftrightarrow> (let b = byte c in 48 \<le> b \<and> b \<le> 57 \<or> 97 \<le> b \<and> b \<le> 102 \<or> 65 \<le> b \<and> b \<le> 70)"

text \<open>The text between the quotes of a string, and what follows it.\<close>

fun lex_string :: "string \<Rightarrow> (string \<times> string) option" where
  "lex_string [] = None"
| "lex_string (c # s) =
     (if c = quote_char then Some ([], s)
      else if c = backslash then
        (case s of
           e # s \<Rightarrow>
             if e \<in> {CHR ''b'', CHR ''f'', CHR ''n'', CHR ''r'', CHR ''t'', backslash, CHR 0x2F, quote_char}
             then map_option (\<lambda>(raw, rest). (c # e # raw, rest)) (lex_string s)
             else if e = CHR ''u'' then
               (case s of
                  h1 # h2 # h3 # h4 # s \<Rightarrow>
                    if isHex h1 \<and> isHex h2 \<and> isHex h3 \<and> isHex h4
                    then map_option (\<lambda>(raw, rest). (c # e # h1 # h2 # h3 # h4 # raw, rest)) (lex_string s)
                    else None
                | _ \<Rightarrow> None)
             else None
         | [] \<Rightarrow> None)
      else if byte c < 0x20 then None
      else map_option (\<lambda>(raw, rest). (c # raw, rest)) (lex_string s))"

definition take_digits :: "string \<Rightarrow> string \<times> string" where
  "take_digits s = (takeWhile digit_char s, dropWhile digit_char s)"

definition lex_exponent :: "string \<Rightarrow> (string \<times> string) option" where
  "lex_exponent s =
     (case s of
        e # s' \<Rightarrow>
          if e \<in> {CHR ''e'', CHR ''E''} then
            let (sign, s') = (case s' of c # s'' \<Rightarrow> if c \<in> {CHR ''+'', CHR ''-''} then ([c], s'') else ([], s') | [] \<Rightarrow> ([], s'));
                (ds, rest) = take_digits s'
            in if ds = [] then None else Some (e # sign @ ds, rest)
          else Some ([], s)
      | [] \<Rightarrow> Some ([], s))"

definition lex_fraction :: "string \<Rightarrow> (string \<times> string) option" where
  "lex_fraction s =
     (case s of
        c # s' \<Rightarrow>
          if c = CHR ''.'' then
            let (ds, rest) = take_digits s' in if ds = [] then None else Some (c # ds, rest)
          else Some ([], s)
      | [] \<Rightarrow> Some ([], s))"

definition lex_integer :: "string \<Rightarrow> (string \<times> string) option" where
  "lex_integer s =
     (let (sign, s') = (case s of c # s'' \<Rightarrow> if c = CHR ''-'' then ([c], s'') else ([], s) | [] \<Rightarrow> ([], s)) in
      (case s' of
         c # s'' \<Rightarrow>
           if c = CHR ''0'' then Some (sign @ [c], s'')
           else if digit_char c then let (ds, rest) = take_digits s'' in Some (sign @ c # ds, rest)
           else None
       | [] \<Rightarrow> None))"

definition lex_number :: "string \<Rightarrow> (string \<times> string) option" where
  "lex_number s = do {
     (i, s) \<leftarrow> lex_integer s;
     (f, s) \<leftarrow> lex_fraction s;
     (e, s) \<leftarrow> lex_exponent s;
     Some (i @ f @ e, s)
   }"

definition punctuation :: "char \<Rightarrow> token option" where
  "punctuation c =
     (if c = CHR 0x7B then Some (TOpen True) else if c = CHR 0x7D then Some (TClose True)
      else if c = CHR 0x5B then Some (TOpen False) else if c = CHR 0x5D then Some (TClose False)
      else if c = CHR 0x2C then Some TComma else if c = CHR 0x3A then Some TColon
      else None)"

definition lex_token :: "string \<Rightarrow> (token \<times> string) option" where
  "lex_token s =
     (case s of
        [] \<Rightarrow> None
      | c # s' \<Rightarrow>
          (case punctuation c of
             Some t \<Rightarrow> Some (t, s')
           | None \<Rightarrow>
               if c = quote_char then map_option (\<lambda>(raw, rest). (TStr raw, rest)) (lex_string s')
               else if take 4 s = ''true'' then Some (TTrue, drop 4 s)
               else if take 5 s = ''false'' then Some (TFalse, drop 5 s)
               else if take 4 s = ''null'' then Some (TNull, drop 4 s)
               else map_option (\<lambda>(raw, rest). (TNum raw, rest)) (lex_number s)))"

definition isSpace :: "char \<Rightarrow> bool" where
  "isSpace c \<longleftrightarrow> c \<in> {CHR 0x20, CHR 0x09, CHR 0x0D, CHR 0x0A}"

lemma lex_string_shorter: "lex_string s = Some (raw, rest) \<Longrightarrow> length rest < length s"
proof (induction s arbitrary: raw rule: lex_string.induct)
  case (2 c s)
  then show ?case by (fastforce split: if_splits list.splits)
qed simp

lemma take_digits_length: "take_digits s = (ds, rest) \<Longrightarrow> length rest \<le> length s"
  by (auto simp: take_digits_def intro: order_trans [OF length_dropWhile_le])

lemma lex_number_shorter:
  assumes "lex_number s = Some (raw, rest)"
  shows "length rest < length s"
proof -
  from assms obtain i s1 f s2 e where
    "lex_integer s = Some (i, s1)" "lex_fraction s1 = Some (f, s2)" "lex_exponent s2 = Some (e, rest)"
    by (auto simp: lex_number_def split: Option.bind_splits)
  then have "length s1 < length s" "length s2 \<le> length s1" "length rest \<le> length s2"
    by (auto simp: lex_integer_def lex_fraction_def lex_exponent_def split: list.splits if_splits prod.splits
        dest!: take_digits_length)
  then show ?thesis by simp
qed

lemma lex_token_shorter: "lex_token s = Some (t, rest) \<Longrightarrow> length rest < length s"
  by (auto simp: lex_token_def split: list.splits option.splits if_splits
      dest!: lex_string_shorter lex_number_shorter)

function json_lex :: "string \<Rightarrow> token list option" where
  "json_lex s =
     (case s of
        [] \<Rightarrow> Some []
      | c # s' \<Rightarrow>
          if isSpace c then json_lex s'
          else (case lex_token s of
                  None \<Rightarrow> None
                | Some (t, rest) \<Rightarrow> map_option (\<lambda>ts. t # ts) (json_lex rest)))"
  by pat_completeness auto
termination by (relation "measure length") (auto dest: lex_token_shorter)

declare json_lex.simps [simp del]

section \<open>Validity\<close>

text \<open>What the scanner expects next; the stack holds the open brackets, \<open>True\<close> for an object.\<close>

datatype expects = Val | ValOrClose | Key | KeyOrClose | Colon | AfterVal

definition maxNestingDepth :: nat where "maxNestingDepth = 10000"

fun json_valid :: "expects \<Rightarrow> bool list \<Rightarrow> token list \<Rightarrow> bool" where
  "json_valid m st [] \<longleftrightarrow> m = AfterVal \<and> st = []"
| "json_valid m st (t # ts) \<longleftrightarrow>
     (case t of
        TOpen obj \<Rightarrow> m \<in> {Val, ValOrClose} \<and> length st < maxNestingDepth \<and> json_valid (if obj then KeyOrClose else ValOrClose) (obj # st) ts
      | TClose obj \<Rightarrow>
          (case st of
             opn # st \<Rightarrow> opn = obj \<and> (m = AfterVal \<or> m = (if obj then KeyOrClose else ValOrClose)) \<and> json_valid AfterVal st ts
           | [] \<Rightarrow> False)
      | TComma \<Rightarrow> (case st of opn # _ \<Rightarrow> m = AfterVal \<and> json_valid (if opn then Key else Val) st ts | [] \<Rightarrow> False)
      | TColon \<Rightarrow> m = Colon \<and> json_valid Val st ts
      | TStr raw \<Rightarrow>
          if m \<in> {Key, KeyOrClose} then json_valid Colon st ts
          else m \<in> {Val, ValOrClose} \<and> json_valid AfterVal st ts
      | _ \<Rightarrow> m \<in> {Val, ValOrClose} \<and> json_valid AfterVal st ts)"

section \<open>Members and values\<close>

text \<open>
  The members of a valid top-level object, as the raw key and the value: its token, or \<open>None\<close> for an
  array or an object, which is skipped. The number counts the open brackets.
\<close>

fun json_members :: "nat \<Rightarrow> string option \<Rightarrow> token list \<Rightarrow> (string \<times> token option) list" where
  "json_members d k [] = []"
| "json_members d k (t # ts) =
     (case t of
        TOpen _ \<Rightarrow> json_members (Suc d) k ts
      | TClose _ \<Rightarrow> if d = 2 then (the k, None) # json_members 1 None ts else json_members (d - 1) k ts
      | _ \<Rightarrow>
          if d \<noteq> 1 then json_members d k ts
          else (case t of
              TComma \<Rightarrow> json_members d None ts
            | TColon \<Rightarrow> json_members d k ts
            | _ \<Rightarrow>
                (case k of
                   Some key \<Rightarrow> (key, Some t) # json_members d None ts
                 | None \<Rightarrow> json_members d (case t of TStr raw \<Rightarrow> Some raw | _ \<Rightarrow> None) ts)))"

definition hex_val :: "char \<Rightarrow> int" where
  "hex_val c = (let b = byte c in if b \<le> 57 then b - 48 else if b \<le> 70 then b - 55 else b - 87)"

definition hex4 :: "char \<Rightarrow> char \<Rightarrow> char \<Rightarrow> char \<Rightarrow> int" where
  "hex4 a b c d = ((hex_val a * 16 + hex_val b) * 16 + hex_val c) * 16 + hex_val d"

definition unescape :: "char \<Rightarrow> char" where
  "unescape e =
     (if e = CHR ''b'' then CHR 0x08 else if e = CHR ''f'' then CHR 0x0C else if e = CHR ''n'' then CHR 0x0A
      else if e = CHR ''r'' then CHR 0x0D else if e = CHR ''t'' then CHR 0x09 else e)"

text \<open>A low surrogate escape right after a high one makes one rune of the two.\<close>

definition low_surrogate :: "string \<Rightarrow> (int \<times> string) option" where
  "low_surrogate s =
     (case s of
        a # b # h1 # h2 # h3 # h4 # s \<Rightarrow>
          if a = backslash \<and> b = CHR ''u'' \<and> 0xDC00 \<le> hex4 h1 h2 h3 h4 \<and> hex4 h1 h2 h3 h4 < 0xE000
          then Some (hex4 h1 h2 h3 h4 - 0xDC00, s) else None
      | _ \<Rightarrow> None)"

lemma low_surrogate_shorter: "low_surrogate s = Some (r, rest) \<Longrightarrow> length rest < length s"
  by (auto simp: low_surrogate_def split: list.splits if_splits)

function (sequential) unquote :: "string \<Rightarrow> string" where
  "unquote [] = []"
| "unquote (c # s) =
     (if c = backslash then
        (case s of
           [] \<Rightarrow> []
         | e # s \<Rightarrow>
             if e = CHR ''u'' then
               (case s of
                  h1 # h2 # h3 # h4 # s \<Rightarrow>
                    let r = hex4 h1 h2 h3 h4 in
                    if 0xD800 \<le> r \<and> r < 0xE000 then
                      (case (if r < 0xDC00 then low_surrogate s else None) of
                         Some (lo, rest) \<Rightarrow> EncodeRune ((r - 0xD800) * 0x400 + lo + 0x10000) @ unquote rest
                       | None \<Rightarrow> RuneError @ unquote s)
                    else EncodeRune r @ unquote s
                | _ \<Rightarrow> [])
             else unescape e # unquote s)
      else if byte c < 0x80 then c # unquote s
      else if rune_size (c # s) = 0 then RuneError @ unquote s
      else take (rune_size (c # s)) (c # s) @ unquote (drop (rune_size (c # s) - 1) s))"
  by pat_completeness auto
termination
  by (relation "measure length") (auto split: if_splits dest: low_surrogate_shorter)

text \<open>\<open>Time.UnmarshalJSON\<close> on the text of a string: \<open>time.Parse\<close> and the checks it does not make.\<close>

definition num2 :: "string \<Rightarrow> nat" where
  "num2 s = the (digits_val 0 (take 2 s))"

definition UnmarshalTime :: "string \<Rightarrow> gotime option" where
  "UnmarshalTime b = do {
     t \<leftarrow> time_Parse RFC3339 b;
     check (b ! 12 \<noteq> CHR '':'');
     check (b ! 19 \<noteq> CHR '','');
     check (last b = CHR ''Z'' \<or> num2 (drop (length b - 5) b) < 24 \<and> num2 (drop (length b - 2) b) < 60);
     Some t
   }"

text \<open>Field names match up to case, also by the long s, which folds to the letter s.\<close>

fun foldName :: "string \<Rightarrow> string" where
  "foldName (a # b # s) =
     (if a = CHR 0xC5 \<and> b = CHR 0xBF then CHR ''S'' # foldName s
      else (if 97 \<le> byte a \<and> byte a \<le> 122 then byte_char (byte a - 32) else a) # foldName (b # s))"
| "foldName [a] = [if 97 \<le> byte a \<and> byte a \<le> 122 then byte_char (byte a - 32) else a]"
| "foldName [] = []"

section \<open>Strings survive\<close>

declare lex_string.simps(2) [simp del] unquote.simps(2) [simp del] appendString.simps(2) [simp del] rune_size.simps(2) [simp del]

lemma byte_int: "byte c = int (of_char c)"
  by (simp add: byte_def of_nat_of_char)

lemma byte_bounds [simp]: "0 \<le> byte c" "byte c < 256"
  using nat_of_char_less_256 [of c] by (simp_all add: byte_int)

lemma byte_char_byte [simp]: "byte_char (byte c) = c"
  by (simp add: byte_int byte_char_def)

lemma zip_take_append: "length xs \<le> length ys \<Longrightarrow> zip xs (take (length xs) ys @ zs) = zip xs ys"
proof (induction xs arbitrary: ys)
  case (Cons x xs)
  then show ?case by (cases ys) auto
qed simp

lemma rune_size_take:
  assumes "rune_size s = n" "0 < n"
  shows "rune_size (take n s @ t) = n" "length (take n s) = n" "n \<le> length s"
proof -
  obtain c u rs where s: "s = c # u" "rune_tail (byte c) = Some rs" "tail_ok rs u" "n = Suc (length rs)"
    using assms by (cases s) (auto simp: rune_size.simps split: option.splits if_splits)
  have len: "length rs \<le> length u" using s(3) by (simp add: tail_ok_def)
  then have "tail_ok rs (take (length rs) u @ t)" using s(3) by (simp add: tail_ok_def zip_take_append)
  with s show "rune_size (take n s @ t) = n" by (simp add: rune_size.simps)
  from s len show "length (take n s) = n" "n \<le> length s" by simp_all
qed

text \<open>A byte that stands for itself inside a string.\<close>

definition plain :: "char \<Rightarrow> bool" where
  "plain c \<longleftrightarrow> 0x20 \<le> byte c \<and> c \<noteq> quote_char \<and> c \<noteq> backslash"

lemma lex_string_plain1: "plain c \<Longrightarrow> lex_string (c # s) = map_option (\<lambda>(raw, rest). (c # raw, rest)) (lex_string s)"
  by (subst lex_string.simps) (simp add: plain_def)

lemma lex_string_plain:
  "\<forall>c \<in> set s. plain c \<Longrightarrow> lex_string (s @ t) = map_option (\<lambda>(raw, rest). (s @ raw, rest)) (lex_string t)"
  by (induction s) (auto simp: lex_string_plain1 option.map_comp option.map_ident_strong case_prod_unfold comp_def)

lemma bytes_neq: "0x80 \<le> byte c \<Longrightarrow> c \<noteq> backslash \<and> c \<noteq> quote_char"
  by (auto simp: byte_def)

lemma rune_bytes_high:
  assumes "0x80 \<le> byte c" "rune_size (c # s) = n" "0 < n" "d \<in> set (take n (c # s))"
  shows "0x80 \<le> byte d"
proof -
  from assms(2, 3) obtain rs where rs: "rune_tail (byte c) = Some rs" "tail_ok rs s" "n = Suc (length rs)"
    by (auto simp: rune_size.simps split: option.splits if_splits)
  have lo: "\<forall>(lo, hi) \<in> set rs. 0x80 \<le> lo" using rs(1) by (auto simp: rune_tail_def split: if_splits)
  show ?thesis
  proof (cases "d = c")
    case False
    then have "d \<in> set (take (length rs) s)" using assms(4) rs(3) by auto
    then obtain i where i: "i < length rs" "i < length s" "d = s ! i" by (auto simp: in_set_conv_nth)
    then have "(rs ! i, d) \<in> set (zip rs s)" by (auto simp: set_zip)
    with rs(2) have "fst (rs ! i) \<le> byte d" by (fastforce simp: tail_ok_def list_all_iff)
    moreover have "0x80 \<le> fst (rs ! i)" using lo nth_mem [OF i(1)] by (cases "rs ! i") auto
    ultimately show ?thesis by simp
  qed (use assms in simp)
qed


lemma hex_digit_val: "list_all (\<lambda>n. hex_val (hex_digit n) = n \<and> isHex (hex_digit n)) [0..15]"
  by (simp add: upto_rec1 hex_digit_def hex_val_def isHex_def byte_def nth_Cons_numeral nat_numeral)

lemma hex_digit_ok:
  assumes "0 \<le> n" "n < 16"
  shows "hex_val (hex_digit n) = n" "isHex (hex_digit n)"
  using hex_digit_val assms by (auto simp: list_all_iff)

lemma hex_zero: "hex_val CHR ''0'' = 0" "isHex CHR ''0''"
  by (simp_all add: hex_val_def isHex_def byte_def)

lemma unquote_hex:
  "unquote (backslash # CHR ''u'' # h1 # h2 # h3 # h4 # s) =
     (let r = hex4 h1 h2 h3 h4 in
      if 0xD800 \<le> r \<and> r < 0xE000 then
        (case (if r < 0xDC00 then low_surrogate s else None) of
           Some (lo, rest) \<Rightarrow> EncodeRune ((r - 0xD800) * 0x400 + lo + 0x10000) @ unquote rest
         | None \<Rightarrow> RuneError @ unquote s)
      else EncodeRune r @ unquote s)"
  by (subst unquote.simps) simp

lemma unquote_short: "e \<noteq> CHR ''u'' \<Longrightarrow> unquote (backslash # e # s) = unescape e # unquote s"
  by (subst unquote.simps) simp

lemma unquote_ascii: "c \<noteq> backslash \<Longrightarrow> byte c < 0x80 \<Longrightarrow> unquote (c # s) = c # unquote s"
  by (subst unquote.simps) simp

lemma lex_short:
  "e \<in> {CHR ''b'', CHR ''f'', CHR ''n'', CHR ''r'', CHR ''t'', backslash, CHR 0x2F, quote_char} \<Longrightarrow>
     lex_string (backslash # e # s) = map_option (\<lambda>(raw, rest). (backslash # e # raw, rest)) (lex_string s)"
  by (subst lex_string.simps) auto

lemma lex_hex:
  "isHex h1 \<Longrightarrow> isHex h2 \<Longrightarrow> isHex h3 \<Longrightarrow> isHex h4 \<Longrightarrow> lex_string (backslash # CHR ''u'' # h1 # h2 # h3 # h4 # s) =
     map_option (\<lambda>(raw, rest). (backslash # CHR ''u'' # h1 # h2 # h3 # h4 # raw, rest)) (lex_string s)"
  by (subst lex_string.simps) simp

text \<open>One piece of an escaped string: it is lexed whole, and unquoting it gives back what it stands for.\<close>

definition escapes :: "string \<Rightarrow> string \<Rightarrow> bool" where
  "escapes e s \<longleftrightarrow> (\<forall>t. unquote (e @ t) = s @ unquote t \<and>
     lex_string (e @ t) = map_option (\<lambda>(raw, rest). (e @ raw, rest)) (lex_string t))"

lemma escapes_hex:
  assumes "isHex h1" "isHex h2" "isHex h3" "isHex h4" "hex4 h1 h2 h3 h4 < 0xD800"
  shows "escapes (backslash # CHR ''u'' # [h1, h2, h3, h4]) (EncodeRune (hex4 h1 h2 h3 h4))"
  using assms by (simp add: escapes_def unquote_hex lex_hex Let_def)

lemma escapes_short:
  assumes "e \<in> {CHR ''b'', CHR ''f'', CHR ''n'', CHR ''r'', CHR ''t'', backslash, quote_char}"
  shows "escapes [backslash, e] [unescape e]"
proof -
  have u: "e \<noteq> CHR ''u''" using assms by auto
  have "e \<in> {CHR ''b'', CHR ''f'', CHR ''n'', CHR ''r'', CHR ''t'', backslash, CHR 0x2F, quote_char}" using assms by blast
  from lex_short [OF this] unquote_short [OF u] show ?thesis unfolding escapes_def by simp
qed

lemma escapes_ascii:
  assumes "byte c < 0x80"
  shows "escapes (escape_ascii c) [c]"
proof (cases "byte c < 0x20 \<or> c \<in> {CHR ''<'', CHR ''>'', CHR ''&''}")
  case True
  define h l where "h = hex_digit (byte c div 16)" and "l = hex_digit (byte c mod 16)"
  have "0 \<le> byte c div 16" "byte c div 16 < 16" "0 \<le> byte c mod 16" "byte c mod 16 < 16"
    using assms by (simp_all add: pos_imp_zdiv_nonneg_iff)
  then have hl: "hex_val h = byte c div 16" "isHex h" "hex_val l = byte c mod 16" "isHex l"
    unfolding h_def l_def by (simp_all only: hex_digit_ok)
  then have r: "hex4 CHR ''0'' CHR ''0'' h l = byte c" by (simp add: hex4_def hex_zero)
  have "escapes (backslash # CHR ''u'' # [CHR ''0'', CHR ''0'', h, l]) [c]"
    using escapes_hex [of "CHR ''0''" "CHR ''0''" h l] hl assms unfolding r by (simp add: hex_zero EncodeRune_def)
  then have hex: "escapes (backslash # ''u00'' @ [h, l]) [c]" by simp
  show ?thesis
  proof (cases "c \<in> {backslash, quote_char, CHR 0x08, CHR 0x0C, CHR 0x0A, CHR 0x0D, CHR 0x09}")
    case short: True
    have "escapes [backslash, e] [c]" if "e \<in> {CHR ''b'', CHR ''f'', CHR ''n'', CHR ''r'', CHR ''t'', backslash, quote_char}" "unescape e = c" for e
      using escapes_short [OF that(1)] that(2) by simp
    with short show ?thesis
      by (elim insertE emptyE; simp add: escape_ascii_def unescape_def)
  next
    case no_short: False
    then have "escape_ascii c = backslash # ''u00'' @ [h, l]"
      using True unfolding escape_ascii_def h_def l_def insert_iff empty_iff de_Morgan_disj by (simp only: if_True if_False simp_thms)
    with hex show ?thesis by simp
  qed
next
  case False
  then have "byte CHR 0x08 \<noteq> byte c" "byte CHR 0x0C \<noteq> byte c" "byte CHR 0x0A \<noteq> byte c" "byte CHR 0x0D \<noteq> byte c" "byte CHR 0x09 \<noteq> byte c"
    by (simp_all add: byte_def)
  then have "c \<noteq> CHR 0x08" "c \<noteq> CHR 0x0C" "c \<noteq> CHR 0x0A" "c \<noteq> CHR 0x0D" "c \<noteq> CHR 0x09" by metis+
  then have *: "escape_ascii c = (if c = backslash \<or> c = quote_char then [backslash, c] else [c])"
    using False unfolding escape_ascii_def by (simp only: if_False)
  show ?thesis
  proof (cases "c = backslash \<or> c = quote_char")
    case True
    then have "escapes [backslash, c] [unescape c]" by (intro escapes_short) auto
    with True * show ?thesis by (auto simp: unescape_def)
  next
    case plain: False
    then have "lex_string (c # t) = map_option (\<lambda>(raw, rest). (c # raw, rest)) (lex_string t)" for t
      using False by (intro lex_string_plain1) (simp add: plain_def)
    with plain assms show ?thesis unfolding * by (auto simp: escapes_def unquote_ascii)
  qed
qed

lemma escapes_rune:
  assumes "0x80 \<le> byte c" "rune_size (c # s) = n" "0 < n"
  shows "escapes (take n (c # s)) (take n (c # s))"
proof -
  have plain: "\<forall>d \<in> set (take n (c # s)). plain d"
    using rune_bytes_high [OF assms] bytes_neq by (force simp: plain_def)
  obtain u where u: "take n (c # s) = c # u" using assms(3) by (cases n) auto
  have "rune_size (c # u @ t) = n" "n = Suc (length u)" for t
    using rune_size_take(1) [OF assms(2, 3), of t] rune_size_take(2) [OF assms(2, 3)] u by simp_all
  then have "unquote (c # u @ t) = c # u @ unquote t" for t
    using assms(1) bytes_neq [OF assms(1)] by (subst unquote.simps) simp
  then have "unquote (take n (c # s) @ t) = take n (c # s) @ unquote t" for t using u by simp
  with lex_string_plain [OF plain] show ?thesis unfolding escapes_def by blast
qed

text \<open>What \<open>json.Marshal\<close> writes for a text that is valid UTF-8 is read back as that text.\<close>

lemma escapes_append: "escapes e s \<Longrightarrow> escapes f t \<Longrightarrow> escapes (e @ f) (s @ t)"
  by (auto simp: escapes_def option.map_comp comp_def case_prod_unfold)

lemma escapes_Nil: "escapes [] []"
  by (simp add: escapes_def option.map_ident_strong case_prod_unfold)

lemma escapes_separators:
  "escapes (backslash # ''u2028'') [CHR 0xE2, CHR 0x80, CHR 0xA8]" "escapes (backslash # ''u2029'') [CHR 0xE2, CHR 0x80, CHR 0xA9]"
proof -
  have "hex4 CHR ''2'' CHR ''0'' CHR ''2'' CHR ''8'' = 0x2028" "hex4 CHR ''2'' CHR ''0'' CHR ''2'' CHR ''9'' = 0x2029"
    "isHex CHR ''2''" "isHex CHR ''0''" "isHex CHR ''8''" "isHex CHR ''9''"
    by (simp_all add: hex4_def hex_val_def isHex_def byte_def)
  moreover have "EncodeRune 0x2028 = [CHR 0xE2, CHR 0x80, CHR 0xA8]" "EncodeRune 0x2029 = [CHR 0xE2, CHR 0x80, CHR 0xA9]"
    using byte_char_byte [of "CHR 0xE2"] byte_char_byte [of "CHR 0x80"] byte_char_byte [of "CHR 0xA8"] byte_char_byte [of "CHR 0xA9"]
    by (simp_all add: EncodeRune_def byte_def)
  ultimately show "escapes (backslash # ''u2028'') [CHR 0xE2, CHR 0x80, CHR 0xA8]" "escapes (backslash # ''u2029'') [CHR 0xE2, CHR 0x80, CHR 0xA9]"
    using escapes_hex [of "CHR ''2''" "CHR ''0''" "CHR ''2''" "CHR ''8''"] escapes_hex [of "CHR ''2''" "CHR ''0''" "CHR ''2''" "CHR ''9''"]
    by simp_all
qed

lemma appendString_escapes: "valid_utf8 s \<Longrightarrow> escapes (appendString s) s"
proof (induction s rule: appendString.induct)
  case (2 c s)
  define n r where "n = rune_size (c # s)" and "r = take n (c # s)"
  have n: "0 < n" and rest: "valid_utf8 (drop (n - 1) s)" using "2.prems" by (simp_all add: n_def)
  show ?case
  proof (cases "byte c < 0x80")
    case True
    then have "n = 1" by (simp add: n_def rune_size.simps rune_tail_def tail_ok_def)
    with "2.IH"(1) [OF True] rest True escapes_append [OF escapes_ascii [OF True], of "appendString s" s]
    show ?thesis by (simp add: appendString.simps)
  next
    case False
    then have IH: "escapes (appendString (drop (n - 1) s)) (drop (n - 1) s)"
      using "2.IH" rest n by (simp add: n_def r_def)
    have "escapes (if r = [CHR 0xE2, CHR 0x80, CHR 0xA8] then backslash # ''u2028''
         else if r = [CHR 0xE2, CHR 0x80, CHR 0xA9] then backslash # ''u2029'' else r) r"
      using escapes_separators escapes_rune [of c s n] False n n_def r_def by auto
    moreover have "appendString (c # s) = (if r = [CHR 0xE2, CHR 0x80, CHR 0xA8] then backslash # ''u2028''
         else if r = [CHR 0xE2, CHR 0x80, CHR 0xA9] then backslash # ''u2029'' else r) @ appendString (drop (n - 1) s)"
      using False n unfolding appendString.simps(2) Let_def n_def [symmetric] r_def [symmetric] by simp
    ultimately have "escapes (appendString (c # s)) (r @ drop (n - 1) s)" using escapes_append IH by metis
    moreover have "r @ drop (n - 1) s = c # s" using n unfolding r_def by (cases n) simp_all
    ultimately show ?thesis by simp
  qed
qed (simp add: escapes_Nil)

lemma string_roundtrip:
  assumes "valid_utf8 s"
  shows "unquote (appendString s) = s"
    "lex_string (appendString s @ quote_char # t) = Some (appendString s, t)"
proof -
  have "lex_string (quote_char # t) = Some ([], t)" by (subst lex_string.simps) simp
  then show "lex_string (appendString s @ quote_char # t) = Some (appendString s, t)"
    using appendString_escapes [OF assms] unfolding escapes_def by simp
  have "unquote (appendString s @ []) = s @ unquote []"
    using appendString_escapes [OF assms] unfolding escapes_def by blast
  then show "unquote (appendString s) = s" by simp
qed

section \<open>Instants survive\<close>

definition printable_time :: "(gotime \<Rightarrow> int) \<Rightarrow> gotime \<Rightarrow> bool" where
  "printable_time loc t \<longleftrightarrow> minute_zone (loc t) \<and> four_digit_year (t + loc t * Second)"

lemma plain_digit: "digit_char c \<Longrightarrow> plain c"
  by (auto simp: digit_char_def digit_val_def plain_def byte_int Let_def split: if_splits)

lemma plain_marks [simp]: "plain CHR ''-''" "plain CHR ''T''" "plain CHR '':''" "plain CHR ''Z''" "plain CHR ''+''" "plain CHR ''.''"
  by (simp_all add: plain_def byte_def)

lemma plain_appendInt: "c \<in> set (appendInt w n) \<Longrightarrow> plain c"
  by (rule plain_digit [OF appendInt_digits])

lemma appendNano_cases:
  obtains "appendNano n = []" | ds where "appendNano n = CHR ''.'' # ds" "\<forall>c \<in> set ds. digit_char c"
proof -
  define ds where "ds = rev (dropWhile (\<lambda>c. c = CHR ''0'') (rev (appendInt 9 n)))"
  have "c \<in> set ds \<Longrightarrow> digit_char c" for c
    using set_dropWhileD [of c _ "rev (appendInt 9 n)"] appendInt_digits [of c 9 n] by (fastforce simp: ds_def)
  moreover have "appendNano n = (if ds = [] then [] else CHR ''.'' # ds)" unfolding appendNano_def ds_def Let_def ..
  ultimately show thesis using that by (cases "ds = []") auto
qed

lemma zone_text_cases:
  assumes "minute_zone offset"
  obtains "zone_text offset = ''Z''"
  | z a b c d where "zone_text offset = [z, a, b, CHR '':'', c, d]" "z \<in> {CHR ''+'', CHR ''-''}"
    "digit_char a" "digit_char b" "digit_char c" "digit_char d" "num2 [a, b, CHR '':'', c, d] < 24" "num2 [c, d] < 60"
proof (cases "offset = 0")
  case False
  define zone where "zone = nat (\<bar>offset\<bar> div 60)"
  have zone: "zone div 60 < 24" using assms unfolding zone_def minute_zone_def by linarith
  obtain a b where ab: "appendInt 2 (zone div 60) = [a, b]" using zone by (auto intro: appendInt_two [of "zone div 60"])
  obtain c d where cd: "appendInt 2 (zone mod 60) = [c, d]" by (rule appendInt_two [of "zone mod 60"]) (auto intro: less_trans [of _ 60])
  have "digits_val 0 [a, b] = Some (zone div 60)" "digits_val 0 [c, d] = Some (zone mod 60)"
    using digits_val_appendInt [of 2] unfolding ab [symmetric] cd [symmetric] by blast+
  then have "num2 [a, b, CHR '':'', c, d] < 24" "num2 [c, d] < 60" using zone by (simp_all add: num2_def)
  moreover have "digit_char a" "digit_char b" "digit_char c" "digit_char d"
    using appendInt_digits [of _ 2 "zone div 60"] appendInt_digits [of _ 2 "zone mod 60"] unfolding ab cd by simp_all
  moreover have "zone_text offset = [if offset \<le> - 60 then CHR ''-'' else CHR ''+'', a, b, CHR '':'', c, d]"
    using False unfolding zone_text_def Let_def zone_def [symmetric] ab cd by simp
  ultimately show thesis using that(2) [of "if offset \<le> - 60 then CHR ''-'' else CHR ''+''"] by (simp split: if_splits)
qed (simp add: zone_text_def that(1))

text \<open>The shape of a printed instant: nineteen characters of which the hour has two digits, the fraction, the zone.\<close>

lemma format_civil_shape:
  assumes "four_digit_year t"
  obtains pre ns where "format_civil t = pre @ appendNano ns" "length pre = 19" "digit_char (pre ! 12)" "\<forall>c \<in> set pre. plain c"
proof (rule format_civil_fields [OF assms])
  fix Y m d h mi se ns
  assume f: "Y < 10000" "m \<le> 12" "d < 100" "h < 24" "mi < 60" "se < 60"
    "format_civil t = appendInt 4 Y @ ''-'' @ appendInt 2 m @ ''-'' @ appendInt 2 d @ ''T'' @
      appendInt 2 h @ '':'' @ appendInt 2 mi @ '':'' @ appendInt 2 se @ appendNano ns"
  define pre where "pre = appendInt 4 Y @ ''-'' @ appendInt 2 m @ ''-'' @ appendInt 2 d @ ''T'' @
      appendInt 2 h @ '':'' @ appendInt 2 mi @ '':'' @ appendInt 2 se"
  have len: "length (appendInt 4 Y) = 4" "length (appendInt 2 m) = 2" "length (appendInt 2 d) = 2" "length (appendInt 2 h) = 2"
    "length (appendInt 2 mi) = 2" "length (appendInt 2 se) = 2" using f by simp_all
  have "format_civil t = pre @ appendNano ns" using f(7) by (simp add: pre_def)
  moreover have "length pre = 19" by (simp add: pre_def len)
  moreover have "pre ! 12 = appendInt 2 h ! 1" by (simp add: pre_def nth_append len)
  then have "digit_char (pre ! 12)" using appendInt_digits [of "appendInt 2 h ! 1" 2 h] len by simp
  moreover have "\<forall>c \<in> set pre. plain c" by (auto simp: pre_def plain_appendInt)
  ultimately show thesis by (rule that)
qed

lemma time_roundtrip:
  assumes "printable_time loc t"
  obtains b where "MarshalTime loc t = Some b" "UnmarshalTime b = Some t" "\<forall>c \<in> set b. plain c"
proof -
  define offset civil where "offset = loc t" and "civil = t + offset * Second"
  have z: "minute_zone offset" and y: "four_digit_year civil" using assms by (simp_all add: printable_time_def offset_def civil_def)
  obtain Y :: nat where "Y < 10000" "year_at civil = int Y" by (rule format_civil_fields [OF y])
  moreover have "\<bar>offset\<bar> div 60 div 60 \<le> 23" using z unfolding minute_zone_def by linarith
  ultimately have m: "MarshalTime loc t = Some (format_civil civil @ zone_text offset)"
    by (simp add: MarshalTime_def Let_def offset_def civil_def)
  obtain pre ns where pre: "format_civil civil = pre @ appendNano ns" "length pre = 19" "digit_char (pre ! 12)" "\<forall>c \<in> set pre. plain c"
    by (rule format_civil_shape [OF y])
  define b where "b = pre @ appendNano ns @ zone_text offset"
  have parse: "time_Parse RFC3339 b = Some t" using civil_roundtrip [of t offset RFC3339] y z pre(1) by (simp add: b_def civil_def)
  have nano: "\<forall>c \<in> set (appendNano ns). plain c"
    by (cases rule: appendNano_cases [of ns]) (auto intro: plain_digit)
  have zone: "\<forall>c \<in> set (zone_text offset). plain c"
    using z by (cases rule: zone_text_cases) (auto intro: plain_digit)
  have "b ! 12 \<noteq> CHR '':''" using pre(2, 3) by (auto simp: b_def nth_append)
  moreover have "b ! 19 \<noteq> CHR '',''"
    using z by (cases rule: zone_text_cases; cases rule: appendNano_cases [of ns]) (auto simp: b_def nth_append pre(2))
  moreover have "last b = CHR ''Z'' \<or> num2 (drop (length b - 5) b) < 24 \<and> num2 (drop (length b - 2) b) < 60"
    using z by (cases rule: zone_text_cases) (auto simp: b_def)
  ultimately have "UnmarshalTime b = Some t" using parse by (simp add: UnmarshalTime_def check_def)
  then show thesis using that [of b] m pre nano zone by (auto simp: b_def)
qed

section \<open>Lexing what was written\<close>

lemma json_lex_Nil [simp]: "json_lex [] = Some []"
  by (subst json_lex.simps) simp

lemma json_lex_punctuation:
  assumes "punctuation c = Some t" "\<not> isSpace c"
  shows "json_lex (c # s) = map_option (\<lambda>ts. t # ts) (json_lex s)"
  using assms by (subst json_lex.simps) (simp add: lex_token_def)

lemma json_lex_braces [simp]:
  "json_lex (CHR 0x7B # s) = map_option (\<lambda>ts. TOpen True # ts) (json_lex s)"
  "json_lex (CHR 0x7D # s) = map_option (\<lambda>ts. TClose True # ts) (json_lex s)"
  "json_lex (CHR 0x2C # s) = map_option (\<lambda>ts. TComma # ts) (json_lex s)"
  "json_lex (CHR 0x3A # s) = map_option (\<lambda>ts. TColon # ts) (json_lex s)"
  by (intro json_lex_punctuation; simp add: punctuation_def isSpace_def)+

lemma json_lex_quoted:
  assumes "lex_string (raw @ quote_char # s) = Some (raw, s)"
  shows "json_lex (quoted raw @ s) = map_option (\<lambda>ts. TStr raw # ts) (json_lex s)"
proof -
  have "lex_token (quote_char # raw @ quote_char # s) = Some (TStr raw, s)"
    using assms by (simp add: lex_token_def punctuation_def)
  then show ?thesis unfolding quoted_def by (subst json_lex.simps) (simp add: isSpace_def)
qed

lemma json_lex_plain:
  assumes "\<forall>c \<in> set raw. plain c"
  shows "json_lex (quoted raw @ s) = map_option (\<lambda>ts. TStr raw # ts) (json_lex s)"
proof (rule json_lex_quoted)
  have "lex_string (quote_char # s) = Some ([], s)" by (subst lex_string.simps) simp
  with lex_string_plain [OF assms] show "lex_string (raw @ quote_char # s) = Some (raw, s)" by simp
qed

end
