(* ===== verification/Gateway.thy ===== *)
theory Gateway
  imports Telemetry_Db Mq_Http Go_Base64 Go_Json
begin

text \<open>
  The API gateway (\<open>internal/gateway/handler.go\<close>, \<open>cursor.go\<close>): its handlers as functions from the query
  parameters and the database to a response. An absent parameter is the empty string. The pool is \<open>None\<close>
  when nil; otherwise the \<open>k\<close>-th query of a request sees the table and the connection of its moment, since
  rows are ingested between the queries. A row's instant is in the zone of the process, which shows in the
  text of a cursor: \<open>loc\<close> gives the offset of that zone in seconds at an instant.
\<close>

section \<open>Cursors\<close>

record telemetryCursor =
  curTS :: gotime
  curMetric :: string

type_synonym location = "gotime \<Rightarrow> int"

text \<open>\<open>json.Marshal\<close> fails on instants it cannot print; \<open>json.Unmarshal\<close> leaves absent fields zero.\<close>

definition json_key :: "string \<Rightarrow> string" where
  "json_key k = quoted k @ [CHR 0x3A]"

definition json_Marshal :: "location \<Rightarrow> telemetryCursor \<Rightarrow> string option" where
  "json_Marshal loc c = map_option (\<lambda>ts.
     [CHR 0x7B] @ json_key ''ts'' @ quoted ts @ [CHR 0x2C] @ json_key ''mn'' @ quoted (appendString (curMetric c)) @ [CHR 0x7D])
     (MarshalTime loc (curTS c))"

definition set_field :: "string \<Rightarrow> token option \<Rightarrow> telemetryCursor \<Rightarrow> telemetryCursor option" where
  "set_field key v c =
     (if foldName (unquote key) = ''TS'' then
        (case v of
           Some TNull \<Rightarrow> Some c
         | Some (TStr raw) \<Rightarrow> map_option (\<lambda>t. c\<lparr>curTS := t\<rparr>) (UnmarshalTime raw)
         | _ \<Rightarrow> None)
      else if foldName (unquote key) = ''MN'' then
        (case v of
           Some TNull \<Rightarrow> Some c
         | Some (TStr raw) \<Rightarrow> Some (c\<lparr>curMetric := unquote raw\<rparr>)
         | _ \<Rightarrow> None)
      else Some c)"

fun set_fields :: "(string \<times> token option) list \<Rightarrow> telemetryCursor \<Rightarrow> telemetryCursor option" where
  "set_fields [] c = Some c"
| "set_fields ((key, v) # kvs) c = do { c \<leftarrow> set_field key v c; set_fields kvs c }"

definition json_Unmarshal :: "string \<Rightarrow> telemetryCursor option" where
  "json_Unmarshal raw = do {
     toks \<leftarrow> json_lex raw;
     check (json_valid Val [] toks);
     (case toks of
        TNull # _ \<Rightarrow> Some \<lparr>curTS = zeroTime, curMetric = ''''\<rparr>
      | TOpen True # _ \<Rightarrow> set_fields (json_members 0 None toks) \<lparr>curTS = zeroTime, curMetric = ''''\<rparr>
      | _ \<Rightarrow> None)
   }"

definition encodeCursor :: "location \<Rightarrow> telemetryCursor \<Rightarrow> string" where
  "encodeCursor loc c = (let raw = (case json_Marshal loc c of Some raw \<Rightarrow> raw | None \<Rightarrow> []) in EncodeToString raw)"

datatype cursor_error = NotBase64URL | PayloadMalformed | PayloadIncomplete

definition decodeCursor :: "string \<Rightarrow> cursor_error + telemetryCursor" where
  "decodeCursor s =
     (case DecodeString s of
        None \<Rightarrow> Inl NotBase64URL
      | Some raw \<Rightarrow>
          (case json_Unmarshal raw of
             None \<Rightarrow> Inl PayloadMalformed
           | Some c \<Rightarrow> if curTS c = zeroTime \<or> curMetric c = '''' then Inl PayloadIncomplete else Inr c))"

section \<open>Responses\<close>

record GpuMetricResponse =
  rGpuID :: string
  rTimestamp :: gotime
  rMetricName :: string
  rValue :: float64
  rDevice :: string
  rModelName :: string
  rHostname :: string
  rContainer :: string
  rPod :: string
  rNamespace :: string
  rLabelsRaw :: string

record PaginationMeta =
  pmLimit :: int
  pmOffset :: int
  pmTotal :: "int option"
  pmHasNext :: bool
  pmNextCursor :: string

record TelemetryPage =
  tpData :: "GpuMetricResponse list"
  tpPagination :: PaginationMeta

datatype gateway_body = ErrorResponse string | StatusBody string | PageBody TelemetryPage | IdsBody "string list"

definition writeJSON :: "nat \<Rightarrow> gateway_body \<Rightarrow> gateway_body http_response" where
  "writeJSON status v = \<lparr>rsStatus = status, rsContentType = ''application/json'', rsBody = v\<rparr>"

definition writeError :: "nat \<Rightarrow> string \<Rightarrow> gateway_body http_response" where
  "writeError status text = writeJSON status (ErrorResponse text)"

definition gw_HealthzHandler :: "gateway_body http_response" where
  "gw_HealthzHandler = writeJSON 200 (StatusBody ''ok'')"

text \<open>\<open>ping\<close> is the outcome of \<open>pool.Ping\<close> within two seconds, of a pool that is not nil.\<close>

definition gw_ReadyzHandler :: "db_error option option \<Rightarrow> gateway_body http_response" where
  "gw_ReadyzHandler ping =
     (case ping of
        None \<Rightarrow> writeError 503 ''not ready''
      | Some (Some err) \<Rightarrow> writeError 503 ''not ready''
      | Some None \<Rightarrow> writeJSON 200 (StatusBody ''ok''))"

section \<open>Telemetry\<close>

type_synonym gateway_pool = "nat \<Rightarrow> db_net \<times> metric_row list"

record TelemetryRequest =
  rqId :: string
  rqStart :: string
  rqEnd :: string
  rqLimit :: string
  rqOffset :: string
  rqCursor :: string

text \<open>The parameters, validated before any database access; \<open>None\<close> and \<open>Inl\<close> are bad requests.\<close>

definition queryTime :: "string \<Rightarrow> gotime option option" where
  "queryTime v = (if v \<noteq> '''' then (case time_Parse RFC3339 v of None \<Rightarrow> None | Some t \<Rightarrow> Some (Some t)) else Some None)"

definition queryLimit :: "int \<Rightarrow> string \<Rightarrow> int option" where
  "queryLimit maxRows v =
     (if v \<noteq> '''' then
        (case Atoi v of
           None \<Rightarrow> None
         | Some n \<Rightarrow> if n < 1 then None else Some (if n > maxRows then maxRows else n))
      else Some maxRows)"

definition queryOffset :: "string \<Rightarrow> int option" where
  "queryOffset v =
     (if v \<noteq> '''' then (case Atoi v of None \<Rightarrow> None | Some n \<Rightarrow> if n < 0 then None else Some n) else Some 0)"

definition queryCursor :: "string \<Rightarrow> string \<Rightarrow> string + telemetryCursor option" where
  "queryCursor v offsetParam =
     (if v \<noteq> '''' then
        if offsetParam \<noteq> '''' then Inl ''cursor and offset are mutually exclusive''
        else (case decodeCursor v of
                Inl err \<Rightarrow> Inl ''invalid cursor: pass pagination.next_cursor verbatim''
              | Inr c \<Rightarrow> Inr (Some c))
      else Inr None)"

definition toResponse :: "GpuMetric \<Rightarrow> GpuMetricResponse" where
  "toResponse m = \<lparr>rGpuID = GpuID m, rTimestamp = Timestamp m, rMetricName = MetricName m, rValue = Value m,
     rDevice = Device m, rModelName = ModelName m, rHostname = Hostname m, rContainer = Container m, rPod = Pod m,
     rNamespace = Namespace m, rLabelsRaw = LabelsRaw m\<rparr>"

text \<open>The tail of the handler, from the fetched rows to the page.\<close>

definition page_response ::
  "location \<Rightarrow> int \<Rightarrow> int \<Rightarrow> int option \<Rightarrow> GpuMetric list \<Rightarrow> gateway_body http_response" where
  "page_response loc limit offset tot metrics =
     (let hasNext = int (length metrics) > limit;
          metrics = (if hasNext then take (nat limit) metrics else metrics);
          nextCursor =
            (if hasNext \<and> length metrics > 0 then
               let l = last metrics in encodeCursor loc \<lparr>curTS = Timestamp l, curMetric = MetricName l\<rparr>
             else '''')
      in writeJSON 200 (PageBody \<lparr>tpData = map toResponse metrics,
           tpPagination = \<lparr>pmLimit = limit, pmOffset = offset, pmTotal = tot, pmHasNext = hasNext,
             pmNextCursor = nextCursor\<rparr>\<rparr>))"

definition fetch_page ::
  "(string \<Rightarrow> string \<Rightarrow> bool) \<Rightarrow> location \<Rightarrow> gateway_pool \<Rightarrow> string \<Rightarrow> gotime option \<Rightarrow> gotime option \<Rightarrow>
   int \<Rightarrow> int \<Rightarrow> telemetryCursor option \<Rightarrow> int option \<Rightarrow> gateway_body http_response" where
  "fetch_page coll loc db gid start stop limit offset cursor tot =
     (let (net, t) = db 2;
          metrics =
            (case cursor of
               Some c \<Rightarrow> TelemetryAfter coll net t gid start stop (curTS c) (curMetric c) (wrap64 (limit + 1))
             | None \<Rightarrow> Telemetry coll net t gid start stop (wrap64 (limit + 1)) offset)
      in case metrics of
           Inl err2 \<Rightarrow> writeError 500 ''failed to fetch telemetry''
         | Inr metrics \<Rightarrow> page_response loc limit offset tot metrics)"

definition query_telemetry ::
  "(string \<Rightarrow> string \<Rightarrow> bool) \<Rightarrow> location \<Rightarrow> gateway_pool \<Rightarrow> string \<Rightarrow> gotime option \<Rightarrow> gotime option \<Rightarrow>
   int \<Rightarrow> int \<Rightarrow> telemetryCursor option \<Rightarrow> gateway_body http_response" where
  "query_telemetry coll loc db gid start stop limit offset cursor =
     (case GPUExists (fst (db 0)) (snd (db 0)) gid of
        Inl err \<Rightarrow> writeError 500 ''failed to check GPU''
      | Inr exists \<Rightarrow>
          if \<not> exists then writeError 404 ''GPU not found''
          else
            (case cursor of
               None \<Rightarrow>
                 (case TelemetryCount (fst (db 1)) (snd (db 1)) gid start stop of
                    Inl err \<Rightarrow> writeError 500 ''failed to count telemetry''
                  | Inr n \<Rightarrow> fetch_page coll loc db gid start stop limit offset cursor (Some n))
             | Some c \<Rightarrow> fetch_page coll loc db gid start stop limit offset cursor None))"

definition GetTelemetry ::
  "(string \<Rightarrow> string \<Rightarrow> bool) \<Rightarrow> location \<Rightarrow> gateway_pool option \<Rightarrow> int \<Rightarrow> TelemetryRequest \<Rightarrow> gateway_body http_response" where
  "GetTelemetry coll loc pool maxRows rq =
     (case queryTime (rqStart rq) of
        None \<Rightarrow> writeError 400 ''invalid start_time: expected RFC3339 (e.g. 2006-01-02T15:04:05Z)''
      | Some start \<Rightarrow>
     (case queryTime (rqEnd rq) of
        None \<Rightarrow> writeError 400 ''invalid end_time: expected RFC3339 (e.g. 2006-01-02T15:04:05Z)''
      | Some stop \<Rightarrow>
     (case queryLimit maxRows (rqLimit rq) of
        None \<Rightarrow> writeError 400 ''limit must be a positive integer''
      | Some limit \<Rightarrow>
     (case queryOffset (rqOffset rq) of
        None \<Rightarrow> writeError 400 ''offset must be a non-negative integer''
      | Some offset \<Rightarrow>
     (case queryCursor (rqCursor rq) (rqOffset rq) of
        Inl text \<Rightarrow> writeError 400 text
      | Inr cursor \<Rightarrow>
     (case pool of
        None \<Rightarrow> writeError 500 ''database not available''
      | Some db \<Rightarrow> query_telemetry coll loc db (rqId rq) start stop limit offset cursor))))))"

definition ListGPUs :: "(string \<Rightarrow> string \<Rightarrow> bool) \<Rightarrow> gateway_pool option \<Rightarrow> gateway_body http_response" where
  "ListGPUs coll pool =
     (case pool of
        None \<Rightarrow> writeError 500 ''database not available''
      | Some db \<Rightarrow>
          (case DistinctGPUIDs coll (fst (db 0)) (snd (db 0)) of
             Inl err \<Rightarrow> writeError 500 ''failed to query GPU IDs''
           | Inr ids \<Rightarrow> writeJSON 200 (IdsBody ids)))"

section \<open>Lemmas\<close>

definition steady :: "metric_row list \<Rightarrow> gateway_pool" where
  "steady t = (\<lambda>k. (NetOk, t))"

text \<open>The cursors that survive: the zone has an offset in whole minutes of less than a day, the local year has four
  digits, and the metric name is valid UTF-8, as every text in a UTF-8 database is.\<close>

definition printable_cursor :: "location \<Rightarrow> telemetryCursor \<Rightarrow> bool" where
  "printable_cursor loc c \<longleftrightarrow> printable_time loc (curTS c) \<and> valid_utf8 (curMetric c)"

lemma cursor_keys: "foldName (unquote ''ts'') = ''TS''" "foldName (unquote ''mn'') = ''MN''"
  by code_simp+

lemma cursor_json_roundtrip:
  assumes "printable_cursor loc c"
  obtains raw where "json_Marshal loc c = Some raw" "json_Unmarshal raw = Some c" "raw \<noteq> []"
proof -
  from assms obtain b where b: "MarshalTime loc (curTS c) = Some b" "UnmarshalTime b = Some (curTS c)" "\<forall>ch \<in> set b. plain ch"
    by (auto simp: printable_cursor_def elim: time_roundtrip)
  define mn where "mn = appendString (curMetric c)"
  define raw where "raw = [CHR 0x7B] @ json_key ''ts'' @ quoted b @ [CHR 0x2C] @ json_key ''mn'' @ quoted mn @ [CHR 0x7D]"
  have mn: "unquote mn = curMetric c" "lex_string (mn @ quote_char # t) = Some (mn, t)" for t
    using string_roundtrip assms by (simp_all add: printable_cursor_def mn_def)
  have keys: "json_lex (quoted ''ts'' @ s) = map_option (\<lambda>ts. TStr ''ts'' # ts) (json_lex s)"
    "json_lex (quoted ''mn'' @ s) = map_option (\<lambda>ts. TStr ''mn'' # ts) (json_lex s)" for s
    by (rule json_lex_plain, simp add: plain_def byte_def)+
  have "json_lex raw = Some [TOpen True, TStr ''ts'', TColon, TStr b, TComma, TStr ''mn'', TColon, TStr mn, TClose True]"
    by (simp add: raw_def json_key_def keys json_lex_plain [OF b(3)] json_lex_quoted [OF mn(2)])
  then have "json_Unmarshal raw = Some c"
    by (simp add: json_Unmarshal_def check_def maxNestingDepth_def set_field_def cursor_keys b mn)
  moreover have "json_Marshal loc c = Some raw" using b by (simp add: json_Marshal_def raw_def mn_def)
  ultimately show thesis using that by (simp add: raw_def)
qed

lemma EncodeToString_Nil: "EncodeToString s = [] \<longleftrightarrow> s = []"
proof -
  have "encode_bytes bs = [] \<longleftrightarrow> bs = []" for bs by (cases bs rule: encode_bytes.cases) auto
  then show ?thesis by (simp add: EncodeToString_def)
qed

lemma cursor_survives:
  assumes "printable_cursor loc c" "curTS c \<noteq> zeroTime" "curMetric c \<noteq> ''''"
  shows "decodeCursor (encodeCursor loc c) = Inr c" "encodeCursor loc c \<noteq> ''''"
proof -
  obtain raw where "json_Marshal loc c = Some raw" "json_Unmarshal raw = Some c" "raw \<noteq> []"
    by (rule cursor_json_roundtrip [OF assms(1)])
  then show "decodeCursor (encodeCursor loc c) = Inr c" "encodeCursor loc c \<noteq> ''''"
    using assms(2, 3) by (simp_all add: decodeCursor_def encodeCursor_def EncodeToString_Nil)
qed

lemma page_response_eq:
  assumes "0 < limit" "metrics = take (nat limit + 1) ms"
  shows "page_response loc limit offset tot metrics = writeJSON 200 (PageBody
     \<lparr>tpData = map toResponse (take (nat limit) ms),
      tpPagination = \<lparr>pmLimit = limit, pmOffset = offset, pmTotal = tot, pmHasNext = nat limit < length ms,
        pmNextCursor = (if nat limit < length ms
          then let l = ms ! (nat limit - 1) in encodeCursor loc \<lparr>curTS = Timestamp l, curMetric = MetricName l\<rparr>
          else '''')\<rparr>\<rparr>)"
proof (cases "nat limit < length ms")
  case True
  then have "int (length metrics) > limit" "take (nat limit) metrics = take (nat limit) ms" using assms by (auto simp: min_def)
  moreover have ne: "take (nat limit) ms \<noteq> []" using True assms(1) by auto
  moreover have "last (take (nat limit) ms) = ms ! (nat limit - 1)"
    using last_conv_nth [OF ne] True assms(1) by simp
  ultimately show ?thesis using True assms(1) by (simp add: page_response_def Let_def)
next
  case False
  then have "metrics = ms" "take (nat limit) ms = ms" "\<not> int (length metrics) > limit" using assms by auto
  then show ?thesis using False by (simp add: page_response_def Let_def)
qed

definition result_rows :: "(string \<Rightarrow> string \<Rightarrow> bool) \<Rightarrow> metric_row list \<Rightarrow> string \<Rightarrow> gotime option \<Rightarrow> gotime option \<Rightarrow> metric_row list" where
  "result_rows coll t gid start stop = sort_by (newest_first coll) (window_rows t gid start stop)"

lemma fetch_offset:
  assumes "0 < limit" "limit < 2 ^ 63 - 1" "0 \<le> offset"
  shows "fetch_page coll loc (steady t) gid start stop limit offset None tot =
    page_response loc limit offset tot (take (nat limit + 1) (drop (nat offset) (map cols (result_rows coll t gid start stop))))"
  using assms by (simp add: fetch_page_def steady_def Telemetry_eq result_rows_def take_map drop_map nat_add_distrib)

lemma fetch_cursor:
  assumes coll: "collation coll" and wf: "table_wf t" and lim: "0 < limit" "limit < 2 ^ 63 - 1"
    and i: "i < length (result_rows coll t gid start stop)" and r: "r = result_rows coll t gid start stop ! i"
  shows "fetch_page coll loc (steady t) gid start stop limit offset (Some \<lparr>curTS = c_timestamp r, curMetric = c_metric_name r\<rparr>) tot =
    page_response loc limit offset tot (take (nat limit + 1) (drop (Suc i) (map cols (result_rows coll t gid start stop))))"
proof -
  let ?L = "result_rows coll t gid start stop"
  have "r \<in> set t" using i r unfolding result_rows_def window_rows_def
    by (metis filter_is_subset nth_mem set_sort_by subset_iff)
  with wf have "pg_timestamp (c_timestamp r) = c_timestamp r" by simp
  moreover have "sort_by (newest_first coll) (filter (row_before coll (c_timestamp r) (c_metric_name r))
      (window_rows t gid start stop)) = drop (Suc i) ?L"
    using collation.keyset_rows [OF coll wf refl] i r unfolding result_rows_def by blast
  ultimately show ?thesis using lim
    by (simp add: fetch_page_def steady_def TelemetryAfter_eq take_map drop_map nat_add_distrib)
qed

lemma query_steady:
  assumes "gid \<in> c_gpu_id ` set t"
  shows "query_telemetry coll loc (steady t) gid start stop limit offset cursor =
    fetch_page coll loc (steady t) gid start stop limit offset cursor
      (case cursor of None \<Rightarrow> Some (int (length (result_rows coll t gid start stop))) | Some c \<Rightarrow> None)"
  using assms by (simp add: query_telemetry_def steady_def GPUExists_def pool_QueryRow_def TelemetryCount_eq result_rows_def
      split: option.split)

section \<open>Properties\<close>

text \<open>The requests the handler refuses, by their parameters.\<close>

definition bad_request :: "TelemetryRequest \<Rightarrow> bool" where
  "bad_request rq \<longleftrightarrow>
     (rqStart rq \<noteq> '''' \<and> time_Parse RFC3339 (rqStart rq) = None) \<or>
     (rqEnd rq \<noteq> '''' \<and> time_Parse RFC3339 (rqEnd rq) = None) \<or>
     (rqLimit rq \<noteq> '''' \<and> (case Atoi (rqLimit rq) of None \<Rightarrow> True | Some n \<Rightarrow> n < 1)) \<or>
     (rqOffset rq \<noteq> '''' \<and> (case Atoi (rqOffset rq) of None \<Rightarrow> True | Some n \<Rightarrow> n < 0)) \<or>
     (rqCursor rq \<noteq> '''' \<and> (rqOffset rq \<noteq> '''' \<or> isl (decodeCursor (rqCursor rq))))"

lemma queryTime_None: "queryTime v = None \<longleftrightarrow> v \<noteq> '''' \<and> time_Parse RFC3339 v = None"
  by (simp add: queryTime_def split: option.split)

lemma queryLimit_None: "queryLimit maxRows v = None \<longleftrightarrow> v \<noteq> '''' \<and> (case Atoi v of None \<Rightarrow> True | Some n \<Rightarrow> n < 1)"
  by (simp add: queryLimit_def split: option.split)

lemma queryOffset_None: "queryOffset v = None \<longleftrightarrow> v \<noteq> '''' \<and> (case Atoi v of None \<Rightarrow> True | Some n \<Rightarrow> n < 0)"
  by (simp add: queryOffset_def split: option.split)

lemma queryCursor_Inl:
  "(\<exists>text. queryCursor v off = Inl text) \<longleftrightarrow> v \<noteq> '''' \<and> (off \<noteq> '''' \<or> isl (decodeCursor v))"
  by (simp add: queryCursor_def split: sum.split)

lemma bad_request_iff:
  "bad_request rq \<longleftrightarrow> queryTime (rqStart rq) = None \<or> queryTime (rqEnd rq) = None \<or>
     queryLimit maxRows (rqLimit rq) = None \<or> queryOffset (rqOffset rq) = None \<or>
     (\<exists>text. queryCursor (rqCursor rq) (rqOffset rq) = Inl text)"
  unfolding bad_request_def queryTime_None queryLimit_None queryOffset_None queryCursor_Inl ..

lemma queryLimit_bounds: "queryLimit maxRows v = Some limit \<Longrightarrow> 0 < maxRows \<Longrightarrow> 0 < limit \<and> limit \<le> maxRows"
  by (auto simp: queryLimit_def split: if_splits option.splits)

lemma queryOffset_nonneg: "queryOffset v = Some offset \<Longrightarrow> 0 \<le> offset"
  by (auto simp: queryOffset_def split: if_splits option.splits)

lemma parse_params:
  assumes "\<not> bad_request rq" "0 < maxRows"
  obtains start stop limit offset cursor where
    "queryTime (rqStart rq) = Some start" "queryTime (rqEnd rq) = Some stop" "queryLimit maxRows (rqLimit rq) = Some limit"
    "queryOffset (rqOffset rq) = Some offset" "queryCursor (rqCursor rq) (rqOffset rq) = Inr cursor"
    "0 < limit" "limit \<le> maxRows" "0 \<le> offset"
proof -
  have ok: "queryTime (rqStart rq) \<noteq> None" "queryTime (rqEnd rq) \<noteq> None" "queryLimit maxRows (rqLimit rq) \<noteq> None"
    "queryOffset (rqOffset rq) \<noteq> None" "\<nexists>text. queryCursor (rqCursor rq) (rqOffset rq) = Inl text"
    using assms(1) unfolding bad_request_iff [of rq maxRows] by simp_all
  from ok(5) obtain cursor where "queryCursor (rqCursor rq) (rqOffset rq) = Inr cursor"
    by (cases "queryCursor (rqCursor rq) (rqOffset rq)") simp_all
  with ok(1-4) show thesis using that queryLimit_bounds [OF _ assms(2)] queryOffset_nonneg by (metis option.exhaust)
qed

lemma bad_request_400:
  assumes "bad_request rq"
  shows "\<exists>text. GetTelemetry coll loc pool maxRows rq = writeError 400 text \<and>
    GetTelemetry coll loc None maxRows rq = writeError 400 text"
  using assms unfolding bad_request_iff [of rq maxRows] GetTelemetry_def
  by (cases "queryTime (rqStart rq)"; cases "queryTime (rqEnd rq)"; cases "queryLimit maxRows (rqLimit rq)";
      cases "queryOffset (rqOffset rq)") auto

lemma writeError_simps [simp]:
  "rsStatus (writeError st text) = st" "rsBody (writeError st text) = ErrorResponse text"
  "rsStatus (writeJSON st b) = st" "rsBody (writeJSON st b) = b" "rsContentType (writeJSON st b) = ''application/json''"
  "rsContentType (writeError st text) = ''application/json''"
  by (simp_all add: writeError_def writeJSON_def)

lemma page_response_status [simp]: "rsStatus (page_response loc limit offset tot ms) = 200"
  by (simp add: page_response_def Let_def)

text \<open>
  A read of \<open>n\<close> rows meets a failure of the connection: the query itself, a row it scans, or the end of the rows.
  A statement that returns a single row fails on any failure.
\<close>

definition read_hit :: "db_net \<Rightarrow> nat \<Rightarrow> bool" where
  "read_hit net n \<longleftrightarrow> (case net of NetOk \<Rightarrow> False | NetQuery e \<Rightarrow> True | NetScan j e \<Rightarrow> j < n | NetRows j e \<Rightarrow> True)"

lemma rows_read:
  assumes "0 \<le> limit" "0 \<le> offset"
  shows "isl (case limit_query net limit offset xs of Inl e \<Rightarrow> Inl (ReadError text e) | Inr rows \<Rightarrow> scanMetrics rows) \<longleftrightarrow>
    read_hit net (length (take (nat limit) (drop (nat offset) xs)))"
proof (cases net)
  case (NetScan j e)
  define ys where "ys = take (nat limit) (drop (nat offset) xs)"
  have "scan_loop [] ((map Inr ys)[j := Inl e]) None = Inr ys" if "\<not> j < length ys"
    using that scan_loop_eq [of "[]" ys None] by (simp add: list_update_beyond)
  with assms NetScan scan_loop_fails [of j ys "[]" e] show ?thesis
    by (cases "j < length ys") (simp_all add: limit_query_def pool_Query_def scanMetrics_def read_hit_def flip: ys_def)
qed (use assms in \<open>simp_all add: limit_query_def pool_Query_def scanMetrics_def read_hit_def scan_loop_eq\<close>)

text \<open>The number of rows that the page query of a request returns from a table, the sentinel included.\<close>

definition page_rows :: "(string \<Rightarrow> string \<Rightarrow> bool) \<Rightarrow> int \<Rightarrow> TelemetryRequest \<Rightarrow> metric_row list \<Rightarrow> nat" where
  "page_rows coll maxRows rq t =
     (let rows = window_rows t (rqId rq) (the (queryTime (rqStart rq))) (the (queryTime (rqEnd rq)));
          n = nat (the (queryLimit maxRows (rqLimit rq))) + 1
      in case queryCursor (rqCursor rq) (rqOffset rq) of
           Inr (Some c) \<Rightarrow> min n (length (filter (row_before coll (pg_timestamp (curTS c)) (curMetric c)) rows))
         | _ \<Rightarrow> min n (length rows - nat (the (queryOffset (rqOffset rq)))))"

lemma Telemetry_isl:
  "0 \<le> limit \<Longrightarrow> 0 \<le> offset \<Longrightarrow> isl (Telemetry coll net t gid start stop limit offset) \<longleftrightarrow>
     read_hit net (min (nat limit) (length (window_rows t gid start stop) - nat offset))"
  by (simp add: Telemetry_def Let_def rows_read window_rows_def min.commute)

lemma TelemetryAfter_isl:
  "0 \<le> limit \<Longrightarrow> isl (TelemetryAfter coll net t gid start stop ts mn limit) \<longleftrightarrow>
     read_hit net (min (nat limit) (length (filter (row_before coll (pg_timestamp ts) mn) (window_rows t gid start stop))))"
  by (simp add: TelemetryAfter_def rows_read window_rows_def min.commute conj_assoc)

lemma single_row_isl:
  "isl (GPUExists net t gid) \<longleftrightarrow> net \<noteq> NetOk" "isl (TelemetryCount net t gid start stop) \<longleftrightarrow> net \<noteq> NetOk"
  by (cases net; simp add: GPUExists_def TelemetryCount_def pool_QueryRow_def Let_def)+

lemma fetch_page_status:
  assumes "0 < limit" "limit < 2 ^ 63 - 1" "0 \<le> offset"
    "n = (case cursor of
       Some c \<Rightarrow> min (nat limit + 1) (length (filter (row_before coll (pg_timestamp (curTS c)) (curMetric c)) (window_rows (snd (db 2)) gid start stop)))
     | None \<Rightarrow> min (nat limit + 1) (length (window_rows (snd (db 2)) gid start stop) - nat offset))"
  shows "if read_hit (fst (db 2)) n
    then fetch_page coll loc db gid start stop limit offset cursor tot = writeError 500 ''failed to fetch telemetry''
    else rsStatus (fetch_page coll loc db gid start stop limit offset cursor tot) = 200"
proof -
  have w: "wrap64 (limit + 1) = limit + 1" "nat (limit + 1) = nat limit + 1" using assms(1,2) by simp_all
  define ms where "ms = (case cursor of
      Some c \<Rightarrow> TelemetryAfter coll (fst (db 2)) (snd (db 2)) gid start stop (curTS c) (curMetric c) (limit + 1)
    | None \<Rightarrow> Telemetry coll (fst (db 2)) (snd (db 2)) gid start stop (limit + 1) offset)"
  have "isl ms \<longleftrightarrow> read_hit (fst (db 2)) n"
    using assms w(2) by (cases cursor) (simp_all add: ms_def Telemetry_isl TelemetryAfter_isl)
  moreover have "fetch_page coll loc db gid start stop limit offset cursor tot =
      (case ms of Inl err \<Rightarrow> writeError 500 ''failed to fetch telemetry'' | Inr rows \<Rightarrow> page_response loc limit offset tot rows)"
    by (cases cursor) (simp_all add: fetch_page_def ms_def w(1) split_beta)
  ultimately show ?thesis by (cases ms) auto
qed

text \<open>C35. Status codes: a request with a malformed time, limit, offset or cursor, or with both a cursor and an
  offset, is answered 400 whatever the database is, even without one; any other request is answered 500
  without a database. With one, whatever fails and however the table changes between the statements: a failing
  existence check is a 500; an unknown GPU is a 404; a failing count (asked for in offset mode only) is a 500; a page query that fails at the query, at a row or at the end of its
  rows is a 500; and everything else is a 200. (The row limit is below the largest \<open>int64\<close>.)\<close>

theorem telemetry_status_codes:
  assumes "0 < maxRows" "maxRows < 2 ^ 63 - 1"
  shows "if bad_request rq then
      \<exists>text. GetTelemetry coll loc pool maxRows rq = writeError 400 text \<and>
        GetTelemetry coll loc None maxRows rq = writeError 400 text
    else
      GetTelemetry coll loc None maxRows rq = writeError 500 ''database not available'' \<and>
      (if fst (db 0) \<noteq> NetOk then GetTelemetry coll loc (Some db) maxRows rq = writeError 500 ''failed to check GPU''
       else if rqId rq \<notin> c_gpu_id ` set (snd (db 0)) then
         GetTelemetry coll loc (Some db) maxRows rq = writeError 404 ''GPU not found''
       else if rqCursor rq = '''' \<and> fst (db 1) \<noteq> NetOk then
         GetTelemetry coll loc (Some db) maxRows rq = writeError 500 ''failed to count telemetry''
       else if read_hit (fst (db 2)) (page_rows coll maxRows rq (snd (db 2))) then
         GetTelemetry coll loc (Some db) maxRows rq = writeError 500 ''failed to fetch telemetry''
       else rsStatus (GetTelemetry coll loc (Some db) maxRows rq) = 200)"
proof (cases "bad_request rq")
  case True
  then show ?thesis using bad_request_400 [of rq] by simp
next
  case False
  from parse_params [OF False assms(1)] obtain start stop limit offset cursor where
    p: "queryTime (rqStart rq) = Some start" "queryTime (rqEnd rq) = Some stop" "queryLimit maxRows (rqLimit rq) = Some limit"
    "queryOffset (rqOffset rq) = Some offset" "queryCursor (rqCursor rq) (rqOffset rq) = Inr cursor"
    "0 < limit" "limit \<le> maxRows" "0 \<le> offset" .
  have cur: "rqCursor rq = '''' \<longleftrightarrow> cursor = None"
    using p(5) by (auto simp: queryCursor_def split: if_splits sum.splits)
  have get: "GetTelemetry coll loc (Some db) maxRows rq = query_telemetry coll loc db (rqId rq) start stop limit offset cursor"
    using p(1-5) by (simp add: GetTelemetry_def)
  have "limit < 2 ^ 63 - 1" using p(7) assms(2) by simp
  note page = fetch_page_status [OF p(6) this p(8), where n = "page_rows coll maxRows rq (snd (db 2))" and cursor = cursor and
      coll = coll and db = db and gid = "rqId rq" and start = start and stop = stop and loc = loc]
  have rows: "page_rows coll maxRows rq (snd (db 2)) = (case cursor of
       Some c \<Rightarrow> min (nat limit + 1) (length (filter (row_before coll (pg_timestamp (curTS c)) (curMetric c)) (window_rows (snd (db 2)) (rqId rq) start stop)))
     | None \<Rightarrow> min (nat limit + 1) (length (window_rows (snd (db 2)) (rqId rq) start stop) - nat offset))"
    using p(1-5) by (simp add: page_rows_def split: option.split)
  have exists: "GPUExists (fst (db 0)) (snd (db 0)) (rqId rq) = Inr (rqId rq \<in> c_gpu_id ` set (snd (db 0)))" if "fst (db 0) = NetOk"
    using that by (simp add: GPUExists_def pool_QueryRow_def)
  have "GetTelemetry coll loc None maxRows rq = writeError 500 ''database not available''"
    using p(1-5) by (simp add: GetTelemetry_def)
  moreover have "GetTelemetry coll loc (Some db) maxRows rq = writeError 500 ''failed to check GPU''" if "fst (db 0) \<noteq> NetOk"
    using that single_row_isl(1) [of "fst (db 0)" "snd (db 0)" "rqId rq"] unfolding get
    by (cases "GPUExists (fst (db 0)) (snd (db 0)) (rqId rq)") (simp_all add: query_telemetry_def)
  moreover have "GetTelemetry coll loc (Some db) maxRows rq = writeError 500 ''failed to count telemetry''"
    if "fst (db 0) = NetOk" "rqId rq \<in> c_gpu_id ` set (snd (db 0))" "cursor = None" "fst (db 1) \<noteq> NetOk"
    using that single_row_isl(2) [of "fst (db 1)" "snd (db 1)" "rqId rq" start stop] exists unfolding get
    by (cases "TelemetryCount (fst (db 1)) (snd (db 1)) (rqId rq) start stop") (simp_all add: query_telemetry_def)
  moreover have "\<exists>tot. GetTelemetry coll loc (Some db) maxRows rq = fetch_page coll loc db (rqId rq) start stop limit offset cursor tot"
    if "fst (db 0) = NetOk" "rqId rq \<in> c_gpu_id ` set (snd (db 0))" "\<not> (cursor = None \<and> fst (db 1) \<noteq> NetOk)"
    using that single_row_isl(2) [of "fst (db 1)" "snd (db 1)" "rqId rq" start stop] exists unfolding get
    by (cases cursor; cases "TelemetryCount (fst (db 1)) (snd (db 1)) (rqId rq) start stop") (auto simp: query_telemetry_def)
  moreover have "GetTelemetry coll loc (Some db) maxRows rq = writeError 404 ''GPU not found''"
    if "fst (db 0) = NetOk" "rqId rq \<notin> c_gpu_id ` set (snd (db 0))"
    using that exists unfolding get by (simp add: query_telemetry_def)
  ultimately show ?thesis using False page [OF rows] unfolding cur by (auto split: if_splits)
qed


text \<open>A client that follows the cursors: each request is the first one with the cursor of the page before.\<close>

fun walk :: "nat \<Rightarrow> (string \<Rightarrow> gateway_body http_response) \<Rightarrow> string \<Rightarrow> GpuMetricResponse list list option" where
  "walk 0 get cur = None"
| "walk (Suc n) get cur =
     (case rsBody (get cur) of
        PageBody pg \<Rightarrow>
          if pmHasNext (tpPagination pg)
          then map_option (\<lambda>pages. tpData pg # pages) (walk n get (pmNextCursor (tpPagination pg)))
          else Some [tpData pg]
      | _ \<Rightarrow> None)"

fun chunks :: "nat \<Rightarrow> nat \<Rightarrow> 'a list \<Rightarrow> 'a list list" where
  "chunks 0 k xs = []"
| "chunks (Suc n) k xs = (if k < length xs then take k xs # chunks n k (drop k xs) else [xs])"

lemma concat_chunks: "0 < k \<Longrightarrow> length xs < n \<Longrightarrow> concat (chunks n k xs) = xs"
proof (induction n arbitrary: xs)
  case (Suc n)
  then have "concat (chunks n k (drop k xs)) = drop k xs" if "k < length xs" using that by (intro Suc.IH) auto
  then show ?case by auto
qed simp

definition good_cursors :: "location \<Rightarrow> metric_row list \<Rightarrow> bool" where
  "good_cursors loc t \<longleftrightarrow> (\<forall>r \<in> set t. c_timestamp r \<noteq> zeroTime \<and> c_metric_name r \<noteq> '''' \<and>
     printable_cursor loc \<lparr>curTS = c_timestamp r, curMetric = c_metric_name r\<rparr>)"

definition row_cursor :: "metric_row \<Rightarrow> telemetryCursor" where
  "row_cursor r = \<lparr>curTS = c_timestamp r, curMetric = c_metric_name r\<rparr>"

text \<open>One request of the walk, for the rows after position \<open>i\<close>.\<close>

lemma walk_page:
  assumes coll: "collation coll" and wf: "table_wf t" and good: "good_cursors loc t"
    and max: "0 < maxRows" "maxRows < 2 ^ 63 - 1"
    and params: "queryTime (rqStart rq) = Some start" "queryTime (rqEnd rq) = Some stop"
      "queryLimit maxRows (rqLimit rq) = Some limit" "rqOffset rq = ''''" "rqId rq \<in> c_gpu_id ` set t"
    and L: "L = result_rows coll t (rqId rq) start stop"
    and i: "i \<le> length L" and cur: "cur = (if i = 0 then '''' else encodeCursor loc (row_cursor (L ! (i - 1))))"
  obtains pg where "rsBody (GetTelemetry coll loc (Some (steady t)) maxRows (rq\<lparr>rqCursor := cur\<rparr>)) = PageBody pg"
    "tpData pg = map (toResponse \<circ> cols) (take (nat limit) (drop i L))"
    "pmHasNext (tpPagination pg) \<longleftrightarrow> nat limit < length (drop i L)"
    "nat limit < length (drop i L) \<Longrightarrow> pmNextCursor (tpPagination pg) = encodeCursor loc (row_cursor (L ! (i + nat limit - 1)))"
proof -
  let ?ms = "map cols L"
  have lim: "0 < limit" "limit < 2 ^ 63 - 1" using max params(3) by (auto simp: queryLimit_def split: if_splits option.splits)
  have "\<exists>tot offset. GetTelemetry coll loc (Some (steady t)) maxRows (rq\<lparr>rqCursor := cur\<rparr>) =
      page_response loc limit offset tot (take (nat limit + 1) (drop i ?ms))"
  proof (cases "i = 0")
    case True
    then have "GetTelemetry coll loc (Some (steady t)) maxRows (rq\<lparr>rqCursor := cur\<rparr>) =
        page_response loc limit 0 (Some (int (length ?ms))) (take (nat limit + 1) (drop i ?ms))"
      using params lim cur L by (simp add: GetTelemetry_def queryOffset_def queryCursor_def query_steady fetch_offset)
    then show ?thesis by blast
  next
    case False
    let ?r = "L ! (i - 1)"
    have len: "i - 1 < length L" using False i by simp
    then have "?r \<in> set t" unfolding L result_rows_def window_rows_def
      by (metis filter_is_subset nth_mem set_sort_by subset_iff)
    with good have c: "decodeCursor cur = Inr (row_cursor ?r)" "cur \<noteq> ''''"
      using cursor_survives [of loc "row_cursor ?r"] False cur by (auto simp: good_cursors_def row_cursor_def)
    then have "GetTelemetry coll loc (Some (steady t)) maxRows (rq\<lparr>rqCursor := cur\<rparr>) =
        fetch_page coll loc (steady t) (rqId rq) start stop limit 0 (Some (row_cursor ?r)) None"
      using params by (simp add: GetTelemetry_def queryOffset_def queryCursor_def query_steady)
    also have "\<dots> = page_response loc limit 0 None (take (nat limit + 1) (drop i ?ms))"
      using fetch_cursor [OF coll wf lim, of "i - 1"] len False L by (simp add: row_cursor_def)
    finally show ?thesis by blast
  qed
  then obtain tot offset where resp: "GetTelemetry coll loc (Some (steady t)) maxRows (rq\<lparr>rqCursor := cur\<rparr>) =
      page_response loc limit offset tot (take (nat limit + 1) (drop i ?ms))" by blast
  have "drop i ?ms ! (nat limit - 1) = cols (L ! (i + nat limit - 1))" if "nat limit < length (drop i L)"
    using that lim(1) by (simp add: nth_drop)
  then show thesis using that resp page_response_eq [OF lim(1) refl, of loc offset tot "drop i ?ms"]
    by (simp add: take_map drop_map row_cursor_def cols_def Let_def)
qed

text \<open>The walk from any of its cursors.\<close>

lemma walk_from:
  assumes page: "collation coll" "table_wf t" "good_cursors loc t" "0 < maxRows" "maxRows < 2 ^ 63 - 1"
    "queryTime (rqStart rq) = Some start" "queryTime (rqEnd rq) = Some stop"
    "queryLimit maxRows (rqLimit rq) = Some limit" "rqOffset rq = ''''" "rqId rq \<in> c_gpu_id ` set t"
    and L: "L = result_rows coll t (rqId rq) start stop"
    and get: "get = (\<lambda>cur. GetTelemetry coll loc (Some (steady t)) maxRows (rq\<lparr>rqCursor := cur\<rparr>))"
    and i: "i \<le> length L" "length L - i < n"
  shows "walk n get (if i = 0 then '''' else encodeCursor loc (row_cursor (L ! (i - 1)))) =
    Some (chunks n (nat limit) (drop i (map (toResponse \<circ> cols) L)))"
  using i
proof (induction n arbitrary: i)
  case (Suc n)
  have lim: "0 < nat limit" using page(4,8) by (auto simp: queryLimit_def split: if_splits option.splits)
  from walk_page [OF page L Suc.prems(1) refl] obtain pg where pg:
    "rsBody (get (if i = 0 then '''' else encodeCursor loc (row_cursor (L ! (i - 1))))) = PageBody pg"
    "tpData pg = map (toResponse \<circ> cols) (take (nat limit) (drop i L))"
    "pmHasNext (tpPagination pg) \<longleftrightarrow> nat limit < length (drop i L)"
    "nat limit < length (drop i L) \<Longrightarrow> pmNextCursor (tpPagination pg) = encodeCursor loc (row_cursor (L ! (i + nat limit - 1)))"
    unfolding get by metis
  show ?case
  proof (cases "nat limit < length (drop i L)")
    case True
    from Suc.IH [of "i + nat limit"] True Suc.prems lim
    have "walk n get (encodeCursor loc (row_cursor (L ! (i + nat limit - 1)))) =
        Some (chunks n (nat limit) (drop (i + nat limit) (map (toResponse \<circ> cols) L)))"
      by (simp add: comp_def)
    with pg True show ?thesis by (simp add: take_map drop_map add.commute comp_def)
  next
    case False
    with pg show ?thesis by (simp add: drop_map comp_def)
  qed
qed simp

lemma walk_start:
  assumes "collation coll" "table_wf t" "good_cursors loc t" "0 < maxRows" "maxRows < 2 ^ 63 - 1"
    "queryTime (rqStart rq) = Some start" "queryTime (rqEnd rq) = Some stop"
    "queryLimit maxRows (rqLimit rq) = Some limit" "rqOffset rq = ''''" "rqId rq \<in> c_gpu_id ` set t"
    "rows = map (toResponse \<circ> cols) (result_rows coll t (rqId rq) start stop)"
    "get = (\<lambda>cur. GetTelemetry coll loc (Some (steady t)) maxRows (rq\<lparr>rqCursor := cur\<rparr>))" "length rows < n"
  shows "walk n get '''' = Some (chunks n (nat limit) rows)" "concat (chunks n (nat limit) rows) = rows"
proof -
  from walk_from [OF assms(1-10) refl assms(12), of 0 n] assms(11,13) show "walk n get '''' = Some (chunks n (nat limit) rows)"
    by simp
  have "0 < nat limit" using assms(4,8) by (auto simp: queryLimit_def split: if_splits option.splits)
  with assms(13) show "concat (chunks n (nat limit) rows) = rows" by (intro concat_chunks)
qed


text \<open>C36. Cursors survive the round trip: a cursor the gateway issued is read back as the same position, except that
  the position of a row with an empty metric name (or the zero instant) is issued and then refused.\<close>

theorem cursor_roundtrip:
  assumes "printable_cursor loc c"
  shows "decodeCursor (encodeCursor loc c) =
    (if curTS c = zeroTime \<or> curMetric c = '''' then Inl PayloadIncomplete else Inr c)"
  by (rule cursor_json_roundtrip [OF assms]) (simp add: decodeCursor_def encodeCursor_def)

text \<open>Listing GPUs: without a database or on any failed round trip the answer is 500; otherwise it is the ids
  that have rows, each once, in ascending order.\<close>

lemma list_gpus_exact:
  assumes "collation coll"
  shows "ListGPUs coll None = writeError 500 ''database not available'' \<and>
    (ListGPUs coll (Some db) = writeError 500 ''failed to query GPU IDs'' \<or>
     (\<exists>ids. ListGPUs coll (Some db) = writeJSON 200 (IdsBody ids) \<and> distinct ids \<and> sorted_wrt coll ids \<and>
        set ids = c_gpu_id ` set (snd (db 0)))) \<and>
    rsStatus (ListGPUs coll (Some (steady t))) = 200"
proof -
  let ?ids = "sort_by coll (remdups (map c_gpu_id (snd (db 0))))"
  have "sorted_wrt coll ?ids"
    using collation.coll_total [OF assms] collation.coll_trans [OF assms] by (rule sorted_sort_by)
  moreover have "distinct ?ids" by (metis distinct_remdups mset_eq_imp_distinct_iff mset_sort_by)
  moreover have "set ?ids = c_gpu_id ` set (snd (db 0))" by simp
  moreover have "ids = ?ids" if "DistinctGPUIDs coll (fst (db 0)) (snd (db 0)) = Inr ids" for ids
    using that by (rule DistinctGPUIDs_complete)
  ultimately show ?thesis
    by (cases "DistinctGPUIDs coll (fst (db 0)) (snd (db 0))")
      (auto simp: ListGPUs_def steady_def DistinctGPUIDs_def pool_Query_def scanIds_eq)
qed

text \<open>With the largest setting of \<open>VANTAGE_GATEWAY_MAX_ROWS\<close> the sentinel row wraps the limit to a negative number,
  which the database refuses.\<close>

lemma max_rows_wraps:
  assumes "rqId rq \<in> c_gpu_id ` set t" "queryTime (rqStart rq) = Some start" "queryTime (rqEnd rq) = Some stop"
    "rqLimit rq = ''''" "queryOffset (rqOffset rq) = Some offset" "rqCursor rq = ''''"
  shows "GetTelemetry coll loc (Some (steady t)) (2 ^ 63 - 1) rq = writeError 500 ''failed to fetch telemetry''"
proof -
  have w: "wrap64 (2 ^ 63 - 1 + 1) < 0" by (simp add: wrap64_def)
  have off: "0 \<le> offset" using assms(5) by (rule queryOffset_nonneg)
  have "Telemetry coll NetOk t (rqId rq) start stop (wrap64 (2 ^ 63 - 1 + 1)) offset =
      Inl (ReadError ''db: Telemetry: query'' (PgError ''2201W'' ''LIMIT must not be negative''))"
    using w off by (simp add: Telemetry_def limit_query_def Let_def)
  then show ?thesis using assms
    by (auto simp: GetTelemetry_def queryLimit_def queryCursor_def query_telemetry_def steady_def GPUExists_def pool_QueryRow_def
        TelemetryCount_def Let_def fetch_page_def)
qed

section \<open>A walk\<close>

text \<open>A process two hours east of Greenwich.\<close>

definition demo_loc :: location where
  "demo_loc = (\<lambda>t. 7200)"

definition demo_request :: TelemetryRequest where
  "demo_request = \<lparr>rqId = ''g'', rqStart = '''', rqEnd = '''', rqLimit = ''2'', rqOffset = '''', rqCursor = ''''\<rparr>"

lemma good_demo: "good_cursors demo_loc demo_table"
  by code_simp

lemma demo_params: "queryTime (rqStart demo_request) = Some None" "queryTime (rqEnd demo_request) = Some None"
  "queryLimit 100 (rqLimit demo_request) = Some 2" "queryOffset (rqOffset demo_request) = Some 0"
  "rqOffset demo_request = ''''" "rqCursor demo_request = ''''"
  by code_simp+

lemma demo_known: "rqId demo_request \<in> c_gpu_id ` set demo_table"
  by code_simp


text \<open>The same request on a table that is well, and when the connection breaks after the first row of the page.\<close>

theorem telemetry_status_codes_witness:
  "rsStatus (GetTelemetry bytes_le demo_loc (Some (steady demo_table)) 100 demo_request) = 200 \<and>
   GetTelemetry bytes_le demo_loc (Some (\<lambda>k. (if k = 2 then NetRows 1 (ConnError ''reset'') else NetOk, demo_table))) 100 demo_request =
     writeError 500 ''failed to fetch telemetry'' \<and>
   rsStatus (GetTelemetry bytes_le demo_loc (Some (steady demo_table)) 100 (demo_request\<lparr>rqLimit := ''0''\<rparr>)) = 400"
proof (intro conjI)
  let ?broken = "\<lambda>k :: nat. (if k = 2 then NetRows 1 (ConnError ''reset'') else NetOk, demo_table)"
  have ok: "\<not> bad_request demo_request" by code_simp
  then show "rsStatus (GetTelemetry bytes_le demo_loc (Some (steady demo_table)) 100 demo_request) = 200"
    using telemetry_status_codes [of 100 demo_request bytes_le demo_loc None "steady demo_table"] demo_known
    by (simp add: steady_def read_hit_def)
  show "GetTelemetry bytes_le demo_loc (Some ?broken) 100 demo_request = writeError 500 ''failed to fetch telemetry''"
    using ok telemetry_status_codes [of 100 demo_request bytes_le demo_loc None ?broken] demo_known
    by (simp add: read_hit_def)
  have "bad_request (demo_request\<lparr>rqLimit := ''0''\<rparr>)" by code_simp
  then show "rsStatus (GetTelemetry bytes_le demo_loc (Some (steady demo_table)) 100 (demo_request\<lparr>rqLimit := ''0''\<rparr>)) = 400"
    using telemetry_status_codes [of 100 "demo_request\<lparr>rqLimit := ''0''\<rparr>" bytes_le demo_loc "Some (steady demo_table)"] by auto
qed


theorem cursor_roundtrip_witness:
  "decodeCursor (encodeCursor demo_loc \<lparr>curTS = 1000, curMetric = ''b''\<rparr>) = Inr \<lparr>curTS = 1000, curMetric = ''b''\<rparr> \<and>
   decodeCursor (encodeCursor demo_loc \<lparr>curTS = 1000, curMetric = ''''\<rparr>) = Inl PayloadIncomplete"
proof -
  have "printable_cursor demo_loc \<lparr>curTS = 1000, curMetric = ''b''\<rparr>" "printable_cursor demo_loc \<lparr>curTS = 1000, curMetric = ''''\<rparr>"
    "(1000 :: int) \<noteq> zeroTime" by code_simp+
  then show ?thesis using cursor_roundtrip by simp
qed

end
