(* ===== verification/Serving.thy ===== *)
theory Serving
  imports Provenance Gateway
begin

text \<open>
  The whole system: what a client of the gateway reads, against what the producers had admitted. The writing side
  is a run of \<open>pipeline_run\<close> from an empty database; the reading side is a client that follows the cursors of
  \<open>GetTelemetry\<close> over the table that run leaves.
\<close>

lemma toResponse_row: "toResponse (cols (insert_row g)) = (toResponse g)\<lparr>rTimestamp := pg_timestamp (Timestamp g)\<rparr>"
  by (simp add: toResponse_def cols_def insert_row_def COALESCE_def)

definition response_key :: "GpuMetricResponse \<Rightarrow> string \<times> string \<times> gotime" where
  "response_key r = (rGpuID r, rMetricName r, rTimestamp r)"

lemma response_key_row: "response_key (toResponse (cols r)) = natural_key r"
  by (simp add: response_key_def toResponse_def cols_def natural_key_def)

lemma set_result_rows: "set (result_rows coll t gid start stop) = {r \<in> set t. c_gpu_id r = gid \<and> in_window start stop r}"
  by (auto simp: result_rows_def window_rows_def)

lemma result_rows_keys: "table_wf t \<Longrightarrow> distinct (map natural_key (result_rows coll t gid start stop))"
proof -
  assume "table_wf t"
  then have "distinct (map natural_key (window_rows t gid start stop))"
    by (auto simp: table_wf_def unique_keys_def window_rows_def distinct_map_filter)
  then show ?thesis unfolding result_rows_def by (metis mset_eq_imp_distinct_iff mset_map mset_sort_by)
qed

lemma in_window_key: "natural_key r = natural_key r' \<Longrightarrow> in_window start stop r = in_window start stop r'"
  by (simp add: natural_key_def in_window_def cong: option.case_cong)


section \<open>The demonstration pipeline, read back\<close>

definition demo_serving_request :: TelemetryRequest where
  "demo_serving_request = demo_request\<lparr>rqId := ''GPU-5fd4f087''\<rparr>"


end
