(* ===== verification/Db_Setup.thy ===== *)
theory Db_Setup
  imports Env_Config Telemetry_Db
begin

text \<open>
  Opening and migrating the database (\<open>pkg/db/db.go\<close>). The pgx pool and \<open>golang-migrate\<close> are arguments: what
  they answer is a text for an error, or success.
\<close>

datatype setup_error =
    ParseConfigErr string | CreatePoolErr string | PingErr string | SourceErr string | MigrateInitErr string | MigrateUpErr string

record PoolConfig =
  pcMaxConns :: int
  pcHealthCheckPeriod :: duration

text \<open>The pool that \<open>New\<close> returns, or its error with whether a pool it had opened was closed again.\<close>

definition db_New ::
  "(string \<Rightarrow> string + PoolConfig) \<Rightarrow> (PoolConfig \<Rightarrow> string + 'p) \<Rightarrow> ('p \<Rightarrow> string option) \<Rightarrow> DbConfig \<Rightarrow>
   (setup_error \<times> 'p option) + 'p" where
  "db_New ParseConfig NewWithConfig Ping dcfg =
     (case ParseConfig (dcDSN dcfg) of
        Inl err \<Rightarrow> Inl (ParseConfigErr err, None)
      | Inr poolCfg \<Rightarrow>
          let poolCfg = (if dcMaxConns dcfg > 0 then poolCfg\<lparr>pcMaxConns := dcMaxConns dcfg\<rparr> else poolCfg);
              poolCfg = poolCfg\<lparr>pcHealthCheckPeriod := 30 * Second\<rparr>
          in (case NewWithConfig poolCfg of
                Inl err \<Rightarrow> Inl (CreatePoolErr err, None)
              | Inr pool \<Rightarrow>
                  (case Ping pool of
                     Some err \<Rightarrow> Inl (PingErr err, Some pool)
                   | None \<Rightarrow> Inr pool)))"

definition HasPrefix :: "string \<Rightarrow> string \<Rightarrow> bool" where
  "HasPrefix s p \<longleftrightarrow> take (length p) s = p"

definition postgres_scheme :: string where
  "postgres_scheme = ''postgres:'' @ [CHR 0x2F, CHR 0x2F]"

definition postgresql_scheme :: string where
  "postgresql_scheme = ''postgresql:'' @ [CHR 0x2F, CHR 0x2F]"

definition pgx5_scheme :: string where
  "pgx5_scheme = ''pgx5:'' @ [CHR 0x2F, CHR 0x2F]"

definition pgx5DSN :: "string \<Rightarrow> string" where
  "pgx5DSN dsn =
     (if HasPrefix dsn postgres_scheme then pgx5_scheme @ drop (length postgres_scheme) dsn
      else if HasPrefix dsn postgresql_scheme then pgx5_scheme @ drop (length postgresql_scheme) dsn
      else dsn)"

text \<open>The outcome of \<open>m.Up()\<close>; nothing to apply is no failure.\<close>

datatype up_result = UpOk | ErrNoChange | UpErr string

definition Migrate :: "string option \<Rightarrow> (string \<Rightarrow> string + 'm) \<Rightarrow> ('m \<Rightarrow> up_result) \<Rightarrow> string \<Rightarrow> setup_error option" where
  "Migrate iofsErr NewWithSourceInstance Up dsn =
     (case iofsErr of
        Some err \<Rightarrow> Some (SourceErr err)
      | None \<Rightarrow>
          (case NewWithSourceInstance (pgx5DSN dsn) of
             Inl err \<Rightarrow> Some (MigrateInitErr err)
           | Inr m \<Rightarrow> (case Up m of UpErr err \<Rightarrow> Some (MigrateUpErr err) | UpOk \<Rightarrow> None | ErrNoChange \<Rightarrow> None)))"

lemma schemes_disjoint: "HasPrefix dsn postgresql_scheme \<Longrightarrow> \<not> HasPrefix dsn postgres_scheme"
proof
  assume p: "HasPrefix dsn postgresql_scheme" "HasPrefix dsn postgres_scheme"
  have "dsn ! 8 = postgresql_scheme ! 8" "dsn ! 8 = postgres_scheme ! 8"
    using arg_cong [OF p(1) [unfolded HasPrefix_def], of "\<lambda>s. s ! 8"] arg_cong [OF p(2) [unfolded HasPrefix_def], of "\<lambda>s. s ! 8"]
    by (simp_all add: postgres_scheme_def postgresql_scheme_def)
  then show False by (simp add: postgres_scheme_def postgresql_scheme_def)
qed

text \<open>Both spellings of the scheme lead to the same migration source, and rewriting twice changes nothing more.\<close>

lemma pgx5DSN_rewrites:
  "pgx5DSN (postgres_scheme @ rest) = pgx5_scheme @ rest" "pgx5DSN (postgresql_scheme @ rest) = pgx5_scheme @ rest"
  "pgx5DSN (pgx5DSN dsn) = pgx5DSN dsn"
proof -
  show "pgx5DSN (postgres_scheme @ rest) = pgx5_scheme @ rest" by (simp add: pgx5DSN_def HasPrefix_def)
  have "HasPrefix (postgresql_scheme @ rest) postgresql_scheme" by (simp add: HasPrefix_def)
  with schemes_disjoint show "pgx5DSN (postgresql_scheme @ rest) = pgx5_scheme @ rest" by (auto simp: pgx5DSN_def)
  have "pgx5DSN (pgx5_scheme @ t) = pgx5_scheme @ t" for t
    by (simp add: pgx5DSN_def HasPrefix_def pgx5_scheme_def postgres_scheme_def postgresql_scheme_def)
  then show "pgx5DSN (pgx5DSN dsn) = pgx5DSN dsn" by (simp add: pgx5DSN_def)
qed

text \<open>A pool that answers the ping is returned open with the configured limit; one that does not is closed.\<close>

lemma db_New_ok:
  assumes "db_New ParseConfig NewWithConfig Ping dcfg = Inr pool"
  obtains poolCfg where "NewWithConfig poolCfg = Inr pool" "Ping pool = None" "pcHealthCheckPeriod poolCfg = 30 * Second"
    "dcMaxConns dcfg > 0 \<longrightarrow> pcMaxConns poolCfg = dcMaxConns dcfg"
proof -
  from assms obtain p0 where p0: "ParseConfig (dcDSN dcfg) = Inr p0" by (auto simp: db_New_def split: sum.splits)
  define pc where "pc = (if dcMaxConns dcfg > 0 then p0\<lparr>pcMaxConns := dcMaxConns dcfg\<rparr> else p0)\<lparr>pcHealthCheckPeriod := 30 * Second\<rparr>"
  from assms p0 have "NewWithConfig pc = Inr pool" "Ping pool = None"
    by (auto simp: db_New_def Let_def pc_def split: sum.splits option.splits)
  with that [of pc] show thesis by (simp add: pc_def)
qed

end
