(* ===== verification/Go_Mux.thy ===== *)
theory Go_Mux
  imports Go_Json
begin

text \<open>
  Request routing by \<open>http.ServeMux\<close> of Go's standard library, for patterns of a method and a literal path,
  the only ones the services register. A request is its method and its escaped path. The path is cleaned first
  and an unclean one redirected; segments are compared after unescaping; \<open>GET\<close> patterns also serve \<open>HEAD\<close>;
  a known path with a foreign method answers 405 with the methods it has.
\<close>

section \<open>Paths\<close>

definition slash :: char where "slash = CHR 0x2F"

fun segments :: "string \<Rightarrow> string \<Rightarrow> string list" where
  "segments cur [] = [rev cur]"
| "segments cur (c # s) = (if c = slash then rev cur # segments [] s else segments (c # cur) s)"

fun join_segments :: "string list \<Rightarrow> string" where
  "join_segments [] = []"
| "join_segments (g # gs) = slash # g @ join_segments gs"

text \<open>\<open>path.Clean\<close> of a rooted path, over its segments: empty ones and \<open>.\<close> vanish, \<open>..\<close> takes one back.\<close>

fun clean_segments :: "string list \<Rightarrow> string list \<Rightarrow> string list" where
  "clean_segments out [] = rev out"
| "clean_segments out (g # gs) =
     (if g = [] \<or> g = ''.'' then clean_segments out gs
      else if g = ''..'' then clean_segments (tl out) gs
      else clean_segments (g # out) gs)"

definition path_Clean :: "string \<Rightarrow> string" where
  "path_Clean p = (let gs = clean_segments [] (segments [] (tl p)) in if gs = [] then [slash] else join_segments gs)"

definition cleanPath :: "string \<Rightarrow> string" where
  "cleanPath p =
     (if p = [] then [slash]
      else
        let p = (if hd p \<noteq> slash then slash # p else p); np = path_Clean p in
        if last p = slash \<and> np \<noteq> [slash] then np @ [slash] else np)"

definition is_hex :: "char \<Rightarrow> bool" where
  "is_hex c \<longleftrightarrow> c \<in> set ''0123456789abcdefABCDEF''"

fun PathUnescape :: "string \<Rightarrow> string option" where
  "PathUnescape [] = Some []"
| "PathUnescape (c # s) =
     (if c = CHR 0x25 then
        (case s of
           a # b # s' \<Rightarrow>
             if is_hex a \<and> is_hex b then map_option (Cons (char_of (hex_val a * 16 + hex_val b))) (PathUnescape s') else None
         | _ \<Rightarrow> None)
      else map_option (Cons c) (PathUnescape s))"

definition pathUnescape :: "string \<Rightarrow> string" where
  "pathUnescape g = (case PathUnescape g of Some g \<Rightarrow> g | None \<Rightarrow> g)"

definition path_matches :: "string \<Rightarrow> string \<Rightarrow> bool" where
  "path_matches pat p \<longleftrightarrow> map pathUnescape (segments [] (tl p)) = segments [] (tl pat)"

section \<open>Routing\<close>

record HttpRequest =
  hrMethod :: string
  hrPath :: string
  hrQuery :: "string \<Rightarrow> string"

datatype 'h mux_result = MuxHandler 'h | MovedPermanently string | MethodNotAllowed "string list" | PageNotFound

type_synonym 'h routes = "(string \<times> string \<times> 'h) list"

definition method_matches :: "string \<Rightarrow> string \<Rightarrow> bool" where
  "method_matches pat m \<longleftrightarrow> m = pat \<or> m = ''HEAD'' \<and> pat = ''GET''"

text \<open>\<open>matchingMethods\<close>: what the \<open>Allow\<close> header names, in order.\<close>

definition allowed_methods :: "'h routes \<Rightarrow> string \<Rightarrow> string list" where
  "allowed_methods rs p =
     (let ms = map fst (filter (\<lambda>(m, pat, h). path_matches pat p) rs) in
      filter (\<lambda>m. m \<in> set ms \<or> m = ''HEAD'' \<and> ''GET'' \<in> set ms)
        [''CONNECT'', ''DELETE'', ''GET'', ''HEAD'', ''OPTIONS'', ''PATCH'', ''POST'', ''PUT'', ''TRACE''])"

definition mux_Handler :: "'h routes \<Rightarrow> HttpRequest \<Rightarrow> 'h mux_result" where
  "mux_Handler rs rq =
     (let p = (if hrMethod rq = ''CONNECT'' then hrPath rq else cleanPath (hrPath rq)) in
      if p \<noteq> hrPath rq then MovedPermanently p
      else
        (case find (\<lambda>(m, pat, h). method_matches m (hrMethod rq) \<and> path_matches pat p) rs of
           Some (m, pat, h) \<Rightarrow> MuxHandler h
         | None \<Rightarrow>
             let allow = allowed_methods rs p in
             if allow \<noteq> [] then MethodNotAllowed allow else PageNotFound))"

lemma segments_join:
  assumes "\<forall>g \<in> set gs. slash \<notin> set g" "gs \<noteq> []"
  shows "segments [] (tl (join_segments gs)) = gs"
proof -
  have cur: "segments cur (g @ slash # s) = rev (rev g @ cur) # segments [] s" if "slash \<notin> set g" for cur g s
    using that by (induction g arbitrary: cur) auto
  have end_cur: "segments cur g = [rev (rev g @ cur)]" if "slash \<notin> set g" for cur g
    using that by (induction g arbitrary: cur) auto
  have "segments [] (g @ join_segments gs) = g # gs" if "slash \<notin> set g" "\<forall>g \<in> set gs. slash \<notin> set g" for g gs
    using that by (induction gs arbitrary: g) (auto simp: cur end_cur)
  with assms show ?thesis by (cases gs) auto
qed

lemma segments_free: "slash \<notin> set cur \<Longrightarrow> g \<in> set (segments cur s) \<Longrightarrow> slash \<notin> set g"
proof (induction s arbitrary: cur)
  case (Cons c s)
  then show ?case using Cons.IH [of "[]"] Cons.IH [of "c # cur"] by (auto split: if_splits)
qed simp

lemma clean_segments_plain:
  "(\<forall>g \<in> set gs. g \<noteq> [] \<and> g \<noteq> ''.'' \<and> g \<noteq> ''..'') \<Longrightarrow> clean_segments out gs = rev out @ gs"
  by (induction gs arbitrary: out) auto

lemma clean_segments_snoc: "clean_segments out (gs @ [[]]) = clean_segments out gs"
  by (induction gs arbitrary: out) auto

lemma clean_segments_set:
  "g \<in> set (clean_segments out gs) \<Longrightarrow> g \<in> set out \<or> g \<in> set gs \<and> g \<noteq> [] \<and> g \<noteq> ''.'' \<and> g \<noteq> ''..''"
proof (induction gs arbitrary: out)
  case (Cons a gs)
  then show ?case using Cons.IH [of out] Cons.IH [of "tl out"] Cons.IH [of "a # out"]
    by (auto split: if_splits dest: in_set_tlD)
qed simp

lemma join_segments_snoc: "join_segments (gs @ [g]) = join_segments gs @ slash # g"
  by (induction gs) auto

lemma path_Clean_cases:
  obtains "path_Clean p = [slash]"
  | gs where "gs \<noteq> []" "path_Clean p = join_segments gs" "\<forall>g \<in> set gs. slash \<notin> set g"
      "\<forall>g \<in> set gs. g \<noteq> [] \<and> g \<noteq> ''.'' \<and> g \<noteq> ''..''"
proof (cases "clean_segments [] (segments [] (tl p)) = []")
  case True
  then show ?thesis by (intro that(1)) (simp add: path_Clean_def)
next
  case False
  show ?thesis
  proof (rule that(2) [OF False])
    show "path_Clean p = join_segments (clean_segments [] (segments [] (tl p)))" using False by (simp add: path_Clean_def)
  qed (use clean_segments_set [of _ "[]" "segments [] (tl p)"] segments_free [of "[]" _ "tl p"] in auto)
qed

text \<open>A cleaned path is clean: a redirect leads to a path that is not redirected again.\<close>

lemma cleanPath_idem: "cleanPath (cleanPath p) = cleanPath p"
proof (cases "p = []")
  case True
  then show ?thesis by (simp add: cleanPath_def path_Clean_def)
next
  case False
  define q where "q = (if hd p \<noteq> slash then slash # p else p)"
  have cp: "cleanPath p = (if last q = slash \<and> path_Clean q \<noteq> [slash] then path_Clean q @ [slash] else path_Clean q)"
    using False by (simp add: cleanPath_def q_def Let_def)
  show ?thesis
  proof (cases rule: path_Clean_cases [of q])
    case 1
    with cp show ?thesis by (simp add: cleanPath_def path_Clean_def)
  next
    case (2 gs)
    then have sg: "segments [] (tl (join_segments gs)) = gs" "segments [] (tl (join_segments (gs @ [[]]))) = gs @ [[]]"
      by (auto intro!: segments_join)
    have cl: "clean_segments [] gs = gs" "clean_segments [] (gs @ [[]]) = gs"
      using 2(4) clean_segments_plain [of gs "[]"]
      by (simp_all add: clean_segments_snoc)
    have pc: "path_Clean (join_segments gs) = join_segments gs" "path_Clean (join_segments gs @ [slash]) = join_segments gs"
      using 2(1) sg cl by (simp_all add: path_Clean_def join_segments_snoc)
    have hl: "hd (join_segments gs) = slash" "join_segments gs \<noteq> []" using 2(1) by (cases gs; simp)+
    have nl: "last (join_segments gs) \<noteq> slash"
    proof (cases gs rule: rev_cases)
      case (snoc ys y)
      then have y: "y \<noteq> []" "slash \<notin> set y" using 2(3,4) by auto
      then have "last y \<noteq> slash" using last_in_set by metis
      with snoc y show ?thesis by (simp add: join_segments_snoc)
    qed (use 2(1) in simp)
    have nr: "join_segments gs \<noteq> [slash]" using nl by auto
    show ?thesis using cp 2(2) pc hl nl nr by (auto simp: cleanPath_def Let_def)
  qed
qed

end
