(* ===== verification/Services.thy ===== *)
theory Services
  imports Mq_Http Gateway Db_Setup Collector_Stream Streamer Go_Mux
begin

text \<open>
  The processes around the components (\<open>cmd/mq\<close>, \<open>cmd/collector\<close>, \<open>cmd/gateway\<close>, \<open>cmd/streamer\<close>,
  \<open>cmd/migrate\<close>): the order of their startup, the routes of their HTTP servers, the teardown of the queue and
  the exit codes. The group of goroutines (\<open>errgroup\<close>) is an argument \<open>Wait\<close> from what the goroutines returned, in the
  order they did, to what \<open>g.Wait()\<close> returns. The gateway's routes are a table; matching them is the chi router's.
\<close>

section \<open>The control plane of the queue\<close>

datatype mq_route = RouteInspect | RouteDLQ | RouteReplay | RouteHealthz | RouteReadyz | RouteMetrics

definition mq_routes :: "mq_route routes" where
  "mq_routes = [
     (''GET'', ''/api/v1/queue/inspect'', RouteInspect),
     (''GET'', ''/api/v1/queue/dlq'', RouteDLQ),
     (''POST'', ''/api/v1/queue/dlq/replay'', RouteReplay),
     (''GET'', ''/healthz'', RouteHealthz),
     (''GET'', ''/readyz'', RouteReadyz),
     (''GET'', ''/metrics'', RouteMetrics)]"

datatype mq_reply =
    InspectReply "InspectResponse http_response"
  | DLQReply "(string + DLQResponse) http_response"
  | ReplayReply "DLQReplayResponse http_response"
  | TextReply "string http_response"
  | MetricsReply "metric list"
  | MuxReply "mq_route mux_result"

definition mq_handler :: "mq_route \<Rightarrow> HttpRequest \<Rightarrow> MQServer \<Rightarrow> (mq_reply \<times> MQServer) option" where
  "mq_handler h rq s =
     (case h of
        RouteInspect \<Rightarrow> Some (InspectReply (InspectHandler s), s)
      | RouteDLQ \<Rightarrow> map_option (\<lambda>r. (DLQReply r, s)) (DLQHandler (hrQuery rq ''limit'') s)
      | RouteReplay \<Rightarrow> map_option (\<lambda>(r, s). (ReplayReply r, s)) (DLQReplayHandler s)
      | RouteHealthz \<Rightarrow> Some (TextReply HealthzHandler, s)
      | RouteReadyz \<Rightarrow> Some (TextReply (ReadyzHandler s), s)
      | RouteMetrics \<Rightarrow> Some (MetricsReply (mqCollector_Collect s), s))"

definition mq_ServeHTTP :: "HttpRequest \<Rightarrow> MQServer \<Rightarrow> (mq_reply \<times> MQServer) option" where
  "mq_ServeHTTP rq s =
     (case mux_Handler mq_routes rq of
        MuxHandler h \<Rightarrow> mq_handler h rq s
      | r \<Rightarrow> Some (MuxReply r, s))"

section \<open>Teardown of the queue\<close>

text \<open>
  What the coordinating goroutine of \<open>cmd/mq\<close> does after the signal, in order, and what each action does to
  the server. The drain sees the events \<open>evs\<close>; \<open>graceful\<close> says whether \<open>GracefulStop\<close> was done within five seconds.
\<close>

datatype teardown = TBeginDrain | TDrained drain_end | TShutdown | TGracefulStop | TStop | THttpShutdown

definition mq_teardown :: "drain_event list \<Rightarrow> bool \<Rightarrow> teardown list" where
  "mq_teardown evs graceful =
     TBeginDrain #
     (case main_drain evs of
        StillDraining \<Rightarrow> []
      | d \<Rightarrow> [TDrained d, TShutdown, TGracefulStop] @ (if graceful then [] else [TStop]) @ [THttpShutdown])"

fun teardown_action :: "teardown \<Rightarrow> MQServer \<Rightarrow> MQServer" where
  "teardown_action TBeginDrain s = BeginDrain s"
| "teardown_action TShutdown s = Shutdown s"
| "teardown_action _ s = s"

section \<open>Startup\<close>

text \<open>The steps of a startup in order, and the exit code or the opened pool; \<open>None\<close> in the last component is an exit with 1.\<close>

datatype startup = SReadConfig | SReadDbConfig | SMigrate | SOpenPool

record 'p backend =
  beMigrate :: "string \<Rightarrow> setup_error option"
  beNew :: "DbConfig \<Rightarrow> (setup_error \<times> 'p option) + 'p"

definition open_database :: "'p backend \<Rightarrow> DbConfig \<Rightarrow> startup list \<times> 'p option" where
  "open_database be d =
     (case beMigrate be (dcDSN d) of
        Some err \<Rightarrow> ([SMigrate], None)
      | None \<Rightarrow>
          (case beNew be d of
             Inl err \<Rightarrow> ([SMigrate, SOpenPool], None)
           | Inr pool \<Rightarrow> ([SMigrate, SOpenPool], Some pool)))"

definition collector_main :: "'p backend \<Rightarrow> env \<Rightarrow> startup list \<times> (CollectorConfig \<times> 'p) option" where
  "collector_main be getenv =
     (let ccfg = collector_FromEnv getenv in
      case db_FromEnv getenv of
        Inl err \<Rightarrow> ([SReadConfig, SReadDbConfig], None)
      | Inr d \<Rightarrow>
          let (steps, pool) = open_database be d
          in ([SReadConfig, SReadDbConfig] @ steps, map_option (Pair ccfg) pool))"

definition gateway_main :: "'p backend \<Rightarrow> env \<Rightarrow> startup list \<times> (GatewayConfig \<times> 'p) option" where
  "gateway_main be getenv =
     (case gateway_FromEnv getenv of
        Inl err \<Rightarrow> ([SReadConfig], None)
      | Inr gcfg \<Rightarrow>
     (case db_FromEnv getenv of
        Inl err \<Rightarrow> ([SReadConfig, SReadDbConfig], None)
      | Inr d \<Rightarrow>
          let (steps, pool) = open_database be d
          in ([SReadConfig, SReadDbConfig] @ steps, map_option (Pair gcfg) pool)))"

datatype migrate_error = MigrateConfig config_error | ApplyMigrations setup_error

definition migrate_run :: "'p backend \<Rightarrow> env \<Rightarrow> migrate_error option" where
  "migrate_run be getenv =
     (case db_FromEnv getenv of
        Inl err \<Rightarrow> Some (MigrateConfig err)
      | Inr d \<Rightarrow> map_option ApplyMigrations (beMigrate be (dcDSN d)))"

definition migrate_main :: "'p backend \<Rightarrow> env \<Rightarrow> nat" where
  "migrate_main be getenv = (case migrate_run be getenv of Some err \<Rightarrow> 1 | None \<Rightarrow> 0)"

section \<open>Probes of collector and streamer\<close>

datatype probe_route = ProbeMetrics | ProbeHealthz | ProbeReadyz

datatype probe_reply = ProbeText "string http_response" | ProbeMetricsPage | ProbeMux "probe_route mux_result"

definition probe_readyz :: "bool \<Rightarrow> string http_response" where
  "probe_readyz ready =
     (if \<not> ready
      then \<lparr>rsStatus = 503, rsContentType = ''application/json'', rsBody = ''{\"status\":\"not_ready\"}''\<rparr>
      else json_ok ''{\"status\":\"ok\"}'')"

definition collector_ServeHTTP :: "bool \<Rightarrow> HttpRequest \<Rightarrow> probe_reply" where
  "collector_ServeHTTP ready rq =
     (case mux_Handler [(''GET'', ''/metrics'', ProbeMetrics), (''GET'', ''/healthz'', ProbeHealthz),
          (''GET'', ''/readyz'', ProbeReadyz)] rq of
        MuxHandler ProbeMetrics \<Rightarrow> ProbeMetricsPage
      | MuxHandler ProbeHealthz \<Rightarrow> ProbeText (json_ok ''{\"status\":\"ok\"}'')
      | MuxHandler ProbeReadyz \<Rightarrow> ProbeText (probe_readyz ready)
      | r \<Rightarrow> ProbeMux r)"

definition streamer_ServeHTTP :: "bool \<Rightarrow> HttpRequest \<Rightarrow> probe_reply" where
  "streamer_ServeHTTP ready rq =
     (case mux_Handler [(''GET'', ''/metrics'', ProbeMetrics), (''GET'', ''/healthz'', ProbeHealthz),
          (''GET'', ''/readyz'', ProbeReadyz)] rq of
        MuxHandler ProbeMetrics \<Rightarrow> ProbeMetricsPage
      | MuxHandler ProbeHealthz \<Rightarrow> ProbeText (json_ok ''{\"status\":\"ok\"}'')
      | MuxHandler ProbeReadyz \<Rightarrow> ProbeText (probe_readyz ready)
      | r \<Rightarrow> ProbeMux r)"

section \<open>The routes of the gateway\<close>

datatype gateway_route = GwHealthz | GwReadyz | GwMetrics | GwListGPUs | GwTelemetry | GwSwagger

definition NewRouter :: "gateway_route routes" where
  "NewRouter = [
     (''GET'', ''/healthz'', GwHealthz),
     (''GET'', ''/readyz'', GwReadyz),
     (''GET'', ''/metrics'', GwMetrics),
     (''GET'', ''/api/v1/gpus/'', GwListGPUs),
     (''GET'', ''/api/v1/gpus/{id}/telemetry'', GwTelemetry),
     (''GET'', ''/swagger/*'', GwSwagger)]"

text \<open>The handler of each route; the pages of Prometheus and Swagger are the libraries'.\<close>

definition gateway_handler ::
  "(string \<Rightarrow> string \<Rightarrow> bool) \<Rightarrow> location \<Rightarrow> gateway_pool option \<Rightarrow> db_error option option \<Rightarrow> GatewayConfig \<Rightarrow>
   gateway_route \<Rightarrow> TelemetryRequest \<Rightarrow> gateway_body http_response option" where
  "gateway_handler coll loc pool ping gcfg h rq =
     (case h of
        GwHealthz \<Rightarrow> Some gw_HealthzHandler
      | GwReadyz \<Rightarrow> Some (gw_ReadyzHandler ping)
      | GwMetrics \<Rightarrow> None
      | GwListGPUs \<Rightarrow> Some (ListGPUs coll pool)
      | GwTelemetry \<Rightarrow> Some (GetTelemetry coll loc pool (gcMaxRows gcfg) rq)
      | GwSwagger \<Rightarrow> None)"

text \<open>The labels of the request histogram; \<open>pattern\<close> is the pattern the chi router matched, empty for none.\<close>

definition MetricsMiddleware :: "string \<Rightarrow> string \<Rightarrow> nat \<Rightarrow> string list" where
  "MetricsMiddleware pattern m st =
     [if pattern = '''' then ''unmatched'' else pattern, m, Itoa (int st)]"

section \<open>Exit codes\<close>

datatype group_error = ErrServerClosed | ContextCanceled | OtherErr string

text \<open>The goroutine of a probe server returns \<open>nil\<close> when it was shut down, else what \<open>ListenAndServe\<close> returned.\<close>

definition health_goroutine :: "group_error \<Rightarrow> group_error option" where
  "health_goroutine err = (if err \<noteq> ErrServerClosed then Some err else None)"

text \<open>What the goroutine of the streamer's runner returns, if it does.\<close>

fun stream_goroutine :: "Streamer.stream_ret \<Rightarrow> group_error option option" where
  "stream_goroutine (Returned RetNil) = Some None"
| "stream_goroutine (Returned RetCtxErr) = Some (Some ContextCanceled)"
| "stream_goroutine (Returned _) = None"
| "stream_goroutine OpenCsvErr = Some (Some (OtherErr ''streamer: open csv''))"
| "stream_goroutine SeekErr = Some (Some (OtherErr ''streamer: seek''))"
| "stream_goroutine HeaderErr = Some (Some (OtherErr ''streamer: read header''))"
| "stream_goroutine CSVPathRequired = Some (Some (OtherErr ''streamer: CSVPath is required (set STREAMER_CSV_PATH)''))"
| "stream_goroutine DialErr = Some (Some (OtherErr ''streamer: dial''))"

definition collector_exit :: "group_error option \<Rightarrow> nat" where
  "collector_exit err = (if err \<noteq> None \<and> err \<noteq> Some ContextCanceled \<and> err \<noteq> Some ErrServerClosed then 1 else 0)"

definition streamer_exit :: "group_error option \<Rightarrow> nat" where
  "streamer_exit err = (if err \<noteq> None \<and> err \<noteq> Some ContextCanceled \<and> err \<noteq> Some ErrServerClosed then 1 else 0)"

definition gateway_exit :: "group_error option \<Rightarrow> nat" where
  "gateway_exit err = (if err \<noteq> None \<and> err \<noteq> Some ErrServerClosed then 1 else 0)"

definition mq_exit :: "group_error option \<Rightarrow> nat" where
  "mq_exit err = (if err \<noteq> None \<and> err \<noteq> Some ErrServerClosed then 1 else 0)"

section \<open>Properties\<close>

lemma mux_Handler_clean:
  "mux_Handler rs rq = MuxHandler h \<Longrightarrow> \<exists>m pat. (m, pat, h) \<in> set rs \<and> method_matches m (hrMethod rq) \<and>
     path_matches pat (hrPath rq) \<and> (hrMethod rq = ''CONNECT'' \<or> cleanPath (hrPath rq) = hrPath rq)"
  by (auto simp: mux_Handler_def Let_def find_Some_iff in_set_conv_nth split: if_splits option.splits) metis+

lemma only_replay_posts:
  assumes "mux_Handler mq_routes rq = MuxHandler RouteReplay"
  shows "hrMethod rq = ''POST'' \<and> path_matches ''/api/v1/queue/dlq/replay'' (hrPath rq) \<and> cleanPath (hrPath rq) = hrPath rq"
  using mux_Handler_clean [OF assms] by (auto simp: mq_routes_def method_matches_def)

lemma DLQHandler_total: "broker_inv (store s) \<Longrightarrow> \<exists>r. DLQHandler q s = Some r"
  by (auto simp: DLQHandler_def server_DLQList_def DLQList_ok Let_def split: option.splits)

text \<open>C25. The control plane is safe to call: whatever the request, it is answered without a panic, no
  message is lost or duplicated, and the broker stays well-formed. Only a \<open>POST\<close> to the replay path, spelled
  cleanly, changes the server at all; every other request, with any method, only reads it.\<close>

theorem control_plane_safe:
  assumes "broker_inv (store s)"
  shows "\<exists>r s'. mq_ServeHTTP rq s = Some (r, s') \<and> broker_inv (store s') \<and> all_ids (store s') = all_ids (store s) \<and>
    (s' = s \<or> hrMethod rq = ''POST'' \<and> path_matches ''/api/v1/queue/dlq/replay'' (hrPath rq) \<and>
       cleanPath (hrPath rq) = hrPath rq)"
proof (cases "mux_Handler mq_routes rq = MuxHandler RouteReplay")
  case True
  from DLQReplay_ok [OF assms] obtain b' where b': "DLQReplay (store s) = Some (replay_count (store s), b')"
    "broker_inv b'" "all_ids b' = all_ids (store s)" by metis
  define s' where "s' = (if replay_count (store s) > 0 then NotifyAll (s\<lparr>store := b'\<rparr>) else s\<lparr>store := b'\<rparr>)"
  have s': "store s' = b'" by (simp add: s'_def NotifyAll_def)
  have "server_DLQReplay s = Some (replay_count (store s), s')"
    using b'(1) by (simp add: server_DLQReplay_def s'_def)
  then obtain r where "DLQReplayHandler s = Some (r, s')" by (simp add: DLQReplayHandler_def)
  with True b' s' only_replay_posts [OF True] show ?thesis by (simp add: mq_ServeHTTP_def mq_handler_def)
next
  case False
  then have "\<exists>r. mq_ServeHTTP rq s = Some (r, s)"
    using DLQHandler_total [OF assms, of "hrQuery rq ''limit''"]
    by (auto simp: mq_ServeHTTP_def mq_handler_def split: mux_result.splits mq_route.splits)
  with assms show ?thesis by auto
qed

definition demo_http :: "string \<Rightarrow> string \<Rightarrow> HttpRequest" where
  "demo_http m p = \<lparr>hrMethod = m, hrPath = p, hrQuery = (\<lambda>_. [])\<rparr>"

theorem control_plane_safe_witness:
  "let s = NewMQServer (snd demo_dead) 0; rq = demo_http ''POST'' ''/api/v1/queue/dlq/replay'' in
   rcount (dlq (store s)) = 1 \<and>
   (\<exists>r s'. mq_ServeHTTP rq s = Some (r, s') \<and> broker_inv (store s') \<and> all_ids (store s') = all_ids (store s) \<and>
      rcount (dlq (store s')) = 0)"
proof -
  let ?s = "NewMQServer (snd demo_dead) 0" and ?rq = "demo_http ''POST'' ''/api/v1/queue/dlq/replay''"
  have inv: "broker_inv (store ?s)" using run_inv [OF demo_dead_run] by (simp add: NewMQServer_def SetNotify_def)
  have "rcount (dlq (store ?s)) = 1" by code_simp
  moreover have "map_option (\<lambda>(r, s'). rcount (dlq (store s'))) (mq_ServeHTTP ?rq ?s) = Some 0" by code_simp
  ultimately show ?thesis using control_plane_safe [OF inv, of ?rq] by (auto simp: Let_def)
qed

lemma mq_routing_examples:
  "mux_Handler mq_routes (demo_http ''HEAD'' ''/healthz'') = MuxHandler RouteHealthz"
  "mux_Handler mq_routes (demo_http ''GET'' ''/health%7a'') = MuxHandler RouteHealthz"
  "mux_Handler mq_routes (demo_http ''GET'' ''/api/./v1/queue/dlq/replay/..'') = MovedPermanently ''/api/v1/queue/dlq''"
  "mux_Handler mq_routes (demo_http ''GET'' ''/api/v1/queue/dlq/replay'') = MethodNotAllowed [''POST'']"
  "mux_Handler mq_routes (demo_http ''POST'' ''/api/v1/queue/dlq'') = MethodNotAllowed [''GET'', ''HEAD'']"
  "mux_Handler mq_routes (demo_http ''GET'' ''/readyz/'') = PageNotFound"
  by code_simp+

text \<open>The teardown ends once the drain deadline fires, leaves the server refusing produce and waking every
  stream, and forces the gRPC server to stop exactly when it did not stop by itself.\<close>

lemma teardown_ends:
  "\<exists>d. mq_teardown (evs @ DrainDeadline # rest) graceful =
     [TBeginDrain, TDrained d, TShutdown, TGracefulStop] @ (if graceful then [] else [TStop]) @ [THttpShutdown] \<and>
     d \<noteq> StillDraining"
  using drain_deadline_ends [of evs rest] by (auto simp: mq_teardown_def split: drain_end.splits)

lemma teardown_shuts_down:
  assumes "main_drain evs \<noteq> StillDraining" "s' = fold teardown_action (mq_teardown evs graceful) s"
  shows "IsShuttingDown s'" "shutdownCh s'" "store s' = store s"
  using assms by (auto simp: mq_teardown_def Shutdown_def BeginDrain_def IsShuttingDown_def split: drain_end.splits)

text \<open>No service opens its pool before its migrations succeeded, and it goes on exactly when every step did.\<close>

lemma gateway_startup:
  "gateway_main be getenv = (steps, r) \<Longrightarrow>
     (\<exists>rest. steps @ rest = [SReadConfig, SReadDbConfig, SMigrate, SOpenPool]) \<and>
     (r \<noteq> None \<longrightarrow> (\<exists>gcfg d pool. gateway_FromEnv getenv = Inr gcfg \<and> db_FromEnv getenv = Inr d \<and>
        beMigrate be (dcDSN d) = None \<and> beNew be d = Inr pool \<and> r = Some (gcfg, pool)))"
  by (auto simp: gateway_main_def open_database_def Let_def split: sum.splits option.splits prod.splits)

lemma collector_startup:
  "collector_main be getenv = (steps, r) \<Longrightarrow>
     (\<exists>rest. steps @ rest = [SReadConfig, SReadDbConfig, SMigrate, SOpenPool]) \<and>
     (r \<noteq> None \<longrightarrow> (\<exists>d pool. db_FromEnv getenv = Inr d \<and> beMigrate be (dcDSN d) = None \<and> beNew be d = Inr pool \<and>
        r = Some (collector_FromEnv getenv, pool)))"
  by (auto simp: collector_main_def open_database_def Let_def split: sum.splits option.splits prod.splits)

text \<open>What \<open>errgroup\<close> documents of \<open>Wait\<close>: the first error that is not nil.\<close>

definition first_error :: "group_error option list \<Rightarrow> group_error option" where
  "first_error rs = (case filter (\<lambda>r. r \<noteq> None) rs of [] \<Rightarrow> None | r # _ \<Rightarrow> r)"

lemma clean_stop_exits_0:
  assumes "\<And>rs. Wait rs = first_error rs" "mset rs = {#Some ContextCanceled, health_goroutine ErrServerClosed, None#}"
  shows "collector_exit (Wait rs) = 0" "streamer_exit (Wait rs) = 0"
proof -
  have "filter (\<lambda>r. r \<noteq> None) rs = [Some ContextCanceled]"
  proof -
    have "mset (filter (\<lambda>r. r \<noteq> None) rs) = {#Some ContextCanceled#}" using assms(2) by (simp add: health_goroutine_def)
    then show ?thesis by (metis mset_single_iff_right)
  qed
  then show "collector_exit (Wait rs) = 0" "streamer_exit (Wait rs) = 0"
    by (simp_all add: assms(1) first_error_def collector_exit_def streamer_exit_def)
qed

text \<open>A streamer without a file exits with 1.\<close>

lemma missing_csv_exits_1:
  assumes "\<And>rs. Wait rs = first_error rs" "scCSVPath scfg = ''''"
    "streamer_Run pf clock scfg dialErr openErr ps st = (ready, out, st')" "stream_goroutine out = Some r"
  shows "\<not> ready \<and> streamer_exit (Wait (r # rs)) = 1"
  using assms(2-) by (auto simp: assms(1) streamer_Run_def first_error_def streamer_exit_def)

text \<open>\<open>ListenAndServe\<close> returns as soon as \<open>Shutdown\<close> begins, so the error of a \<open>Shutdown\<close> that ran into its deadline
  comes second and is dropped.\<close>

lemma shutdown_error_is_dropped:
  assumes "\<And>rs. Wait rs = first_error rs"
  shows "gateway_exit (Wait [Some ErrServerClosed, Some (OtherErr e)]) = 0"
  by (simp add: assms first_error_def gateway_exit_def)

end
