(* ===== verification/Mq_Probe.thy ===== *)
theory Mq_Probe
  imports MQ_Server
begin

text \<open>
  The client of the smoke checks (\<open>scripts/smoke/mqprobe/main.go\<close>). A call of the queue is an argument from
  the message and the state of the other side to the status code, \<open>None\<close> for success, and its new state; what a
  stream receives is a list, with the error that ends it, and \<open>send\<close> is the error of each send, if any. A function that needs
  more than the stream has received is still waiting, \<open>None\<close>. The last section runs the probe for backpressure against the queue itself.
\<close>

section \<open>Messages\<close>

text \<open>\<open>float64(i)\<close> of a natural number below \<open>2 ^ 63\<close>, rounded to nearest, ties to even, as a bit pattern.\<close>

fun bit_width :: "nat \<Rightarrow> nat" where
  "bit_width n = (if n = 0 then 0 else Suc (bit_width (n div 2)))"

declare bit_width.simps [simp del]

definition float64_of :: "nat \<Rightarrow> float64" where
  "float64_of n =
     (if n = 0 then 0
      else
        let e = bit_width n - 1;
            m = (if e \<le> 52 then int n * 2 ^ (52 - e)
                 else
                   let u = 2 ^ (e - 52); q = int n div u; r = int n mod u in
                   if 2 * r > u \<or> 2 * r = u \<and> odd q then q + 1 else q)
        in word_of_int ((1023 + int e) * 2 ^ 52 + (m - 2 ^ 52)))"

definition smoke_message :: "string \<Rightarrow> gotime \<Rightarrow> nat \<Rightarrow> TelemetryMessage" where
  "smoke_message prefix t i = \<lparr>
     pbTimestamp = Format_RFC3339Nano t, pbMetricName = ''DCGM_FI_DEV_GPU_UTIL'', pbGpuId = ''0'', pbDevice = [],
     pbUuid = prefix @ appendInt 4 i, pbModelName = [], pbHostname = [], pbContainer = [], pbPod = [], pbNamespace = [],
     pbValue = float64_of i, pbLabelsRaw = [], pbId = 0, pbDeliveryAttempts = 0\<rparr>"

text \<open>\<open>make\<close> panics on a negative length.\<close>

definition batchMsgs :: "(nat \<Rightarrow> gotime) \<Rightarrow> int \<Rightarrow> TelemetryMessage list option" where
  "batchMsgs clock n =
     (if n < 0 then None else Some (map (\<lambda>i. smoke_message ''GPU-smoke-batch-'' (clock i) i) [0..<nat n]))"

section \<open>Producing\<close>

datatype probe_error =
    ProduceErr nat code
  | UnexpectedCode nat code
  | AllAccepted int
  | OpenStreamErr string
  | SendCreditErr string
  | RecvErr nat string
  | EmptyMetricName nat
  | AckErr uint64 nat string
  | HoldTimedOut
  | ConsumeTimedOut
  | BatchErr code
  | UnknownMode string
  | ProbeDialErr string

fun produce_loop ::
  "(nat \<Rightarrow> gotime) \<Rightarrow> (TelemetryMessage \<Rightarrow> 's \<Rightarrow> code option \<times> 's) \<Rightarrow> nat \<Rightarrow> nat \<Rightarrow> 's \<Rightarrow> probe_error option \<times> 's" where
  "produce_loop clock call i 0 s = (None, s)"
| "produce_loop clock call i (Suc k) s =
     (case call (smoke_message ''GPU-smoke-'' (clock i) i) s of
        (Some c, s) \<Rightarrow> (Some (ProduceErr (Suc i) c), s)
      | (None, s) \<Rightarrow> produce_loop clock call (Suc i) k s)"

definition probe_produce ::
  "(nat \<Rightarrow> gotime) \<Rightarrow> (TelemetryMessage \<Rightarrow> 's \<Rightarrow> code option \<times> 's) \<Rightarrow> int \<Rightarrow> 's \<Rightarrow> probe_error option \<times> 's" where
  "probe_produce clock call n s = produce_loop clock call 0 (nat n) s"

fun expect_reject_loop ::
  "(nat \<Rightarrow> gotime) \<Rightarrow> (TelemetryMessage \<Rightarrow> 's \<Rightarrow> code option \<times> 's) \<Rightarrow> int \<Rightarrow> nat \<Rightarrow> nat \<Rightarrow> 's \<Rightarrow> (int \<times> probe_error option) \<times> 's" where
  "expect_reject_loop clock call n i 0 s = ((n, Some (AllAccepted n)), s)"
| "expect_reject_loop clock call n i (Suc k) s =
     (case call (smoke_message ''GPU-smoke-rej-'' (clock i) i) s of
        (None, s) \<Rightarrow> expect_reject_loop clock call n (Suc i) k s
      | (Some c, s) \<Rightarrow>
          if c = ResourceExhausted \<or> c = Unavailable then ((int i, None), s)
          else ((int i, Some (UnexpectedCode (Suc i) c)), s))"

definition produceExpectReject ::
  "(nat \<Rightarrow> gotime) \<Rightarrow> (TelemetryMessage \<Rightarrow> 's \<Rightarrow> code option \<times> 's) \<Rightarrow> int \<Rightarrow> 's \<Rightarrow> (int \<times> probe_error option) \<times> 's" where
  "produceExpectReject clock call n s = expect_reject_loop clock call n 0 (nat n) s"

section \<open>Consuming\<close>

text \<open>A stream to the queue: what is still to be received, what was sent.\<close>

record ProbeStream =
  psRecv :: "(string + TelemetryMessage) list"
  psSent :: "(int + uint64) list"

definition probe_send :: "(nat \<Rightarrow> string option) \<Rightarrow> int + uint64 \<Rightarrow> ProbeStream \<Rightarrow> string option \<times> ProbeStream" where
  "probe_send send x ps =
     (case send (length (psSent ps)) of
        Some err \<Rightarrow> (Some err, ps)
      | None \<Rightarrow> (None, ps\<lparr>psSent := psSent ps @ [x]\<rparr>))"

definition openConsume ::
  "string option \<Rightarrow> (nat \<Rightarrow> string option) \<Rightarrow> (string + TelemetryMessage) list \<Rightarrow> int \<Rightarrow> probe_error + ProbeStream" where
  "openConsume openErr send recv credit =
     (case openErr of
        Some err \<Rightarrow> Inl (OpenStreamErr err)
      | None \<Rightarrow>
          (case probe_send send (Inl (sint (word_of_int credit :: uint32))) \<lparr>psRecv = recv, psSent = []\<rparr> of
             (Some err, ps) \<Rightarrow> Inl (SendCreditErr err)
           | (None, ps) \<Rightarrow> Inr ps))"

fun recv_loop :: "(nat \<Rightarrow> string option) \<Rightarrow> bool \<Rightarrow> nat \<Rightarrow> nat \<Rightarrow> ProbeStream \<Rightarrow> ((nat \<times> probe_error option) \<times> ProbeStream) option" where
  "recv_loop send ack got 0 ps = Some ((got, None), ps)"
| "recv_loop send ack got (Suc k) ps =
     (case psRecv ps of
        [] \<Rightarrow> None
      | Inl err # evs \<Rightarrow> Some ((got, Some (RecvErr got err)), ps)
      | Inr m # evs \<Rightarrow>
          let ps = ps\<lparr>psRecv := evs\<rparr> in
          if pbMetricName m = '''' then Some ((got, Some (EmptyMetricName got)), ps)
          else if ack then
            (case probe_send send (Inr (pbId m)) ps of
               (Some err, ps) \<Rightarrow> Some ((got, Some (AckErr (pbId m) got err)), ps)
             | (None, ps) \<Rightarrow> recv_loop send ack (Suc got) k ps)
          else recv_loop send ack (Suc got) k ps)"

definition recvAndAck :: "(nat \<Rightarrow> string option) \<Rightarrow> int \<Rightarrow> ProbeStream \<Rightarrow> ((nat \<times> probe_error option) \<times> ProbeStream) option" where
  "recvAndAck send n ps = recv_loop send True 0 (nat n) ps"

text \<open>After the half-close the stream is read to its end; \<open>None\<close> when it has not ended yet.\<close>

fun awaitServerClose :: "(string + TelemetryMessage) list \<Rightarrow> unit option" where
  "awaitServerClose [] = None"
| "awaitServerClose (Inl err # evs) = Some ()"
| "awaitServerClose (Inr m # evs) = awaitServerClose evs"

definition probe_consume ::
  "string option \<Rightarrow> (nat \<Rightarrow> string option) \<Rightarrow> (string + TelemetryMessage) list \<Rightarrow> int \<Rightarrow> int \<Rightarrow> (nat \<times> probe_error option) option" where
  "probe_consume openErr send recv n credit =
     (case openConsume openErr send recv credit of
        Inl err \<Rightarrow> Some (0, Some err)
      | Inr ps \<Rightarrow> do {
          ((got, err), ps) \<leftarrow> recvAndAck send n ps;
          if err \<noteq> None then Some (got, err)
          else do { _ \<leftarrow> awaitServerClose (psRecv ps); Some (got, None) }
        })"

text \<open>\<open>ctxDone\<close>: the context ended before the hold did.\<close>

definition consumeNoAck ::
  "string option \<Rightarrow> (nat \<Rightarrow> string option) \<Rightarrow> (string + TelemetryMessage) list \<Rightarrow> bool \<Rightarrow> int \<Rightarrow> (nat \<times> probe_error option) option" where
  "consumeNoAck openErr send recv ctxDone n =
     (case openConsume openErr send recv n of
        Inl err \<Rightarrow> Some (0, Some err)
      | Inr ps \<Rightarrow> do {
          ((got, err), ps) \<leftarrow> recv_loop send False 0 (nat n) ps;
          if err \<noteq> None then Some (got, err)
          else if ctxDone then Some (got, Some HoldTimedOut)
          else do { _ \<leftarrow> awaitServerClose (psRecv ps); Some (got, None) }
        })"

text \<open>Producing while a goroutine consumes; \<open>ctxDone\<close>: the select took the end of the context.\<close>

definition runBoth ::
  "(nat \<Rightarrow> gotime) \<Rightarrow> (TelemetryMessage \<Rightarrow> 's \<Rightarrow> code option \<times> 's) \<Rightarrow> string option \<Rightarrow> (nat \<Rightarrow> string option) \<Rightarrow>
   (string + TelemetryMessage) list \<Rightarrow> bool \<Rightarrow> int \<Rightarrow> int \<Rightarrow> 's \<Rightarrow> probe_error option option \<times> 's" where
  "runBoth clock call openErr send recv ctxDone n credit s =
     (case openConsume openErr send recv credit of
        Inl err \<Rightarrow> (Some (Some err), s)
      | Inr ps \<Rightarrow>
          (case probe_produce clock call n s of
             (Some err, s) \<Rightarrow> (Some (Some err), s)
           | (None, s) \<Rightarrow>
               (if ctxDone then Some (Some ConsumeTimedOut)
                else do {
                  ((got, err), ps) \<leftarrow> recvAndAck send n ps;
                  if err \<noteq> None then Some err
                  else do { _ \<leftarrow> awaitServerClose (psRecv ps); Some None }
                }, s)))"

section \<open>Modes\<close>

text \<open>What the probe is run with: the outcome of dialing, the calls, and the stream.\<close>

record 's ProbeEnv =
  peDial :: "string option"
  peClock :: "nat \<Rightarrow> gotime"
  peProduce :: "TelemetryMessage \<Rightarrow> 's \<Rightarrow> code option \<times> 's"
  peBatch :: "TelemetryMessage list \<Rightarrow> 's \<Rightarrow> code option \<times> 's"
  peOpen :: "string option"
  peSend :: "nat \<Rightarrow> string option"
  peRecv :: "(string + TelemetryMessage) list"
  peCtxDone :: bool

datatype probe_result = ProbeOk | ProbeFail probe_error | ProbeWaiting | ProbePanic

definition probe_result_of :: "probe_error option option \<Rightarrow> probe_result" where
  "probe_result_of r = (case r of None \<Rightarrow> ProbeWaiting | Some None \<Rightarrow> ProbeOk | Some (Some err) \<Rightarrow> ProbeFail err)"

definition probe_run :: "'s ProbeEnv \<Rightarrow> int \<Rightarrow> int \<Rightarrow> string \<Rightarrow> 's \<Rightarrow> probe_result \<times> 's" where
  "probe_run pe n credit mode s =
     (case peDial pe of
        Some err \<Rightarrow> (ProbeFail (ProbeDialErr err), s)
      | None \<Rightarrow>
          if mode = ''both'' then
            (case runBoth (peClock pe) (peProduce pe) (peOpen pe) (peSend pe) (peRecv pe) (peCtxDone pe) n credit s of
               (r, s) \<Rightarrow> (probe_result_of r, s))
          else if mode = ''produce'' then
            (case probe_produce (peClock pe) (peProduce pe) n s of (err, s) \<Rightarrow> (probe_result_of (Some err), s))
          else if mode = ''consume'' then
            (probe_result_of (map_option snd (probe_consume (peOpen pe) (peSend pe) (peRecv pe) n credit)), s)
          else if mode = ''produce-batch'' then
            (case batchMsgs (peClock pe) n of
               None \<Rightarrow> (ProbePanic, s)
             | Some ms \<Rightarrow> (case peBatch pe ms s of (c, s) \<Rightarrow> (probe_result_of (Some (map_option BatchErr c)), s)))
          else if mode = ''produce-expect-reject'' then
            (case produceExpectReject (peClock pe) (peProduce pe) n s of ((acc, err), s) \<Rightarrow> (probe_result_of (Some err), s))
          else if mode = ''consume-noack'' then
            (probe_result_of (map_option snd (consumeNoAck (peOpen pe) (peSend pe) (peRecv pe) (peCtxDone pe) n)), s)
          else (ProbeFail (UnknownMode mode), s))"

section \<open>The probe against the queue\<close>

text \<open>A unary produce of the queue under a policy that never parks.\<close>

definition queue_call :: "TelemetryMessage \<Rightarrow> MQServer \<Rightarrow> code option \<times> MQServer" where
  "queue_call m s =
     (case Produce (0, []) (Some m) s of
        Some (Reply _, s) \<Rightarrow> (None, s)
      | Some (Status c, s) \<Rightarrow> (Some c, s)
      | _ \<Rightarrow> (Some Internal, s))"

definition free_slots :: "MQServer \<Rightarrow> nat" where
  "free_slots s = nat (Capacity (cfg (store s)) - int (used (store s)))"

lemma queue_call_reject:
  assumes "broker_inv (store s)" "Policy (cfg (store s)) = PolicyReject" "\<not> IsShuttingDown s" "\<not> closed (store s)"
  obtains (admitted) s' where "0 < free_slots s" "queue_call m s = (None, s')" "broker_inv (store s')" "cfg (store s') = cfg (store s)"
      "\<not> IsShuttingDown s'" "\<not> closed (store s')" "Suc (free_slots s') = free_slots s" "produced s' = produced s + 1"
  | (full) s' where "free_slots s = 0" "queue_call m s = (Some ResourceExhausted, s')" "produced s' = produced s"
      "all_ids (store s') = all_ids (store s)"
proof -
  have pol: "Policy (cfg (store s)) \<noteq> PolicyBlock" "Policy (cfg (store s)) \<noteq> PolicyDropOldest"
    using assms(2) by (simp_all add: policy_defs)
  note now = Enqueue_now [OF pol(1) assms(1)]
  from assms(1) show ?thesis
  proof (cases rule: Enqueue_pass_cases [where m = m])
    case (room b')
    then obtain d where b': "b' = (store s)\<lparr>nextID := nextID (store s) + 1, main := d\<rparr>" "broker_inv b'" "used b' = Suc (used (store s))"
      by (auto simp: admitted_def)
    show ?thesis
      by (rule admitted [of "NotifyAll (s\<lparr>store := b', produced := produced s + 1\<rparr>)"])
        (use room b' assms(3,4) in \<open>auto simp: queue_call_def Produce_def now free_slots_def NotifyAll_def IsShuttingDown_def\<close>)
  next
    case reject
    show ?thesis
      by (rule full [of "s\<lparr>store := (store s)\<lparr>rejected := rejected (store s) + 1\<rparr>, srv_rejected := srv_rejected s + 1\<rparr>"])
        (use reject assms(3) in \<open>auto simp: queue_call_def Produce_def now free_slots_def ids_defs\<close>)
  qed (use assms(4) pol in auto)
qed

lemma expect_reject_finds_limit:
  assumes "broker_inv (store s)" "Policy (cfg (store s)) = PolicyReject" "\<not> IsShuttingDown s" "\<not> closed (store s)"
    "expect_reject_loop clock queue_call n i k s = (r, s')"
  shows "if free_slots s < k then r = (int (i + free_slots s), None) \<and> produced s' = produced s + int (free_slots s)
    else r = (n, Some (AllAccepted n)) \<and> produced s' = produced s + int k"
  using assms
proof (induction k arbitrary: i s)
  case (Suc k)
  from Suc.prems(1-4) show ?case
  proof (cases rule: queue_call_reject [where m = "smoke_message ''GPU-smoke-rej-'' (clock i) i"])
    case (admitted s1)
    with Suc.prems have "expect_reject_loop clock queue_call n (Suc i) k s1 = (r, s')" "Policy (cfg (store s1)) = PolicyReject" by simp_all
    from Suc.IH [OF admitted(3) this(2) admitted(5,6) this(1)] admitted(7,8) show ?thesis by (auto split: if_splits)
  next
    case (full s1)
    with Suc.prems(5) show ?thesis by auto
  qed
qed simp

text \<open>The backpressure check does what it is for: on a queue that rejects, \<open>produceExpectReject\<close> succeeds exactly
  when it tries more messages than there are free slots, and then reports and has published exactly the free slots.\<close>

lemma probe_detects_backpressure:
  assumes "broker_inv (store s)" "Policy (cfg (store s)) = PolicyReject" "\<not> IsShuttingDown s" "\<not> closed (store s)" "0 \<le> n"
    "produceExpectReject clock queue_call n s = ((a, err), s')"
  shows "(err = None \<longleftrightarrow> int (free_slots s) < n) \<and> a = min n (int (free_slots s)) \<and> produced s' = produced s + a"
  using expect_reject_finds_limit [OF assms(1-4), of clock n 0 "nat n" "(a, err)" s'] assms(5,6)
  by (auto simp: produceExpectReject_def split: if_splits)

lemma float64_of_examples:
  "float64_of 1 = 0x3FF0000000000000" "float64_of 3 = 0x4008000000000000" "float64_of 20 = 0x4034000000000000"
  by (simp_all add: float64_of_def bit_width.simps Let_def)

text \<open>Every acknowledgement the probe sends is for a message it received, in order, after its credit.\<close>

lemma recv_loop_acks:
  "recv_loop send True got k ps = Some ((got', err), ps') \<Longrightarrow>
     \<exists>ms. psSent ps' = psSent ps @ map (Inr \<circ> pbId) ms \<and> length ms = got' - got \<and> got \<le> got' \<and>
       (\<exists>rest. psRecv ps = map Inr ms @ rest) \<and> (err = None \<longrightarrow> got' = got + k)"
proof (induction k arbitrary: got ps)
  case (Suc k)
  show ?case
  proof (cases "psRecv ps")
    case (Cons x evs)
    show ?thesis
    proof (cases x)
      case (Inr m)
      let ?ps = "ps\<lparr>psRecv := evs\<rparr>"
      show ?thesis
      proof (cases "pbMetricName m = '''' \<or> send (length (psSent ps)) \<noteq> None")
        case True
        with Suc.prems Cons Inr show ?thesis
          by (intro exI [of _ "[]"]) (auto simp: probe_send_def Let_def split: if_splits option.splits)
      next
        case False
        with Suc.prems Cons Inr have "recv_loop send True (Suc got) k (?ps\<lparr>psSent := psSent ps @ [Inr (pbId m)]\<rparr>) = Some ((got', err), ps')"
          by (simp add: probe_send_def Let_def)
        from Suc.IH [OF this] obtain ms rest where "psSent ps' = (psSent ps @ [Inr (pbId m)]) @ map (Inr \<circ> pbId) ms"
          "length ms = got' - Suc got" "Suc got \<le> got'" "evs = map Inr ms @ rest" "err = None \<longrightarrow> got' = Suc got + k" by auto
        with Cons Inr show ?thesis by (intro exI [of _ "m # ms"]) auto
      qed
    qed (use Suc.prems Cons in \<open>auto intro!: exI [of _ "[]"]\<close>)
  qed (use Suc.prems in simp)
qed simp

end
