(* ===== verification/Spec2Isabelle.thy ===== *)
theory Spec2Isabelle
  imports Broker_Delivery Stream_Credit Mq_Http Publishing Serving Services Mq_Probe
begin

text \<open>
  \<^bold>\<open>Vantage: a verification of the telemetry pipeline.\<close>

  \<^bold>\<open>The program.\<close> Vantage moves GPU telemetry from CSV files to a Postgres database and serves it over HTTP.
  Four services take part. The \<^emph>\<open>streamer\<close> reads the rows of a file, stamps them and publishes them. The
  \<^emph>\<open>message queue\<close> keeps them in memory, leases them to consumers, takes acknowledgements, redelivers what
  was not acknowledged and sets messages aside that fail too often. The \<^emph>\<open>collector\<close> consumes a stream of the
  queue, writes batches to the database, isolates rows the database refuses and acknowledges what is durable.
  The \<^emph>\<open>gateway\<close> answers queries over the stored rows with pagination. They interact by calls only: streamer to
  queue (\<open>Produce\<close>, \<open>ProduceBatch\<close>), collector to queue (the stream \<open>Consume\<close>), collector and gateway to the
  database, operators to the control plane of the queue.

  \<^bold>\<open>The theories, bottom up.\<close> Paths are under \<open>src/\<close>.

  \<^descr> \<open>Vantage_Prelude\<close>: machine types, 64-bit wrap-around, rule collections, lemmas on lists, maps and words.
  \<^descr> \<open>Go_Strconv\<close>, \<open>Go_Time\<close>, \<open>Go_Base64\<close>, \<open>Go_Json\<close>, \<open>Go_Csv\<close>, \<open>Go_Heap\<close>, \<open>Go_Mux\<close>: what the program uses of Go's
    standard library, with the round trips between printing and reading (\<open>atoi_itoa\<close>, \<open>civil_roundtrip\<close>,
    \<open>rfc3339nano_roundtrip\<close>, \<open>DecodeString_EncodeToString\<close>, \<open>string_roundtrip\<close>, \<open>time_roundtrip\<close>,
    \<open>csv_line_roundtrip\<close>) the heap order of \<open>container/heap\<close>
    and the routing of \<open>http.ServeMux\<close>.
  \<^descr> \<open>Ring_Buffer\<close>: \<open>deque\<close> and \<open>dlqRing\<close> of \<open>internal/queue/broker.go\<close>, as records of buffer, head and count.
  \<^descr> \<open>Telemetry_Model\<close>: \<open>TelemetryMessage\<close> of \<open>pkg/pb\<close>, \<open>GpuMetric\<close> and \<open>FromProto\<close> of \<open>pkg/models/telemetry.go\<close>.
  \<^descr> \<open>Broker\<close>: the rest of \<open>internal/queue/broker.go\<close>, one definition per method, state record \<open>Broker\<close>.
    \<open>Broker_Inv\<close> and \<open>Broker_Ops\<close> hold its invariants and their preservation, \<open>Broker_Safety\<close> its runs as a
    step relation with a history, \<open>Broker_Props\<close> the promises over every run, \<open>Broker_Spec\<close> an abstract
    queue and the refinement, \<open>Broker_Delivery\<close> what repeated polls deliver, \<open>Broker_Payload\<close> what messages carry.
  \<^descr> \<open>MQ_Server\<close>, \<open>MQ_Stream\<close>: \<open>internal/server/server.go\<close>. The unary calls, drain and shutdown; the
    \<open>Consume\<close> call as a machine per stream (program counter, credit tokens, acks in flight), any number of
    which interleave with producers and sweeper in the relation \<open>sys_from\<close> between a state and the later ones
    (\<open>sys_reach\<close>: from a new server). \<open>Stream_Credit\<close>: what becomes of the credit of a stream over its life, with an executable stepper.
  \<^descr> \<open>Env_Config\<close>: the settings of all services (\<open>internal/config\<close>, \<open>internal/collector/config.go\<close>,
    \<open>internal/streamer/config.go\<close>, \<open>internal/gateway/config.go\<close>, \<open>pkg/db/config.go\<close>, \<open>pkg/logger/logger.go\<close>)
    and the queue built from them in \<open>cmd/mq/main.go\<close>.
  \<^descr> \<open>Mq_Http\<close>: \<open>internal/http\<close> and the drain loop of \<open>cmd/mq/main.go\<close>.
  \<^descr> \<open>Telemetry_Db\<close>: the tables and statements, and the reads of \<open>pkg/db/read.go\<close>. \<open>Db_Setup\<close>: \<open>pkg/db/db.go\<close>.
  \<^descr> \<open>Collector\<close>, \<open>Collector_Stream\<close>: \<open>internal/collector/collector.go\<close>, persistence first, then the two
    goroutines of a stream and the reconnect loop.
  \<^descr> \<open>Gateway\<close>: \<open>internal/gateway/handler.go\<close> and \<open>cursor.go\<close>.
  \<^descr> \<open>Streamer\<close>: \<open>internal/streamer/streamer.go\<close>.
  \<^descr> \<open>Services\<close>: the mains under \<open>cmd/\<close> and the routes of \<open>internal/gateway/server.go\<close>: startup order, control plane of
    the queue as one request function, teardown, probes, exit codes.
  \<^descr> \<open>Mq_Probe\<close>: the smoke client \<open>scripts/smoke/mqprobe\<close>, and its backpressure check against the queue.
  \<^descr> \<open>Publishing\<close>, \<open>Pipeline\<close>, \<open>Provenance\<close>, \<open>Serving\<close>: the compositions. Streamer with queue; queue with collectors and
    database, from the side of what was admitted and from the side of what is stored; all of it with the gateway.

  \<^bold>\<open>Conventions.\<close> A Go struct is a record, an operation a function from the state to its result and the new
  state. \<open>None\<close> from an operation is a panic; errors are values of sum types. \<open>int\<close>s that are bounded by
  configuration are \<open>int\<close> with \<open>wrap64\<close> where the code can overflow, ids and attempts are words. A section
  under a mutex is one step; what happens between two sections is any sequence of steps: between two admissions of a batch,
  while a producer waits, between the two sections of a sweeper tick (\<open>SweepExpired\<close>, \<open>sweeper_check\<close>). The one exception is
  \<open>DLQReplayHandler\<close>, whose replay and the statistics of its answer are read in one step. A timer is the instant at which it fires; a case of a \<open>select\<close> can be
  taken when it is ready. \<open>make\<close> panics beyond the address space of a 64-bit platform (\<open>maxAlloc\<close>); running
  out of memory below it is not modelled, and the channels of \<open>Consume\<close>, whose credit is bounded by the capacity, are taken to fit. Clocks, replies of
  the network, faults of the database, and third-party code (pgx, golang-migrate, protojson, errgroup) are arguments.

  \<^bold>\<open>Interfaces.\<close> \<open>fifo_pop\<close>, \<open>strict_fifo\<close> and \<open>evicting_fifo\<close> are what the broker asks of its rings, \<open>priority_lane\<close>
  what it asks of the retry heap; \<open>lease_store\<close> is what a \<open>Consume\<close> stream asks of the broker, \<open>durable_db\<close>
  and \<open>sourced_db\<close> what the collector asks of the database driver (nothing durable is lost, nothing is made up), \<open>collation\<close> what keyset pagination asks of the order
  of texts. \<open>rely\<close> is what a batch asks of the goroutines that act between its admissions (they keep the broker's invariant and configuration); it is
  interpreted on the operations of the broker. The first five are interpreted on the model of the code that provides them, \<open>durable_db\<close> and \<open>sourced_db\<close> on a driver over
  the modelled tables with arbitrary faults and refused rows, \<open>collation\<close> on the order of bytes
  (collation \<open>C\<close>).

  \<^bold>\<open>What is shown.\<close> End to end, a message that the queue admitted is held by the broker or, when its
  timestamp can be read at all, is in the database as a row or as a dead letter, whatever the interleaving and the faults (\<open>Pipeline\<close>; under the
  block and reject policies, and unless the bounded dead-letter lane of the queue overflowed; rows that the retention of the database deletes are not counted as lost). Conversely every row and dead
  letter is that of an admitted message and the table keeps its unique keys (\<open>Provenance\<close>), so a client of the
  gateway who follows the cursors over a table at rest, whose rows have cursors that survive, reads the admitted readings, each once (\<open>Serving\<close>). For
  the broker: it refines the abstract queue; its budget holds; nothing panics; every id is accounted for
  once; acknowledgements need ownership; attempts are bounded; delivery order, redelivery delays, release,
  sweep and replay are exact; no parked producer misses a freed slot, and a blocked one waits for at most its timeout, counted from its first wait; polling delivers everything that is due. For the service: the credit window is
  kept and never grows, so that a stream whose leases all expired is idle until it reconnects, no parked consumer misses work, cleanup ends, applies the buffered acknowledgements and releases every other lease, batches are admitted by
  prefix under any interference and policy, draining refuses work, the service starts exactly when its rings can be allocated, the drain ends, no HTTP request loses a message. For the collector: what it acknowledged is durable, bisection isolates
  exactly the poison rows (when their dead letters can be stored), redelivery changes nothing. For the reads: keyset and offset pages agree,
  partial results are never passed off as complete, following cursors ends and visits every row once,
  the status codes are characterised under every database failure, cursors round-trip. For the streamer: what it publishes is a prefix
  of the rows in order and no row panics, retries agree with the queue call by call, with lost replies as the only
  source of hidden admissions, and the collector can read every stamp it writes.

  \<^bold>\<open>Loops and bounds.\<close> Every function is total and executable; there is no fuel. Loops that wait for
  the outside (retries, reconnects, wake-ups, drain ticks) consume the list of what the outside does; running
  out of it is a value of its own (\<open>Blocked\<close>, \<open>Parked\<close>), the one loop of the code that can spin for ever (a file whose reads fail) is the value \<open>Spins\<close>, and termination is stated as: enough good replies end the
  loop. Loops over data have measures (bisection halves, eviction empties the lane, the lexers shorten
  their text). Counters of the broker are unbounded numbers; ids are 64-bit and the claims that need
  fresh ids bound the number of admissions below \<open>2 ^ 64\<close>.

  \<^bold>\<open>Not modelled.\<close> Signals, errgroups, the gRPC and HTTP servers and the matching of chi routes are library calls; what the mains do
  around them is modelled. Metric registration is Prometheus. Generated code (\<open>pkg/pb\<close> beyond its message type, \<open>pkg/docs\<close>), charts and shell scripts. The retention of the database, \<open>gpu_metrics_drop_old_partitions\<close> of migration 000003, which the chart runs every night: rows never leave
  the modelled table. Read errors of the CSV file that go away again. Texts of status errors and logs. The value of a parsed floating-point number, which the
  pipeline carries and never computes with. The mutual exclusion of Go's mutexes, channels and gRPC's ordering
  are taken as the language and library document them.
\<close>

end
